(* ===== verification/Stardust_Prelude.thy ===== *)
theory Stardust_Prelude
  imports Main "HOL-Library.Word"
begin

unbundle bit_operations_syntax

text \<open>
  Shared vocabulary of the Stardust development.

  \<^item> the machine integers of the source as words;
  \<^item> the ways in which Rust code stops (\<open>panic\<close>) and the result type of code that may
    stop, with its sequencing combinator;
  \<^item> Rust's integer operators.  The kernel crate is compiled with \<^verbatim>\<open>cargo build\<close> (the
    development profile, \<^verbatim>\<open>Orchestrator/stardust.py\<close>), in which \<^verbatim>\<open>+\<close>, \<^verbatim>\<open>-\<close> and
    \<^verbatim>\<open>*\<close> panic on overflow: they are \<open>add_chk\<close>, \<open>sub_chk\<close> and \<open>mul_chk\<close>.  The
    userland crates are compiled with \<^verbatim>\<open>--release\<close>, in which the operators wrap: they
    are the word operators themselves;
  \<^item> page arithmetic (\<open>x & !(2^n - 1)\<close>) and generic lemmas on words and lists.
\<close>

section \<open>Machine integers\<close>

type_synonym u8 = "8 word"
type_synonym u16 = "16 word"
type_synonym u32 = "32 word"
type_synonym u64 = "64 word"

abbreviation u64_MAX :: u64 where
  "u64_MAX \<equiv> - 1"

section \<open>Panics and results\<close>

datatype panic =
    Arith_Overflow               \<comment> \<open>attempt to add, subtract or multiply with overflow\<close>
  | Index_Out_Of_Bounds
  | Unwrap_None
  | Expect_Failed string
  | Explicit_Panic string
  | Bad_Pointer u64              \<comment> \<open>precondition of a raw pointer read violated\<close>
  | Bad_Address u64              \<comment> \<open>rejected by \<^verbatim>\<open>PhysAddr::new\<close> or \<^verbatim>\<open>VirtAddr::new\<close>\<close>
  | Page_Fault u64               \<comment> \<open>hardware fault; the handler halts the core\<close>

type_synonym 'a res = "panic + 'a"

text \<open>Sequencing: the first panic ends the computation.\<close>

definition bindE :: "'a res \<Rightarrow> ('a \<Rightarrow> 'b res) \<Rightarrow> 'b res" where
  "bindE m f = (case m of Inl e \<Rightarrow> Inl e | Inr x \<Rightarrow> f x)"

text \<open>\<open>Option::expect\<close> and \<open>Option::unwrap\<close>.\<close>

definition expectE :: "string \<Rightarrow> 'a option \<Rightarrow> 'a res" where
  "expectE msg x = (case x of None \<Rightarrow> Inl (Expect_Failed msg) | Some v \<Rightarrow> Inr v)"

definition unwrapE :: "'a option \<Rightarrow> 'a res" where
  "unwrapE x = (case x of None \<Rightarrow> Inl Unwrap_None | Some v \<Rightarrow> Inr v)"

named_theorems res_simps \<open>evaluation and inversion of the result combinators\<close>

lemma bindE_Inr [simp, res_simps]: "bindE (Inr x) f = f x"
  by (simp add: bindE_def)

lemma bindE_Inl [simp, res_simps]: "bindE (Inl e) f = Inl e"
  by (simp add: bindE_def)

lemma bindE_eq_Inr [res_simps]: "bindE m f = Inr y \<longleftrightarrow> (\<exists>x. m = Inr x \<and> f x = Inr y)"
  by (cases m) auto

lemma bindE_eq_Inl [res_simps]:
  "bindE m f = Inl e \<longleftrightarrow> m = Inl e \<or> (\<exists>x. m = Inr x \<and> f x = Inl e)"
  by (cases m) auto

lemma bindE_cong [fundef_cong]:
  "m = m' \<Longrightarrow> (\<And>x. m' = Inr x \<Longrightarrow> f x = f' x) \<Longrightarrow> bindE m f = bindE m' f'"
  by (cases m') auto

lemma bindE_assoc: "bindE (bindE m f) g = bindE m (\<lambda>x. bindE (f x) g)"
  by (cases m) auto

lemma expectE_simps [simp, res_simps]:
  "expectE msg None = Inl (Expect_Failed msg)" "expectE msg (Some v) = Inr v"
  by (simp_all add: expectE_def)

lemma expectE_eq_Inr [res_simps]: "expectE msg x = Inr v \<longleftrightarrow> x = Some v"
  by (cases x) auto

lemma unwrapE_simps [simp, res_simps]:
  "unwrapE None = Inl Unwrap_None" "unwrapE (Some v) = Inr v"
  by (simp_all add: unwrapE_def)

lemma unwrapE_eq_Inr [res_simps]: "unwrapE x = Inr v \<longleftrightarrow> x = Some v"
  by (cases x) auto

section \<open>Integer operators of the development profile\<close>

definition add_chk :: "'w::len word \<Rightarrow> 'w word \<Rightarrow> 'w word res" where
  "add_chk a b = (if unat a + unat b < 2 ^ LENGTH('w) then Inr (a + b) else Inl Arith_Overflow)"

definition sub_chk :: "'w::len word \<Rightarrow> 'w word \<Rightarrow> 'w word res" where
  "sub_chk a b = (if b \<le> a then Inr (a - b) else Inl Arith_Overflow)"

definition mul_chk :: "'w::len word \<Rightarrow> 'w word \<Rightarrow> 'w word res" where
  "mul_chk a b = (if unat a * unat b < 2 ^ LENGTH('w) then Inr (a * b) else Inl Arith_Overflow)"

definition saturating_add :: "'w::len word \<Rightarrow> 'w word \<Rightarrow> 'w word" where
  "saturating_add a b = (if unat a + unat b < 2 ^ LENGTH('w) then a + b else - 1)"

definition saturating_sub :: "'w::len word \<Rightarrow> 'w word \<Rightarrow> 'w word" where
  "saturating_sub a b = (if b \<le> a then a - b else 0)"

lemma add_chk_eq_Inr [res_simps]:
  "add_chk a b = Inr c \<longleftrightarrow> unat a + unat b < 2 ^ LENGTH('w) \<and> c = (a::'w::len word) + b"
  by (auto simp: add_chk_def)

lemma mul_chk_eq_Inr [res_simps]:
  "mul_chk a b = Inr c \<longleftrightarrow> unat a * unat b < 2 ^ LENGTH('w) \<and> c = (a::'w::len word) * b"
  by (auto simp: mul_chk_def)

lemma sub_chk_eq_Inr [res_simps]: "sub_chk a b = Inr c \<longleftrightarrow> b \<le> a \<and> c = a - b"
  by (auto simp: sub_chk_def)

section \<open>Words as natural numbers\<close>

lemma unat_add_no_overflow:
  "unat a + unat b < 2 ^ LENGTH('w) \<Longrightarrow> unat ((a::'w::len word) + b) = unat a + unat b"
  by (simp add: unat_add_lem [symmetric])

lemma unat_mult_no_overflow:
  "unat a * unat b < 2 ^ LENGTH('w) \<Longrightarrow> unat ((a::'w::len word) * b) = unat a * unat b"
  by (simp add: unat_mult_lem [symmetric])

lemma unat_of_nat_small: "n < 2 ^ LENGTH('w) \<Longrightarrow> unat (of_nat n :: 'w::len word) = n"
  by (simp add: unat_of_nat)

lemma unat_ucast_small: "unat x < 2 ^ LENGTH('b) \<Longrightarrow> unat (ucast (x :: 'a::len word) :: 'b::len word) = unat x"
  by (simp add: unsigned_ucast_eq take_bit_nat_eq_self)

lemma u64_unat_lt: "unat (x::u64) < 2 ^ 64"
  using unsigned_less [of x] by simp

lemma u64_unat_le: "unat (x::u64) \<le> 18446744073709551615"
  using u64_unat_lt [of x] by simp

lemma unat_u64_MAX: "unat u64_MAX = 18446744073709551615"
  by (simp add: unsigned_minus_1_eq_mask mask_numeral)

lemma unat_eq_zero_iff: "unat x = 0 \<longleftrightarrow> (x::'w::len word) = 0"
  by (simp add: unat_eq_zero)

section \<open>Page arithmetic\<close>

text \<open>\<open>x & !(2^n - 1)\<close> rounds down to a multiple of \<open>2^n\<close>.\<close>

lemma and_not_mask_word: "(x::'w::len word) AND NOT (mask n) = push_bit n (drop_bit n x)"
  by (rule bit_word_eqI) (auto simp: bit_simps)

lemma unat_and_not_mask:
  "unat ((x::'w::len word) AND NOT (mask n)) = unat x div 2 ^ n * 2 ^ n"
proof -
  have "unat (push_bit n (drop_bit n x)) = take_bit LENGTH('w) (push_bit n (drop_bit n (unat x)))"
    by (simp add: unsigned_push_bit_eq unat_drop_bit_eq)
  also have "\<dots> = unat x div 2 ^ n * 2 ^ n"
  proof -
    have "unat x div 2 ^ n * 2 ^ n \<le> unat x" by simp
    also have "\<dots> < 2 ^ LENGTH('w)" by (rule unsigned_less)
    finally show ?thesis
      by (simp add: push_bit_eq_mult drop_bit_eq_div take_bit_eq_mod)
  qed
  finally show ?thesis by (simp add: and_not_mask_word)
qed

text \<open>The two constants of the source: \<open>PAGE_SIZE - 1\<close> and \<open>0xFFF\<close> are both 4095.\<close>

definition page_floor :: "u64 \<Rightarrow> u64" where
  "page_floor x = x AND NOT 4095"

definition page_offset :: "u64 \<Rightarrow> u64" where
  "page_offset x = x AND 4095"

lemma mask_12_u64: "(mask 12 :: u64) = 4095"
  by (simp add: mask_numeral)

lemma unat_page_floor: "unat (page_floor x) = unat x div 4096 * 4096"
  using unat_and_not_mask [of x 12] by (simp add: page_floor_def mask_12_u64)

lemma unat_page_offset: "unat (page_offset x) = unat x mod 4096"
proof -
  have "x AND 4095 = take_bit 12 x"
    by (simp add: take_bit_eq_mask mask_12_u64)
  then show ?thesis
    unfolding page_offset_def by (simp only: unsigned_take_bit_eq) (simp add: take_bit_eq_mod)
qed

lemma page_floor_le: "page_floor x \<le> x"
  by (simp add: word_le_nat_alt unat_page_floor)

lemma page_floor_idem [simp]: "page_floor (page_floor x) = page_floor x"
  by (rule word_unat_eq_iff [THEN iffD2]) (simp add: unat_page_floor)

lemma page_floor_aligned: "unat x mod 4096 = 0 \<Longrightarrow> page_floor x = x"
  by (rule word_unat_eq_iff [THEN iffD2]) (auto simp: unat_page_floor)

lemma page_floor_eq_iff:
  "page_floor x = page_floor y \<longleftrightarrow> unat x div 4096 = unat y div 4096"
  by (auto simp: word_unat_eq_iff unat_page_floor)

lemma page_floor_plus_offset: "page_floor x + page_offset x = x"
proof -
  have "unat (page_floor x) + unat (page_offset x) = unat x"
    by (simp add: unat_page_floor unat_page_offset)
  with unsigned_less [of x] show ?thesis
    by (metis unat_add_lem word_unat_eq_iff)
qed

end
