(* ===== verification/Oracle.thy ===== *)
theory Oracle
  imports Stardust_Prelude
begin

text \<open>
  The kernel's serial diagnostics, \<^verbatim>\<open>stardust/src/oracle.rs\<close>.  The UART is write only, so
  its state is the list of bytes sent to port 0x3F8.  Printing a number fills a fixed array from
  the least significant digit and sends it backwards; the array accesses are bounds checked, as
  in Rust.  The lemmas show that the two arrays (20 and 16 bytes) are always large enough and that
  what is printed reads back as the number.
\<close>

section \<open>Model\<close>

type_synonym serial = "u8 list"

definition serial_write_byte :: "u8 \<Rightarrow> serial \<Rightarrow> serial" where
  "serial_write_byte data log = log @ [data]"

text \<open>The bytes of a string literal.\<close>

definition str_bytes :: "string \<Rightarrow> u8 list" where
  "str_bytes s = map of_char s"

fun speak_bytes :: "u8 list \<Rightarrow> serial \<Rightarrow> serial" where
  "speak_bytes [] log = log"
| "speak_bytes (b # bs) log = speak_bytes bs (serial_write_byte b log)"

definition speak :: "string \<Rightarrow> serial \<Rightarrow> serial" where
  "speak message log = speak_bytes (str_bytes message) log"

text \<open>
  The first loop of \<open>speak_u64\<close> and \<open>speak_hex\<close>: \<open>dig\<close> computes the character of a
  digit, the buffer is an array of fixed length.
\<close>

function digit_loop :: "u64 \<Rightarrow> (u64 \<Rightarrow> u8 res) \<Rightarrow> u8 list \<Rightarrow> nat \<Rightarrow> u64 \<Rightarrow> (u8 list \<times> nat) res" where
  "digit_loop radix dig buffer i num =
     (if num > 0 \<and> radix > 1 then
        bindE (dig (num mod radix)) (\<lambda>c.
          if i < length buffer then digit_loop radix dig (buffer[i := c]) (i + 1) (num div radix)
          else Inl Index_Out_Of_Bounds)
      else Inr (buffer, i))"
  by pat_completeness auto
termination
proof (relation "measure (\<lambda>(_, _, _, _, num). unat num)", goal_cases)
  case (2 radix dig buffer i num c)
  then have "0 < unat num" and "1 < unat radix"
    by (auto simp: word_less_nat_alt)
  then show ?case by (simp add: unat_div)
qed simp

declare digit_loop.simps [simp del]

text \<open>The second loop: \<open>while i > 0 { i -= 1; serial_write_byte(buffer[i]); }\<close>\<close>

fun flush_loop :: "u8 list \<Rightarrow> nat \<Rightarrow> serial \<Rightarrow> serial res" where
  "flush_loop buffer 0 log = Inr log"
| "flush_loop buffer (Suc i) log =
     (if i < length buffer then flush_loop buffer i (serial_write_byte (buffer ! i) log)
      else Inl Index_Out_Of_Bounds)"

text \<open>\<open>(num % 10) as u8 + b'0'\<close>, with the addition checked.\<close>

definition dec_char :: "u64 \<Rightarrow> u8 res" where
  "dec_char d = add_chk (ucast d) 48"

definition speak_u64 :: "u64 \<Rightarrow> serial \<Rightarrow> serial res" where
  "speak_u64 num log =
     (if num = 0 then Inr (serial_write_byte 48 log)
      else bindE (digit_loop 10 dec_char (replicate 20 0) 0 num)
        (\<lambda>(buffer, i). flush_loop buffer i log))"

definition hex_chars :: "u8 list" where
  "hex_chars = str_bytes ''0123456789ABCDEF''"

definition hex_char :: "u64 \<Rightarrow> u8 res" where
  "hex_char d = (if unat d < length hex_chars then Inr (hex_chars ! unat d)
                 else Inl Index_Out_Of_Bounds)"

definition speak_hex :: "u64 \<Rightarrow> serial \<Rightarrow> serial res" where
  "speak_hex num log =
     (if num = 0 then Inr (speak ''0'' log)
      else bindE (digit_loop 16 hex_char (replicate 16 0) 0 num)
        (\<lambda>(buffer, i). flush_loop buffer i log))"

section \<open>Reference: digits of a number\<close>

fun digs :: "nat \<Rightarrow> nat \<Rightarrow> nat list" where
  "digs r n = (if n = 0 \<or> r \<le> 1 then [] else digs r (n div r) @ [n mod r])"

declare digs.simps [simp del]

lemma digs_0 [simp]: "digs r 0 = []"
  by (simp add: digs.simps)

definition digits_value :: "nat \<Rightarrow> nat list \<Rightarrow> nat" where
  "digits_value r ds = foldl (\<lambda>acc d. r * acc + d) 0 ds"

lemma digits_value_digs: "1 < r \<Longrightarrow> digits_value r (digs r n) = n"
proof (induction r n rule: digs.induct)
  case (1 r n)
  then show ?case
    by (cases "n = 0") (simp_all add: digs.simps [of r n] digits_value_def)
qed

lemma digs_less: "d \<in> set (digs r n) \<Longrightarrow> d < r"
proof (induction r n rule: digs.induct)
  case (1 r n)
  then show ?case by (auto simp: digs.simps [of r n] split: if_splits)
qed

lemma digs_length: "n < r ^ k \<Longrightarrow> length (digs r n) \<le> k"
proof (induction k arbitrary: n)
  case 0
  then show ?case by (simp add: digs.simps)
next
  case (Suc k)
  show ?case
  proof (cases "n = 0 \<or> r \<le> 1")
    case False
    then have "n div r < r ^ k"
      using Suc.prems by (simp add: less_mult_imp_div_less mult.commute)
    with Suc.IH False show ?thesis by (simp add: digs.simps [of r n])
  qed (simp add: digs.simps [of r n])
qed

lemma digs_no_leading_zero: "1 < r \<Longrightarrow> 0 < n \<Longrightarrow> digs r n \<noteq> [] \<and> hd (digs r n) \<noteq> 0"
proof (induction r n rule: digs.induct)
  case (1 r n)
  show ?case
  proof (cases "n div r = 0")
    case True
    with "1.prems" have "n mod r = n" by (simp add: div_eq_0_iff)
    with True "1.prems" show ?thesis by (simp add: digs.simps [of r n] digs.simps [of r 0])
  next
    case False
    with 1 have "digs r (n div r) \<noteq> [] \<and> hd (digs r (n div r)) \<noteq> 0" by simp
    with "1.prems" show ?thesis by (simp add: digs.simps [of r n])
  qed
qed

section \<open>Lemmas\<close>

lemma speak_bytes_append: "speak_bytes bs log = log @ bs"
  by (induction bs arbitrary: log) (simp_all add: serial_write_byte_def)

lemma speak_append: "speak msg log = log @ str_bytes msg"
  by (simp add: speak_def speak_bytes_append)

lemma flush_loop_rev: "i \<le> length buffer \<Longrightarrow> flush_loop buffer i log = Inr (log @ rev (take i buffer))"
  by (induction i arbitrary: log) (auto simp: serial_write_byte_def take_Suc_conv_app_nth)

text \<open>
  The digit loop writes the digits, least significant first, from position \<open>i\<close> on, and never
  runs past the end of a buffer long enough for the number.
\<close>

lemma digit_loop_digs:
  assumes dig: "\<And>d. d < radix \<Longrightarrow> dig d = Inr (ch (unat d))"
    and r: "1 < unat radix"
  shows "unat num < unat radix ^ (length buffer - i) \<Longrightarrow> i \<le> length buffer \<Longrightarrow>
    \<exists>buffer' i'. digit_loop radix dig buffer i num = Inr (buffer', i') \<and>
      i' = i + length (digs (unat radix) (unat num)) \<and> length buffer' = length buffer \<and>
      i' \<le> length buffer \<and>
      take i' buffer' = take i buffer @ map ch (rev (digs (unat radix) (unat num)))"
proof (induction "unat num" arbitrary: num i buffer rule: less_induct)
  case less
  show ?case
  proof (cases "num = 0")
    case True
    then show ?thesis
      using less.prems by (simp add: digit_loop.simps digs.simps)
  next
    case False
    let ?n = "unat num" and ?r = "unat radix"
    have pos: "0 < ?n" using False by (simp add: unat_gt_0)
    have i: "i < length buffer"
    proof (rule ccontr)
      assume "\<not> ?thesis"
      with less.prems pos show False by simp
    qed
    have radix: "1 < radix" using r by (simp add: word_less_nat_alt)
    have modlt: "num mod radix < radix"
      using r by (simp add: word_less_nat_alt unat_mod)
    let ?b = "buffer[i := ch (unat (num mod radix))]"
    have smaller: "unat (num div radix) < ?n"
      using pos r by (simp add: unat_div)
    have k: "length buffer - i = Suc (length ?b - (i + 1))" using i by simp
    have bound: "unat (num div radix) < ?r ^ (length ?b - (i + 1))"
    proof -
      have "?n < ?r ^ (length ?b - (i + 1)) * ?r"
        using less.prems(1) by (simp only: k power_Suc mult.commute)
      then show ?thesis by (simp add: unat_div less_mult_imp_div_less)
    qed
    have le: "i + 1 \<le> length ?b" using i by simp
    from less.hyps [OF smaller bound le] obtain b' i' where
      run: "digit_loop radix dig ?b (i + 1) (num div radix) = Inr (b', i')" and
      i': "i' = i + 1 + length (digs ?r (unat (num div radix)))" "i' \<le> length ?b" and
      b': "length b' = length ?b"
        "take i' b' = take (i + 1) ?b @ map ch (rev (digs ?r (unat (num div radix))))"
      by blast
    have "take (i + 1) ?b = take i buffer @ [ch (?n mod ?r)]"
      using i by (simp add: take_Suc_conv_app_nth unat_mod)
    moreover have "digs ?r ?n = digs ?r (?n div ?r) @ [?n mod ?r]"
      using pos r by (simp add: digs.simps [of ?r ?n])
    moreover have "digit_loop radix dig buffer i num = Inr (b', i')"
      using False i radix run
      by (simp add: digit_loop.simps [of radix dig buffer i num] dig [OF modlt] word_gt_0)
    ultimately show ?thesis
      using i' b' by (simp add: unat_div)
  qed
qed

lemma print_digits:
  assumes dig: "\<And>d. d < radix \<Longrightarrow> dig d = Inr (ch (unat d))"
    and r: "1 < unat radix" and cap: "2 ^ 64 \<le> unat radix ^ cap"
  shows "bindE (digit_loop radix dig (replicate cap 0) 0 num) (\<lambda>(buffer, i). flush_loop buffer i log)
    = Inr (log @ map ch (digs (unat radix) (unat num)))"
proof -
  have "unat num < unat radix ^ (length (replicate cap (0::u8)) - 0)"
    using cap u64_unat_lt [of num] by simp
  then obtain b i where run: "digit_loop radix dig (replicate cap 0) 0 num = Inr (b, i)"
    and i: "i \<le> length b" and t: "take i b = map ch (rev (digs (unat radix) (unat num)))"
    using digit_loop_digs [of radix dig ch num "replicate cap 0" 0, OF dig r] by auto
  then show ?thesis by (simp add: flush_loop_rev rev_map)
qed

abbreviation dec_digit :: "nat \<Rightarrow> u8" where
  "dec_digit d \<equiv> of_nat (48 + d)"

abbreviation hex_digit :: "nat \<Rightarrow> u8" where
  "hex_digit d \<equiv> hex_chars ! d"

lemma dec_char_digit:
  assumes "d < 10"
  shows "dec_char d = Inr (dec_digit (unat d))"
proof -
  have lt: "unat d < 10" using assms by (simp add: word_less_nat_alt)
  then have u: "unat (ucast d :: u8) = unat d"
    by (simp add: unsigned_ucast_eq take_bit_eq_mod)
  have "dec_digit (unat d) = ucast d + 48" by (simp add: add.commute)
  moreover have "unat (ucast d :: u8) + unat (48 :: u8) < 2 ^ LENGTH(8)" using lt by (simp add: u)
  ultimately show ?thesis by (simp only: dec_char_def add_chk_eq_Inr simp_thms)
qed

lemma length_hex_chars [simp]: "length hex_chars = 16"
  by (simp add: hex_chars_def str_bytes_def)

lemma hex_char_digit:
  assumes "d < 16"
  shows "hex_char d = Inr (hex_digit (unat d))"
  using assms by (simp add: hex_char_def word_less_nat_alt)

lemma speak_u64_digs:
  "speak_u64 num log = Inr (log @ (if num = 0 then [48] else map dec_digit (digs 10 (unat num))))"
  using print_digits [of 10 dec_char dec_digit 20 num log] dec_char_digit
  by (simp add: speak_u64_def serial_write_byte_def)

lemma speak_hex_digs:
  "speak_hex num log = Inr (log @ (if num = 0 then [48] else map hex_digit (digs 16 (unat num))))"
  using print_digits [of 16 hex_char hex_digit 16 num log] hex_char_digit
  by (simp add: speak_hex_def speak_append str_bytes_def)

text \<open>Neither routine can panic: every client of the serial log uses these rules.\<close>

definition dec_bytes :: "u64 \<Rightarrow> u8 list" where
  "dec_bytes n = (if n = 0 then [48] else map dec_digit (digs 10 (unat n)))"

definition hex_bytes :: "u64 \<Rightarrow> u8 list" where
  "hex_bytes n = (if n = 0 then [48] else map hex_digit (digs 16 (unat n)))"

lemma speak_u64_total [simp]: "speak_u64 n log = Inr (log @ dec_bytes n)"
  by (simp only: speak_u64_digs dec_bytes_def)

lemma speak_hex_total [simp]: "speak_hex n log = Inr (log @ hex_bytes n)"
  by (simp only: speak_hex_digs hex_bytes_def)

section \<open>Reading a printed number back\<close>

definition dec_val :: "u8 \<Rightarrow> nat" where
  "dec_val b = unat b - 48"

definition hex_val :: "u8 \<Rightarrow> nat" where
  "hex_val b = (if b \<le> 57 then unat b - 48 else unat b - 55)"

lemma dec_val_digit: "d < 10 \<Longrightarrow> dec_val (dec_digit d) = d"
  by (simp add: dec_val_def unat_of_nat_small del: of_nat_add)

lemma hex_val_digit:
  assumes "d < 16"
  shows "hex_val (hex_digit d) = d"
proof -
  have "\<forall>d \<in> set [0..<16]. hex_val (hex_digit d) = d" by code_simp
  with assms show ?thesis by simp
qed

lemma dec_digit_eq_48: "d < 10 \<Longrightarrow> (dec_digit d = 48) = (d = 0)"
  using dec_val_digit [of d] dec_val_digit [of 0] by auto

lemma hex_digit_eq_48: "d < 16 \<Longrightarrow> (hex_digit d = 48) = (d = 0)"
  using hex_val_digit [of d] hex_val_digit [of 0] by (auto simp: hex_val_def hex_chars_def str_bytes_def)

lemma digits_value_map:
  assumes "1 < r" "\<And>d. d < r \<Longrightarrow> val (ch d) = d"
  shows "digits_value r (map val (map ch (digs r n))) = n"
proof -
  have "map val (map ch (digs r n)) = digs r n"
    by (simp add: map_idI assms(2) digs_less)
  with assms(1) show ?thesis by (simp add: digits_value_digs)
qed

lemma hd_digs: "1 < r \<Longrightarrow> 0 < n \<Longrightarrow> hd (digs r n) < r \<and> 0 < hd (digs r n)"
  using digs_no_leading_zero [of r n] digs_less [of "hd (digs r n)" r n] hd_in_set by auto

text \<open>
  \<open>speak_u64\<close> never panics (its 20 byte buffer holds every 64-bit number) and appends to
  the serial log a decimal numeral: at most 20 bytes, all of them ASCII digits, with a leading
  zero only for the number 0, that reads back as the number.
\<close>

theorem speak_u64_prints_decimal:
  "\<exists>s. speak_u64 n log = Inr (log @ s) \<and> length s \<le> 20 \<and> list_all (\<lambda>b. 48 \<le> b \<and> b \<le> 57) s \<and>
     (hd s = 48) = (n = 0) \<and> digits_value 10 (map dec_val s) = unat n"
proof (intro exI conjI)
  show "speak_u64 n log = Inr (log @ dec_bytes n)" by simp
  have "unat n < 10 ^ 20" using u64_unat_lt [of n] by simp
  then show "length (dec_bytes n) \<le> 20"
    by (simp add: dec_bytes_def digs_length)
  have digit: "48 \<le> dec_digit d \<and> dec_digit d \<le> 57" if "d < 10" for d
    using that by (simp add: word_le_nat_alt unat_of_nat_small del: of_nat_add)
  show "list_all (\<lambda>b. 48 \<le> b \<and> b \<le> 57) (dec_bytes n)"
    using digit [OF digs_less] by (auto simp: dec_bytes_def list_all_iff simp del: of_nat_add)
  show "(hd (dec_bytes n) = 48) = (n = 0)"
    using hd_digs [of 10 "unat n"] digs_no_leading_zero [of 10 "unat n"]
    by (auto simp: dec_bytes_def hd_map dec_digit_eq_48 unat_gt_0 simp del: of_nat_add)
  show "digits_value 10 (map dec_val (dec_bytes n)) = unat n"
    using digits_value_map [of 10 dec_val dec_digit "unat n", OF _ dec_val_digit]
    by (auto simp: dec_bytes_def dec_val_def digits_value_def simp del: of_nat_add)
qed

text \<open>
  \<open>speak_hex\<close> never panics (its 16 byte buffer holds every 64-bit number) and appends
  an upper case hexadecimal numeral of at most 16 characters, with a leading zero only for the
  number 0, that reads back as the number.
\<close>

theorem speak_hex_prints_hexadecimal:
  "\<exists>s. speak_hex n log = Inr (log @ s) \<and> length s \<le> 16 \<and> set s \<subseteq> set hex_chars \<and>
     (hd s = 48) = (n = 0) \<and> digits_value 16 (map hex_val s) = unat n"
proof (intro exI conjI)
  show "speak_hex n log = Inr (log @ hex_bytes n)" by simp
  have "unat n < 16 ^ 16" using u64_unat_lt [of n] by simp
  then show "length (hex_bytes n) \<le> 16"
    by (simp add: hex_bytes_def digs_length)
  have zero: "48 \<in> set hex_chars" by (simp add: hex_chars_def str_bytes_def)
  have "hex_digit d \<in> set hex_chars" if "d \<in> set (digs 16 (unat n))" for d
    using digs_less [OF that] by (simp add: nth_mem)
  with zero show "set (hex_bytes n) \<subseteq> set hex_chars" by (auto simp: hex_bytes_def)
  show "(hd (hex_bytes n) = 48) = (n = 0)"
    using hd_digs [of 16 "unat n"] digs_no_leading_zero [of 16 "unat n"]
    by (auto simp: hex_bytes_def hd_map hex_digit_eq_48 unat_gt_0)
  show "digits_value 16 (map hex_val (hex_bytes n)) = unat n"
    using digits_value_map [of 16 hex_val hex_digit "unat n", OF _ hex_val_digit]
    by (auto simp: hex_bytes_def hex_val_def digits_value_def)
qed

end
