(* ===== verification/Frame_Allocator.thy ===== *)
theory Frame_Allocator
  imports Oracle
begin

text \<open>
  Physical memory: \<^verbatim>\<open>stardust/src/memory/physical.rs\<close> (the scan of the boot loader's memory
  map) and \<^verbatim>\<open>stardust/src/memory/frame.rs\<close> (the bump allocator).

  The memory map comes from the boot loader (the Limine crate is not part of the repository): it
  is an argument of the definitions, \<open>None\<close> standing for a missing response.  A frame
  allocator promises its clients a supply of frames: the locale \<open>frame_source\<close> states that
  contract (an abstract list of the frames that are left, of which every call takes the head) and
  proves what the clients need once; the bump allocator is interpreted as one.
\<close>

section \<open>Model: the memory map\<close>

text \<open>\<open>usable\<close> is the test \<open>entry.entry_type == EntryType::USABLE\<close>.\<close>

record mem_entry =
  base :: u64
  region_length :: u64
  usable :: bool

fun physical_scan :: "mem_entry list \<Rightarrow> u64 \<Rightarrow> u64 \<Rightarrow> (u64 \<times> u64) res" where
  "physical_scan [] usable_bytes total_regions = Inr (usable_bytes, total_regions)"
| "physical_scan (entry # entries) usable_bytes total_regions =
     bindE (add_chk total_regions 1) (\<lambda>total_regions.
     if usable entry then
       bindE (add_chk usable_bytes (region_length entry)) (\<lambda>usable_bytes.
       physical_scan entries usable_bytes total_regions)
     else physical_scan entries usable_bytes total_regions)"

definition physical_init :: "mem_entry list option \<Rightarrow> serial \<Rightarrow> serial res" where
  "physical_init response log =
     (let log = speak ''[*] Probing physical memory hardware...\<newline>'' log in
      bindE (expectE ''FATAL: Bootloader did not provide a memory map!'' response) (\<lambda>entries.
      bindE (physical_scan entries 0 0) (\<lambda>(usable_bytes, total_regions).
      let usable_mb = usable_bytes div (1024 * 1024);
          log = speak ''[+] Physical Memory Map retrieved from Limine.\<newline>'' log;
          log = speak ''[+] Found '' log
      in bindE (speak_u64 total_regions log) (\<lambda>log.
         let log = speak '' distinct memory regions.\<newline>'' log;
             log = speak ''[+] Total Usable RAM: '' log
         in bindE (speak_u64 usable_mb log) (\<lambda>log.
            Inr (speak '' MB\<newline>'' log))))))"

section \<open>Model: the bump allocator\<close>

definition PAGE_SIZE :: u64 where
  "PAGE_SIZE = 4096"

record frame_allocator =
  region_index :: nat
  current_addr :: u64

definition frame_allocator_new :: frame_allocator where
  "frame_allocator_new = \<lparr>region_index = 0, current_addr = 0\<rparr>"

text \<open>The \<open>while self.region_index < entries.len()\<close> loop.\<close>

function allocate_frame_loop :: "mem_entry list \<Rightarrow> frame_allocator \<Rightarrow>
    (u64 option \<times> frame_allocator) res" where
  "allocate_frame_loop entries self =
     (if region_index self < length entries then
        let entry = entries ! region_index self in
        if \<not> usable entry then
          allocate_frame_loop entries (self\<lparr>region_index := region_index self + 1\<rparr>)
        else
          let self = (if current_addr self = 0 then self\<lparr>current_addr := base entry\<rparr> else self) in
          bindE (add_chk (current_addr self) PAGE_SIZE) (\<lambda>sum.
          bindE (sub_chk sum 1) (\<lambda>sum.
          let aligned_addr = sum AND NOT (PAGE_SIZE - 1) in
          bindE (add_chk (base entry) (region_length entry)) (\<lambda>region_end.
          bindE (add_chk aligned_addr PAGE_SIZE) (\<lambda>aligned_end.
          if aligned_end \<le> region_end then
            Inr (Some aligned_addr, self\<lparr>current_addr := aligned_end\<rparr>)
          else
            allocate_frame_loop entries
              (self\<lparr>region_index := region_index self + 1, current_addr := 0\<rparr>)))))
      else Inr (None, self))"
  by pat_completeness auto
termination
  by (relation "measure (\<lambda>(entries, self). length entries - region_index self)")
    (auto split: if_splits)

declare allocate_frame_loop.simps [simp del]

definition allocate_frame_raw :: "mem_entry list option \<Rightarrow> frame_allocator \<Rightarrow>
    (u64 option \<times> frame_allocator) res" where
  "allocate_frame_raw response self = bindE (unwrapE response) (\<lambda>entries. allocate_frame_loop entries self)"

text \<open>\<open>frame::init\<close>: three diagnostic allocations, \<open>for i in 1..=3\<close>.\<close>

fun frame_init_loop :: "mem_entry list option \<Rightarrow> u64 list \<Rightarrow> frame_allocator \<Rightarrow> serial \<Rightarrow>
    (frame_allocator \<times> serial) res" where
  "frame_init_loop response [] alloc log = Inr (alloc, log)"
| "frame_init_loop response (i # is) alloc log =
     bindE (allocate_frame_raw response alloc) (\<lambda>(r, alloc).
     case r of
       None \<Rightarrow> frame_init_loop response is alloc log
     | Some frame \<Rightarrow>
         bindE (speak_u64 i (speak ''[+] Allocated 4KB Frame '' log)) (\<lambda>log.
         bindE (speak_hex frame (speak '' at physical address: 0x'' log)) (\<lambda>log.
         frame_init_loop response is alloc (speak ''\<newline>'' log))))"

definition frame_init :: "mem_entry list option \<Rightarrow> frame_allocator \<Rightarrow> serial \<Rightarrow>
    (frame_allocator \<times> serial) res" where
  "frame_init response alloc log =
     frame_init_loop response [1, 2, 3] alloc
       (speak ''[*] Initializing Physical Frame Allocator...\<newline>'' log)"

section \<open>Specification: the supply of frames\<close>

text \<open>The frames that fit between two physical addresses, in ascending order.\<close>

definition region_frames :: "nat \<Rightarrow> nat \<Rightarrow> u64 list" where
  "region_frames lo hi = map (\<lambda>k. of_nat (k * 4096)) [(lo + 4095) div 4096 ..< hi div 4096]"

definition entry_end :: "mem_entry \<Rightarrow> nat" where
  "entry_end e = unat (base e) + unat (region_length e)"

definition entry_frames :: "mem_entry \<Rightarrow> u64 list" where
  "entry_frames e = (if usable e then region_frames (unat (base e)) (entry_end e) else [])"

definition all_frames :: "mem_entry list \<Rightarrow> u64 list" where
  "all_frames entries = concat (map entry_frames entries)"

definition frames_left :: "mem_entry list \<Rightarrow> frame_allocator \<Rightarrow> u64 list" where
  "frames_left entries fa =
     (if region_index fa < length entries \<and> current_addr fa \<noteq> 0
      then region_frames (unat (current_addr fa)) (entry_end (entries ! region_index fa)) @
           all_frames (drop (Suc (region_index fa)) entries)
      else all_frames (drop (region_index fa) entries))"

text \<open>
  What the boot loader promises of its map: no usable region reaches the last two pages of the
  64-bit address space (physical addresses have at most 52 bits) and usable regions do not
  overlap.
\<close>

definition wf_memmap :: "mem_entry list \<Rightarrow> bool" where
  "wf_memmap entries \<longleftrightarrow> list_all (\<lambda>e. usable e \<longrightarrow> entry_end e + 8192 \<le> 2 ^ 64) entries"

definition disjoint_memmap :: "mem_entry list \<Rightarrow> bool" where
  "disjoint_memmap entries \<longleftrightarrow>
     (\<forall>i < length entries. \<forall>j < length entries. i \<noteq> j \<longrightarrow>
        usable (entries ! i) \<longrightarrow> usable (entries ! j) \<longrightarrow>
        entry_end (entries ! i) \<le> unat (base (entries ! j)) \<or>
        entry_end (entries ! j) \<le> unat (base (entries ! i)))"

definition fa_inv :: "mem_entry list \<Rightarrow> frame_allocator \<Rightarrow> bool" where
  "fa_inv entries fa \<longleftrightarrow> wf_memmap entries \<and>
     (current_addr fa \<noteq> 0 \<longrightarrow> region_index fa < length entries \<and>
        usable (entries ! region_index fa) \<and>
        unat (base (entries ! region_index fa)) \<le> unat (current_addr fa) \<and>
        unat (current_addr fa) \<le> entry_end (entries ! region_index fa))"

text \<open>\<open>n\<close> consecutive allocation requests, whoever makes them; the frames they return.\<close>

fun request_frames :: "('s \<Rightarrow> (u64 option \<times> 's) res) \<Rightarrow> nat \<Rightarrow> 's \<Rightarrow> (u64 list \<times> 's) res" where
  "request_frames alloc 0 s = Inr ([], s)"
| "request_frames alloc (Suc n) s =
     bindE (alloc s) (\<lambda>(r, s).
     bindE (request_frames alloc n s) (\<lambda>(fs, s).
     Inr (case r of None \<Rightarrow> fs | Some f \<Rightarrow> f # fs, s)))"

locale frame_source =
  fixes alloc :: "'s \<Rightarrow> (u64 option \<times> 's) res"
    and left :: "'s \<Rightarrow> u64 list"
    and invar :: "'s \<Rightarrow> bool"
  assumes alloc_empty: "invar s \<Longrightarrow> left s = [] \<Longrightarrow>
      \<exists>s'. alloc s = Inr (None, s') \<and> invar s' \<and> left s' = []"
    and alloc_cons: "invar s \<Longrightarrow> left s = f # fs \<Longrightarrow>
      \<exists>s'. alloc s = Inr (Some f, s') \<and> invar s' \<and> left s' = fs"
begin

lemma alloc_total:
  assumes "invar s"
  obtains r s' where "alloc s = Inr (r, s')" "invar s'" "left s' = tl (left s)"
    "r = (case left s of [] \<Rightarrow> None | f # fs \<Rightarrow> Some f)"
  using assms alloc_empty [of s] alloc_cons [of s] by (cases "left s") auto

lemma alloc_result:
  assumes "invar s" "alloc s = Inr (r, s')"
  shows "invar s' \<and> left s' = tl (left s) \<and> r = (case left s of [] \<Rightarrow> None | f # fs \<Rightarrow> Some f)"
  using alloc_total [OF assms(1)] assms(2) by force

lemma request_frames_take:
  "invar s \<Longrightarrow> \<exists>s'. request_frames alloc n s = Inr (take n (left s), s') \<and>
     invar s' \<and> left s' = drop n (left s)"
proof (induction n arbitrary: s)
  case (Suc n)
  obtain r s1 where s1: "alloc s = Inr (r, s1)" "invar s1" "left s1 = tl (left s)"
    "r = (case left s of [] \<Rightarrow> None | f # fs \<Rightarrow> Some f)"
    using alloc_total [OF Suc.prems] .
  from Suc.IH [OF s1(2)] obtain s' where
    "request_frames alloc n s1 = Inr (take n (left s1), s')" "invar s'" "left s' = drop n (left s1)"
    by blast
  with s1 show ?case by (cases "left s") auto
qed simp

end

section \<open>Lemmas\<close>

lemma less_div_page: "k < hi div 4096 \<longleftrightarrow> k * 4096 + 4096 \<le> (hi::nat)"
  by (simp add: less_eq_div_iff_mult_less_eq Suc_le_eq [symmetric] add.commute)

lemma region_frames_Cons:
  assumes "a = (lo + 4095) div 4096 * 4096" "a + 4096 \<le> hi"
  shows "region_frames lo hi = of_nat a # region_frames (a + 4096) hi"
proof -
  define k where "k = (lo + 4095) div 4096"
  have a: "a = k * 4096" using assms(1) by (simp add: k_def)
  have "k < hi div 4096" using assms(2) by (simp add: less_div_page a)
  then have "[k ..< hi div 4096] = k # [Suc k ..< hi div 4096]" by (rule upt_conv_Cons)
  moreover have "(a + 4096 + 4095) div 4096 = Suc k" by (simp add: a)
  ultimately show ?thesis
    unfolding region_frames_def k_def [symmetric] by (simp only: list.map a)
qed

lemma region_frames_Nil:
  assumes "a = (lo + 4095) div 4096 * 4096" "hi < a + 4096"
  shows "region_frames lo hi = []"
proof -
  have "\<not> (lo + 4095) div 4096 < hi div 4096"
    using assms by (simp only: less_div_page)
  then show ?thesis unfolding region_frames_def by (simp only: not_less upt_conv_Nil list.map)
qed

lemma set_region_frames:
  assumes "hi \<le> 2 ^ 64"
  shows "f \<in> set (region_frames lo hi) \<longleftrightarrow>
    unat f mod 4096 = 0 \<and> lo \<le> unat f \<and> unat f + 4096 \<le> hi"
proof
  assume "f \<in> set (region_frames lo hi)"
  then obtain k where k: "(lo + 4095) div 4096 \<le> k" "k < hi div 4096" "f = of_nat (k * 4096)"
    by (auto simp: region_frames_def simp del: of_nat_mult)
  from k(2) have up: "k * 4096 + 4096 \<le> hi" by (simp add: less_eq_div_iff_mult_less_eq Suc_le_eq [symmetric])
  with assms have f: "unat f = k * 4096"
    unfolding k(3) by (intro unat_of_nat_small) simp
  moreover have "lo \<le> k * 4096" using k(1) by linarith
  ultimately show "unat f mod 4096 = 0 \<and> lo \<le> unat f \<and> unat f + 4096 \<le> hi" using up by simp
next
  assume f: "unat f mod 4096 = 0 \<and> lo \<le> unat f \<and> unat f + 4096 \<le> hi"
  let ?k = "unat f div 4096"
  from f have eq: "unat f = ?k * 4096" by auto
  then have "of_nat (?k * 4096) = (of_nat (unat f) :: u64)" by metis
  then have "f = of_nat (?k * 4096)" by simp
  moreover have "(lo + 4095) div 4096 \<le> ?k"
    using f div_le_mono [of "lo + 4095" "unat f + 4095" 4096] eq by linarith
  moreover have "?k < hi div 4096"
    using f div_le_mono [of "unat f + 4096" hi 4096] by simp
  ultimately show "f \<in> set (region_frames lo hi)"
    unfolding region_frames_def set_map set_upt by (intro image_eqI [of _ _ ?k]) simp_all
qed

lemma distinct_region_frames:
  assumes "hi \<le> 2 ^ 64"
  shows "distinct (region_frames lo hi)"
proof -
  have "inj_on (\<lambda>k. of_nat (k * 4096) :: u64) (set [(lo + 4095) div 4096 ..< hi div 4096])"
  proof (rule inj_onI)
    fix k l
    assume kl: "k \<in> set [(lo + 4095) div 4096 ..< hi div 4096]" "l \<in> set [(lo + 4095) div 4096 ..< hi div 4096]"
      and eq: "(of_nat (k * 4096) :: u64) = of_nat (l * 4096)"
    have "k * 4096 < 2 ^ 64" "l * 4096 < 2 ^ 64" using kl assms by auto
    then have "unat (of_nat (k * 4096) :: u64) = k * 4096" "unat (of_nat (l * 4096) :: u64) = l * 4096"
      by (simp_all add: unat_of_nat_small del: of_nat_mult)
    with eq show "k = l" by simp
  qed
  then show ?thesis by (simp add: region_frames_def distinct_map)
qed

lemma frames_left_at_region:
  assumes "region_index fa < length entries" "usable (entries ! region_index fa)"
  shows "frames_left entries fa =
    region_frames (if current_addr fa = 0 then unat (base (entries ! region_index fa)) else unat (current_addr fa))
      (entry_end (entries ! region_index fa)) @ all_frames (drop (Suc (region_index fa)) entries)"
  using assms by (auto simp: frames_left_def all_frames_def entry_frames_def Cons_nth_drop_Suc [symmetric])

lemma frames_left_new: "frames_left entries frame_allocator_new = all_frames entries"
  by (simp add: frames_left_def frame_allocator_new_def)

lemma fa_inv_new: "wf_memmap entries \<Longrightarrow> fa_inv entries frame_allocator_new"
  by (simp add: fa_inv_def frame_allocator_new_def)

text \<open>One round of the loop at a usable region, its checked arithmetic carried out.\<close>

lemma allocate_frame_loop_usable:
  assumes idx: "region_index fa < length entries" and us: "usable (entries ! region_index fa)"
    and inv: "fa_inv entries fa"
  defines "e \<equiv> entries ! region_index fa"
  defines "c \<equiv> (if current_addr fa = 0 then base e else current_addr fa)"
  defines "a \<equiv> (unat c + 4095) div 4096 * 4096"
  shows "unat (base e) \<le> unat c \<and> unat c \<le> entry_end e \<and> entry_end e + 8192 \<le> 2 ^ 64 \<and>
    allocate_frame_loop entries fa =
      (if a + 4096 \<le> entry_end e then Inr (Some (of_nat a), fa\<lparr>current_addr := of_nat (a + 4096)\<rparr>)
       else allocate_frame_loop entries (fa\<lparr>region_index := region_index fa + 1, current_addr := 0\<rparr>))"
proof -
  have wf: "entry_end e + 8192 \<le> 2 ^ 64"
    using inv idx us by (auto simp: fa_inv_def wf_memmap_def e_def list_all_length)
  have c: "unat (base e) \<le> unat c" "unat c \<le> entry_end e"
    using inv by (auto simp: fa_inv_def c_def e_def entry_end_def)
  have a_le: "a \<le> unat c + 4095" unfolding a_def by simp
  define sum where "sum = c + 4096"
  have u_sum: "unat sum = unat c + 4096"
    using c(2) wf unfolding sum_def by (subst unat_add_no_overflow) simp_all
  have u_sum1: "unat (sum - 1) = unat c + 4095"
    using u_sum by (subst unat_sub) (simp_all add: word_le_nat_alt)
  have al: "unat ((sum - 1) AND NOT (PAGE_SIZE - 1)) = a"
    using unat_page_floor [of "sum - 1"] u_sum1 by (simp add: page_floor_def PAGE_SIZE_def a_def)
  then have al_eq: "(sum - 1) AND NOT (PAGE_SIZE - 1) = of_nat a"
    by (metis of_nat_unat ucast_id)
  have u_a: "unat (of_nat a :: u64) = a" using al al_eq by simp
  have u_end: "unat (base e + region_length e) = entry_end e"
    using wf unfolding entry_end_def by (subst unat_add_no_overflow) simp_all
  have u_aend: "unat (of_nat a + 4096 :: u64) = a + 4096"
    using a_le c(2) wf u_a by (subst unat_add_no_overflow) simp_all
  have chk: "add_chk c PAGE_SIZE = Inr sum" "sub_chk sum 1 = Inr (sum - 1)"
    "add_chk (base e) (region_length e) = Inr (base e + region_length e)"
    "add_chk (of_nat a) PAGE_SIZE = Inr (of_nat a + 4096)"
    using c(2) wf a_le u_sum u_a
    by (simp_all add: add_chk_def sub_chk_def PAGE_SIZE_def sum_def entry_end_def word_le_nat_alt)
  have cond: "of_nat a + 4096 \<le> base e + region_length e \<longleftrightarrow> a + 4096 \<le> entry_end e"
    by (simp add: word_le_nat_alt u_end u_aend)
  have "allocate_frame_loop entries fa =
      (if a + 4096 \<le> entry_end e then Inr (Some (of_nat a), fa\<lparr>current_addr := of_nat a + 4096\<rparr>)
       else allocate_frame_loop entries (fa\<lparr>region_index := region_index fa + 1, current_addr := 0\<rparr>))"
    using idx us chk al_eq cond
    by (subst allocate_frame_loop.simps) (auto simp: c_def e_def [symmetric] Let_def)
  moreover have "(of_nat (a + 4096) :: u64) = of_nat a + 4096" by simp
  ultimately show ?thesis using c wf by metis
qed

text \<open>Regions that give no frame are passed over; otherwise the first frame of the region is taken.\<close>

lemma skip_region:
  assumes "fa_inv entries fa" "region_index fa < length entries" "\<not> usable (entries ! region_index fa)"
  defines "fa' \<equiv> fa\<lparr>region_index := region_index fa + 1\<rparr>"
  shows "fa_inv entries fa'" "frames_left entries fa' = frames_left entries fa"
    "allocate_frame_loop entries fa = allocate_frame_loop entries fa'"
proof -
  have zero: "current_addr fa = 0" using assms(1-3) by (auto simp: fa_inv_def)
  then show "fa_inv entries fa'" using assms(1) by (simp add: fa_inv_def fa'_def)
  show "frames_left entries fa' = frames_left entries fa"
    using assms(2,3) zero
    by (simp add: fa'_def frames_left_def all_frames_def entry_frames_def Cons_nth_drop_Suc [symmetric])
  show "allocate_frame_loop entries fa = allocate_frame_loop entries fa'"
    using assms(2,3) by (simp add: fa'_def allocate_frame_loop.simps [of entries fa] Let_def)
qed

lemma take_frame:
  assumes inv: "fa_inv entries fa" and use: "region_index fa < length entries" "usable (entries ! region_index fa)"
  defines "e \<equiv> entries ! region_index fa"
  defines "c \<equiv> if current_addr fa = 0 then base e else current_addr fa"
  assumes a: "a = (unat c + 4095) div 4096 * 4096" "a + 4096 \<le> entry_end e"
    and bounds: "unat (base e) \<le> unat c" "entry_end e + 8192 \<le> 2 ^ 64"
  defines "fa' \<equiv> fa\<lparr>current_addr := of_nat (a + 4096)\<rparr>"
  shows "fa_inv entries fa'" "frames_left entries fa = of_nat a # frames_left entries fa'"
proof -
  let ?rest = "all_frames (drop (Suc (region_index fa)) entries)"
  have u: "unat (of_nat (a + 4096) :: u64) = a + 4096" using a(2) bounds(2) by (intro unat_of_nat_small) simp
  then have nz: "(of_nat (a + 4096) :: u64) \<noteq> 0" by (metis add_eq_0_iff_both_eq_0 unat_0 zero_neq_numeral)
  have "unat c \<le> a + 4096" unfolding a(1) by linarith
  then show "fa_inv entries fa'" using inv use a(2) bounds(1) u unfolding fa_inv_def fa'_def e_def by simp
  have "frames_left entries fa = region_frames (unat c) (entry_end e) @ ?rest"
    using frames_left_at_region [OF use] by (simp add: c_def e_def if_distrib [of unat] split: if_splits)
  moreover have "frames_left entries fa' = region_frames (a + 4096) (entry_end e) @ ?rest"
    using frames_left_at_region [of fa' entries] use nz u by (simp add: e_def fa'_def del: of_nat_add)
  ultimately show "frames_left entries fa = of_nat a # frames_left entries fa'"
    using region_frames_Cons [OF a(1,2)] by simp
qed

lemma allocate_frame_loop_spec:
  "fa_inv entries fa \<Longrightarrow>
   \<exists>fa'. allocate_frame_loop entries fa =
       Inr (case frames_left entries fa of [] \<Rightarrow> None | f # fs \<Rightarrow> Some f, fa') \<and>
     fa_inv entries fa' \<and> frames_left entries fa' = tl (frames_left entries fa)"
proof (induction "length entries - region_index fa" arbitrary: fa rule: less_induct)
  case less
  consider (exhausted) "\<not> region_index fa < length entries"
    | (skip) "region_index fa < length entries" "\<not> usable (entries ! region_index fa)"
    | (use) "region_index fa < length entries" "usable (entries ! region_index fa)"
    by blast
  then show ?case
  proof cases
    case exhausted
    with less.prems show ?thesis
      by (auto simp: allocate_frame_loop.simps [of entries fa] frames_left_def all_frames_def)
  next
    case skip
    from skip_region [OF less.prems skip] show ?thesis
      using less.hyps [of "fa\<lparr>region_index := region_index fa + 1\<rparr>"] skip(1) by simp
  next
    case use
    define e where "e = entries ! region_index fa"
    define c where "c = (if current_addr fa = 0 then base e else current_addr fa)"
    define a where "a = (unat c + 4095) div 4096 * 4096"
    let ?next = "fa\<lparr>region_index := region_index fa + 1, current_addr := 0\<rparr>"
    have step: "unat (base e) \<le> unat c" "entry_end e + 8192 \<le> 2 ^ 64"
      "allocate_frame_loop entries fa =
        (if a + 4096 \<le> entry_end e then Inr (Some (of_nat a), fa\<lparr>current_addr := of_nat (a + 4096)\<rparr>)
         else allocate_frame_loop entries ?next)"
      using allocate_frame_loop_usable [OF use less.prems]
      unfolding e_def [symmetric] c_def [symmetric] a_def [symmetric] by blast+
    show ?thesis
    proof (cases "a + 4096 \<le> entry_end e")
      case True
      from take_frame [OF less.prems use a_def [unfolded c_def e_def] True [unfolded e_def] step(1,2) [unfolded c_def e_def]]
        step(3) True show ?thesis by simp
    next
      case False
      have inv: "fa_inv entries ?next" using less.prems by (simp add: fa_inv_def)
      have "frames_left entries ?next = frames_left entries fa"
        using frames_left_at_region [OF use] region_frames_Nil [OF a_def] False
        by (simp add: frames_left_def c_def e_def if_distrib [of unat] split: if_splits)
      with less.hyps [of ?next] inv use(1) step(3) False show ?thesis by simp
    qed
  qed
qed

text \<open>The allocator meets the contract of its clients.\<close>

interpretation bump: frame_source "allocate_frame_raw (Some entries)" "frames_left entries" "fa_inv entries"
  for entries
proof (unfold_locales, goal_cases)
  case (1 fa)
  then show ?case using allocate_frame_loop_spec [of entries fa] by (auto simp: allocate_frame_raw_def)
next
  case (2 fa f fs)
  then show ?case using allocate_frame_loop_spec [of entries fa] by (auto simp: allocate_frame_raw_def)
qed

lemma set_all_frames:
  assumes "wf_memmap entries"
  shows "f \<in> set (all_frames entries) \<longleftrightarrow>
    (\<exists>e \<in> set entries. usable e \<and> unat f mod 4096 = 0 \<and> unat (base e) \<le> unat f \<and> unat f + 4096 \<le> entry_end e)"
proof -
  have "f \<in> set (entry_frames e) \<longleftrightarrow>
      usable e \<and> unat f mod 4096 = 0 \<and> unat (base e) \<le> unat f \<and> unat f + 4096 \<le> entry_end e"
    if "e \<in> set entries" for e
    using that assms by (auto simp: entry_frames_def wf_memmap_def list_all_iff set_region_frames)
  then show ?thesis by (auto simp: all_frames_def)
qed

lemma distinct_all_frames:
  assumes "wf_memmap entries" "disjoint_memmap entries"
  shows "distinct (all_frames entries)"
  using assms
proof (induction entries)
  case Nil
  then show ?case by (simp add: all_frames_def)
next
  case (Cons e es)
  have wf: "wf_memmap es" "wf_memmap [e]" using Cons.prems(1) by (auto simp: wf_memmap_def)
  have dj: "disjoint_memmap es"
    using Cons.prems(2) unfolding disjoint_memmap_def
    by (metis Suc_less_eq length_Cons nat.inject nth_Cons_Suc)
  have "distinct (entry_frames e)"
    using wf(2) by (auto simp: entry_frames_def wf_memmap_def distinct_region_frames)
  moreover have "set (entry_frames e) \<inter> set (all_frames es) = {}"
  proof (rule ccontr)
    assume "\<not> ?thesis"
    then obtain f where f: "f \<in> set (all_frames [e])" "f \<in> set (all_frames es)"
      by (auto simp: all_frames_def)
    then obtain i where i: "i < length es" "usable (es ! i)" "unat (base (es ! i)) \<le> unat f"
      "unat f + 4096 \<le> entry_end (es ! i)"
      using set_all_frames [OF wf(1)] by (metis in_set_conv_nth)
    have e: "usable e" "unat (base e) \<le> unat f" "unat f + 4096 \<le> entry_end e"
      using f(1) set_all_frames [OF wf(2)] by auto
    have "entry_end e \<le> unat (base (es ! i)) \<or> entry_end (es ! i) \<le> unat (base e)"
      using Cons.prems(2) i(1,2) e(1) unfolding disjoint_memmap_def
      by (metis Suc_less_eq length_Cons nat.distinct(1) nth_Cons_0 nth_Cons_Suc zero_less_Suc)
    with i e show False by linarith
  qed
  ultimately show ?case using Cons.IH [OF wf(1) dj] by (simp add: all_frames_def)
qed

text \<open>The memory scan adds up the usable regions, when the totals fit.\<close>

lemma physical_scan_sum:
  "unat u + (\<Sum>e\<leftarrow>filter usable entries. unat (region_length e)) < 2 ^ 64 \<Longrightarrow>
   unat t + length entries < 2 ^ 64 \<Longrightarrow>
   \<exists>u' t'. physical_scan entries u t = Inr (u', t') \<and>
     unat u' = unat u + (\<Sum>e\<leftarrow>filter usable entries. unat (region_length e)) \<and>
     unat t' = unat t + length entries"
proof (induction entries arbitrary: u t)
  case (Cons e es)
  have t: "unat (t + 1) = unat t + 1"
    using Cons.prems(2) by (subst unat_add_no_overflow) simp_all
  show ?case
  proof (cases "usable e")
    case True
    have u: "unat (u + region_length e) = unat u + unat (region_length e)"
      using Cons.prems(1) True by (subst unat_add_no_overflow) simp_all
    show ?thesis
      using Cons.IH [of "u + region_length e" "t + 1"] Cons.prems True
      by (simp add: t u add_chk_def add.assoc)
  next
    case False
    then show ?thesis
      using Cons.IH [of u "t + 1"] Cons.prems by (simp add: t add_chk_def)
  qed
qed simp

text \<open>The diagnostic allocations of \<open>frame::init\<close> take the first three frames for good.\<close>

lemma frame_init_loop_left:
  "fa_inv entries fa \<Longrightarrow>
   \<exists>fa' log'. frame_init_loop (Some entries) is fa log = Inr (fa', log') \<and>
     fa_inv entries fa' \<and> frames_left entries fa' = drop (length is) (frames_left entries fa)"
proof (induction "is" arbitrary: fa log)
  case (Cons i "is")
  obtain r fa1 where "allocate_frame_raw (Some entries) fa = Inr (r, fa1)" "fa_inv entries fa1"
    "frames_left entries fa1 = tl (frames_left entries fa)"
    using bump.alloc_total [OF Cons.prems] .
  then show ?case using Cons.IH [of fa1] by (auto simp: drop_Suc split: option.split)
qed simp

lemma frame_init_left:
  "fa_inv entries fa \<Longrightarrow>
   \<exists>fa' log'. frame_init (Some entries) fa log = Inr (fa', log') \<and>
     fa_inv entries fa' \<and> frames_left entries fa' = drop 3 (frames_left entries fa)"
  using frame_init_loop_left [of entries fa "[1, 2, 3]"] by (simp add: frame_init_def numeral_3_eq_3)

section \<open>Properties\<close>

text \<open>
  C21. Refinement: in every state that satisfies the allocator's invariant, one call of
  \<open>allocate_frame_raw\<close> terminates without a panic, returns the first of the frames that are
  left (\<open>None\<close> exactly when none is) and leaves the remaining ones, with the invariant kept.
\<close>

theorem allocate_frame_refines_supply:
  assumes "fa_inv entries fa"
  shows "\<exists>fa'. allocate_frame_raw (Some entries) fa =
      Inr (case frames_left entries fa of [] \<Rightarrow> None | f # fs \<Rightarrow> Some f, fa') \<and>
    fa_inv entries fa' \<and> frames_left entries fa' = tl (frames_left entries fa)"
  using bump.alloc_total [OF assms] by metis

definition example_memmap :: "mem_entry list" where
  "example_memmap =
     [\<lparr>base = 0, region_length = 0x9FC00, usable = False\<rparr>,
      \<lparr>base = 0x100800, region_length = 0x3000, usable = True\<rparr>,
      \<lparr>base = 0x104000, region_length = 0x1000, usable = False\<rparr>,
      \<lparr>base = 0x200000, region_length = 0x2000, usable = True\<rparr>]"

lemma wf_example_memmap: "wf_memmap example_memmap"
  by (simp add: wf_memmap_def example_memmap_def entry_end_def)

lemma disjoint_example_memmap: "disjoint_memmap example_memmap"
  unfolding disjoint_memmap_def example_memmap_def
  by (simp only: list.size add_0 add_Suc add_Suc_right plus_1_eq_Suc All_less_Suc nth_Cons_0 nth_Cons_Suc)
    (simp add: entry_end_def)

lemma all_frames_example: "all_frames example_memmap = [0x101000, 0x102000, 0x200000, 0x201000]"
  by (simp add: all_frames_def example_memmap_def entry_frames_def entry_end_def region_frames_def
      upt_conv_Cons)

theorem allocate_frame_refines_supply_witness:
  "fa_inv example_memmap frame_allocator_new \<and>
   (\<exists>fa'. allocate_frame_raw (Some example_memmap) frame_allocator_new = Inr (Some 0x101000, fa') \<and>
     frames_left example_memmap fa' = [0x102000, 0x200000, 0x201000])"
proof -
  have inv: "fa_inv example_memmap frame_allocator_new"
    by (rule fa_inv_new [OF wf_example_memmap])
  have "frames_left example_memmap frame_allocator_new = [0x101000, 0x102000, 0x200000, 0x201000]"
    by (simp add: frames_left_new all_frames_example)
  with allocate_frame_refines_supply [OF inv] inv show ?thesis by auto
qed

text \<open>
  C22. No frame is ever handed out twice and none is lost: on a memory map whose usable regions do
  not overlap, any number of allocation requests after boot returns pairwise different frames,
  namely the first ones of a list that enumerates exactly the 4 KiB aligned frames that lie wholly
  inside a usable region.
\<close>

theorem frames_never_reused:
  assumes "wf_memmap entries" and "disjoint_memmap entries"
  shows "\<exists>fa'. request_frames (allocate_frame_raw (Some entries)) n frame_allocator_new =
      Inr (take n (all_frames entries), fa') \<and>
    distinct (take n (all_frames entries)) \<and>
    set (all_frames entries) =
      {f. \<exists>e \<in> set entries. usable e \<and> unat f mod 4096 = 0 \<and>
          unat (base e) \<le> unat f \<and> unat f + 4096 \<le> entry_end e}"
  using bump.request_frames_take [OF fa_inv_new [OF assms(1)], of n]
    distinct_all_frames [OF assms] set_all_frames [OF assms(1)]
  by (auto simp: frames_left_new)

theorem frames_never_reused_witness:
  "wf_memmap example_memmap \<and> disjoint_memmap example_memmap \<and>
   (\<exists>fa'. request_frames (allocate_frame_raw (Some example_memmap)) 3 frame_allocator_new =
     Inr ([0x101000, 0x102000, 0x200000], fa'))"
proof -
  have "take 3 (all_frames example_memmap) = [0x101000, 0x102000, 0x200000]"
    by (simp add: all_frames_example)
  with frames_never_reused [OF wf_example_memmap disjoint_example_memmap, of 3]
    wf_example_memmap disjoint_example_memmap
  show ?thesis by auto
qed

end
