(* ===== verification/Security.thy ===== *)
theory Security
  imports Oracle
begin

text \<open>
  The security subsystem: \<^verbatim>\<open>stardust/src/security/token.rs\<close> (tokens and their right masks)
  and \<^verbatim>\<open>stardust/src/security/cdt.rs\<close> (the table of capabilities indexed by token id, its
  validation check and the sealing of the genesis token at boot).  The lemmas characterise
  \<open>has_right\<close> as bitwise inclusion and \<open>validate\<close> on every branch, and show that after
  boot exactly one capability validates.
\<close>

section \<open>Tokens\<close>

abbreviation RIGHT_NONE :: u64 where "RIGHT_NONE \<equiv> 0"
abbreviation RIGHT_READ :: u64 where "RIGHT_READ \<equiv> push_bit 0 1"
abbreviation RIGHT_WRITE :: u64 where "RIGHT_WRITE \<equiv> push_bit 1 1"
abbreviation RIGHT_EXECUTE :: u64 where "RIGHT_EXECUTE \<equiv> push_bit 2 1"
abbreviation RIGHT_GRANT :: u64 where "RIGHT_GRANT \<equiv> push_bit 3 1"
abbreviation RIGHT_MAP :: u64 where "RIGHT_MAP \<equiv> push_bit 4 1"
abbreviation RIGHT_GOD :: u64 where "RIGHT_GOD \<equiv> u64_MAX"

record token =
  token_id :: u64
  rights :: u64

definition mint_genesis :: token where
  "mint_genesis = \<lparr>token_id = 0, rights = RIGHT_GOD\<rparr>"

definition token_display :: "token \<Rightarrow> serial \<Rightarrow> serial res" where
  "token_display t log =
     bindE (speak_hex (token_id t) (speak ''[+] Token ID: 0x'' log)) (\<lambda>log.
     bindE (speak_hex (rights t) (speak '' | Rights Map: 0x'' log)) (\<lambda>log.
     Inr (speak ''\<newline>'' log)))"

definition has_right :: "token \<Rightarrow> u64 \<Rightarrow> bool" where
  "has_right t required = (rights t AND required = required)"

section \<open>The capability derivation tree\<close>

definition MAX_CAPABILITIES :: nat where
  "MAX_CAPABILITIES = 1024"

record capability_node =
  owner_pid :: u64
  token :: token
  active :: bool

definition EMPTY :: capability_node where
  "EMPTY = \<lparr>owner_pid = 0, token = \<lparr>token_id = 0, rights = 0\<rparr>, active = False\<rparr>"

record capability_derivation_tree =
  nodes :: "capability_node list"

definition cdt_new :: capability_derivation_tree where
  "cdt_new = \<lparr>nodes = replicate MAX_CAPABILITIES EMPTY\<rparr>"

definition validate :: "capability_derivation_tree \<Rightarrow> u64 \<Rightarrow> token \<Rightarrow> bool" where
  "validate self pid tok =
     (let index = unat (token_id tok) in
      if index \<ge> MAX_CAPABILITIES then False
      else let node = nodes self ! index in
        active node \<and> owner_pid node = pid \<and> rights (token node) = rights tok)"

definition cdt_init :: "capability_derivation_tree \<Rightarrow> serial \<Rightarrow>
    (capability_derivation_tree \<times> serial) res" where
  "cdt_init tree log =
     (let log = speak ''[*] Sealing the Capability Derivation Tree (CDT)...\<newline>'' log;
          tree = tree\<lparr>nodes := (nodes tree)[0 := \<lparr>owner_pid = 0, token = mint_genesis, active = True\<rparr>]\<rparr>;
          log = speak ''[+] CDT initialized. Genesis Token sealed to PID 0.\<newline>'' log;
          test_token = mint_genesis
      in if validate tree 0 test_token
         then Inr (tree, speak ''[+] O(1) Security Validation Test: SUCCESS.\<newline>'' log)
         else Inl (Explicit_Panic ''FATAL: Security Engine self-test failed!''))"

section \<open>Well-formedness and lemmas\<close>

text \<open>The array type \<open>[CapabilityNode; MAX_CAPABILITIES]\<close>.\<close>

definition wf_cdt :: "capability_derivation_tree \<Rightarrow> bool" where
  "wf_cdt t \<longleftrightarrow> length (nodes t) = MAX_CAPABILITIES"

lemma wf_cdt_new: "wf_cdt cdt_new"
  by (simp add: wf_cdt_def cdt_new_def)

lemma validate_nodeE:
  assumes "validate t pid tok"
  shows "unat (token_id tok) < MAX_CAPABILITIES"
    and "active (nodes t ! unat (token_id tok))"
    and "owner_pid (nodes t ! unat (token_id tok)) = pid"
    and "rights (token (nodes t ! unat (token_id tok))) = rights tok"
  using assms by (auto simp: validate_def Let_def split: if_splits)

lemma not_validate_new: "\<not> validate cdt_new pid tok"
  by (simp add: validate_def cdt_new_def EMPTY_def Let_def)

lemma cdt_init_ok:
  assumes "wf_cdt t"
  shows "\<exists>log'. cdt_init t log =
    Inr (t\<lparr>nodes := (nodes t)[0 := \<lparr>owner_pid = 0, token = mint_genesis, active = True\<rparr>]\<rparr>, log @ log')"
  using assms
  by (simp add: cdt_init_def wf_cdt_def validate_def Let_def mint_genesis_def MAX_CAPABILITIES_def
      speak_append)

lemma cdt_init_wf: "wf_cdt t \<Longrightarrow> cdt_init t log = Inr (t', log') \<Longrightarrow> wf_cdt t'"
  using cdt_init_ok [of t log] by (auto simp: wf_cdt_def)

text \<open>The tree after boot: \<open>cdt_init\<close> on the statically allocated one.\<close>

definition genesis_cdt :: capability_derivation_tree where
  "genesis_cdt = cdt_new\<lparr>nodes := (nodes cdt_new)[0 := \<lparr>owner_pid = 0, token = mint_genesis, active = True\<rparr>]\<rparr>"

lemma validate_genesis:
  "validate genesis_cdt pid tok \<longleftrightarrow> pid = 0 \<and> token_id tok = 0 \<and> rights tok = RIGHT_GOD"
proof (cases "token_id tok = 0")
  case True
  then show ?thesis
    by (auto simp: validate_def genesis_cdt_def cdt_new_def Let_def MAX_CAPABILITIES_def mint_genesis_def)
next
  case False
  then have "0 < unat (token_id tok)" by (simp add: unat_gt_0)
  with False show ?thesis
    by (simp add: validate_def genesis_cdt_def cdt_new_def EMPTY_def Let_def)
qed

section \<open>Properties\<close>

text \<open>
  Booting the security engine on the statically allocated (empty) tree never hits the panic
  of its self-test, leaves a tree of \<open>MAX_CAPABILITIES\<close> nodes, and afterwards
  \<open>validate\<close> accepts exactly one capability: the genesis token (id 0, all rights) presented
  for PID 0.
\<close>

theorem cdt_boot_validates_only_genesis:
  "\<exists>t log'. cdt_init cdt_new log = Inr (t, log') \<and> wf_cdt t \<and>
     (\<forall>pid tok. validate t pid tok = (pid = 0 \<and> token_id tok = 0 \<and> rights tok = RIGHT_GOD))"
proof -
  obtain log' where init: "cdt_init cdt_new log = Inr (genesis_cdt, log @ log')"
    using cdt_init_ok [OF wf_cdt_new, of log] by (auto simp: genesis_cdt_def)
  moreover have "wf_cdt genesis_cdt"
    using cdt_init_wf [OF wf_cdt_new init] .
  ultimately show ?thesis using validate_genesis by blast
qed

text \<open>
  \<open>has_right\<close> is inclusion of right masks: a token has a required mask iff every right
  (bit) of the mask is one of the token's, hence it has a combination of masks iff it has each of
  them; the genesis token has every mask.
\<close>

theorem has_right_is_inclusion:
  "has_right t required = (\<forall>n. bit required n \<le> bit (rights t) n) \<and>
   has_right t (a OR b) = (has_right t a \<and> has_right t b) \<and>
   has_right t RIGHT_NONE \<and> has_right mint_genesis required"
proof -
  have incl: "has_right t r = (\<forall>n. bit r n \<le> bit (rights t) n)" for r
  proof
    assume "has_right t r"
    then have "bit (rights t AND r) n = bit r n" for n by (simp add: has_right_def)
    then show "\<forall>n. bit r n \<le> bit (rights t) n" by (auto simp: bit_and_iff)
  next
    assume "\<forall>n. bit r n \<le> bit (rights t) n"
    then show "has_right t r"
      unfolding has_right_def by (intro bit_word_eqI) (auto simp: bit_and_iff)
  qed
  have "has_right t (a OR b) = (has_right t a \<and> has_right t b)"
    by (auto simp: incl bit_or_iff)
  then show ?thesis
    by (simp add: incl) (simp add: has_right_def mint_genesis_def)
qed

end
