(* ===== verification/Memory.thy ===== *)
theory Memory
  imports Frame_Allocator Security
begin

text \<open>
  Virtual memory: \<^verbatim>\<open>stardust/src/memory/paging.rs\<close>, \<^verbatim>\<open>memory/mapper.rs\<close> and
  \<^verbatim>\<open>memory/shared.rs\<close>.

  The page table itself is code of the \<^verbatim>\<open>x86_64\<close> crate and the boot information comes from
  the \<^verbatim>\<open>limine\<close> crate.  Neither is in the repository, so both are fields of the record
  \<open>platform\<close>, which every definition that uses them takes as an argument; what the kernel
  relies on is the predicate \<open>paging_laws\<close>.  The kernel's statics are the record
  \<open>mem_state\<close> (extended with the other statics in later theories); spin locks guard each of
  them, and a function that holds a lock is one atomic step.
\<close>

section \<open>Third-party code and boot information\<close>

datatype page_flag = PRESENT | WRITABLE | USER_ACCESSIBLE | NO_CACHE

type_synonym page_flags = "page_flag set"

text \<open>
  \<open>virt_addr\<close> is \<open>VirtAddr::new\<close>, \<open>virt_addr_add\<close> its operator \<open>+\<close>, and
  \<open>offset_page_table l4 offset\<close> is \<open>OffsetPageTable::new\<close> on the level 4 table at
  virtual address \<open>l4\<close>.  \<open>phys_frame\<close> is \<open>PhysFrame::containing_address(PhysAddr::new(a))\<close> and
  \<open>virt_page\<close> is \<open>Page::containing_address(VirtAddr::new(a))\<close>, \<open>None\<close> where
  the constructor panics.  \<open>map_to\<close> is the \<open>Mapper\<close> method: whether it returned
  \<open>Ok\<close>, the new table and the allocator it drew page table frames from.  \<open>page_view\<close>
  is the translation that the MMU performs with a table: the frame and the flags of a page.
\<close>

record 'pt platform =
  memmap_response :: "mem_entry list option"
  hhdm_response :: "u64 option"
  cr3_start_address :: u64
  offset_page_table :: "u64 \<Rightarrow> u64 \<Rightarrow> 'pt"
  virt_addr :: "u64 \<Rightarrow> u64 option"
  virt_addr_add :: "u64 \<Rightarrow> u64 \<Rightarrow> u64 option"
  phys_frame :: "u64 \<Rightarrow> u64 option"
  virt_page :: "u64 \<Rightarrow> u64 option"
  map_to :: "'pt \<Rightarrow> u64 \<Rightarrow> u64 \<Rightarrow> page_flags \<Rightarrow> frame_allocator \<Rightarrow> (bool \<times> 'pt \<times> frame_allocator) res"
  page_view :: "'pt \<Rightarrow> u64 \<rightharpoonup> u64 \<times> page_flags"

section \<open>Model: kernel statics of the memory subsystem\<close>

record 'pt mem_state =
  ALLOCATOR :: frame_allocator
  MAPPER :: "'pt option"
  HHDM_OFFSET :: u64
  CDT :: capability_derivation_tree
  serial :: serial
  phys_mem :: "u64 \<Rightarrow> u8"

definition say :: "string \<Rightarrow> ('pt, 'm) mem_state_scheme \<Rightarrow> ('pt, 'm) mem_state_scheme" where
  "say msg s = s\<lparr>serial := speak msg (serial s)\<rparr>"

definition say_hex :: "u64 \<Rightarrow> ('pt, 'm) mem_state_scheme \<Rightarrow> ('pt, 'm) mem_state_scheme res" where
  "say_hex n s = bindE (speak_hex n (serial s)) (\<lambda>log. Inr (s\<lparr>serial := log\<rparr>))"

definition say_u64 :: "u64 \<Rightarrow> ('pt, 'm) mem_state_scheme \<Rightarrow> ('pt, 'm) mem_state_scheme res" where
  "say_u64 n s = bindE (speak_u64 n (serial s)) (\<lambda>log. Inr (s\<lparr>serial := log\<rparr>))"

definition paging_init :: "('pt, 'p) platform_scheme \<Rightarrow> ('pt, 'm) mem_state_scheme \<Rightarrow>
    ('pt, 'm) mem_state_scheme res" where
  "paging_init P s =
     (let s = say ''[*] Initializing Virtual Memory Pager (MMU)...\<newline>'' s in
      bindE (expectE ''FATAL: Bootloader did not provide HHDM offset!'' (hhdm_response P)) (\<lambda>offset.
      let s = s\<lparr>HHDM_OFFSET := offset\<rparr>;
          s = say ''[+] Higher Half Direct Map (HHDM) Offset: 0x'' s
      in bindE (say_hex offset s) (\<lambda>s.
         let s = say ''\<newline>'' s;
             s = say ''[+] Active PML4 Page Table physical address: 0x'' s
         in bindE (say_hex (cr3_start_address P) s) (\<lambda>s.
            Inr (say ''\<newline>'' s)))))"

definition addressE :: "u64 \<Rightarrow> u64 option \<Rightarrow> u64 res" where
  "addressE a r = (case r of None \<Rightarrow> Inl (Bad_Address a) | Some x \<Rightarrow> Inr x)"

definition mapper_init :: "('pt, 'p) platform_scheme \<Rightarrow> ('pt, 'm) mem_state_scheme \<Rightarrow>
    ('pt, 'm) mem_state_scheme res" where
  "mapper_init P s =
     (let s = say ''[*] Initializing Virtual Memory Mapper...\<newline>'' s;
          hhdm = HHDM_OFFSET s
      in bindE (addressE hhdm (virt_addr P hhdm)) (\<lambda>phys_offset.
         let phys = cr3_start_address P in
         bindE (addressE phys (virt_addr_add P phys_offset phys)) (\<lambda>virt.
         let mapper = offset_page_table P virt phys_offset;
             s = s\<lparr>MAPPER := Some mapper\<rparr>
         in Inr (say ''[+] MMU seized. Virtual Memory Mapper online.\<newline>'' s))))"

definition map_page :: "('pt, 'p) platform_scheme \<Rightarrow> u64 \<Rightarrow> u64 \<Rightarrow> page_flags \<Rightarrow>
    ('pt, 'm) mem_state_scheme \<Rightarrow> ('pt, 'm) mem_state_scheme res" where
  "map_page P phys virt flags s =
     bindE (addressE phys (phys_frame P phys)) (\<lambda>frame.
     bindE (addressE virt (virt_page P virt)) (\<lambda>page.
     bindE (expectE ''Mapper not initialized!'' (MAPPER s)) (\<lambda>mapper.
     bindE (map_to P mapper page frame flags (ALLOCATOR s)) (\<lambda>(ok, mapper, alloc).
     Inr (s\<lparr>MAPPER := Some mapper, ALLOCATOR := alloc\<rparr>)))))"

text \<open>\<open>ALLOCATOR.lock().allocate_frame_raw().expect(msg)\<close>, the form all clients use.\<close>

definition allocate_expect :: "('pt, 'p) platform_scheme \<Rightarrow> string \<Rightarrow> ('pt, 'm) mem_state_scheme \<Rightarrow>
    (u64 \<times> ('pt, 'm) mem_state_scheme) res" where
  "allocate_expect P msg s =
     bindE (allocate_frame_raw (memmap_response P) (ALLOCATOR s)) (\<lambda>(r, alloc).
     bindE (expectE msg r) (\<lambda>frame. Inr (frame, s\<lparr>ALLOCATOR := alloc\<rparr>)))"

text \<open>The trait method by which the page table code of the \<^verbatim>\<open>x86_64\<close> crate gets its frames.\<close>

definition allocate_frame :: "('pt, 'p) platform_scheme \<Rightarrow> frame_allocator \<Rightarrow> (u64 option \<times> frame_allocator) res" where
  "allocate_frame P fa =
     bindE (allocate_frame_raw (memmap_response P) fa) (\<lambda>(r, fa).
     case r of
       None \<Rightarrow> Inr (None, fa)
     | Some addr \<Rightarrow> bindE (addressE addr (phys_frame P addr)) (\<lambda>frame. Inr (Some frame, fa)))"

definition grant_frame :: "('pt, 'p) platform_scheme \<Rightarrow> u64 \<Rightarrow> u64 \<Rightarrow> ('pt, 'm) mem_state_scheme \<Rightarrow>
    (u64 \<times> ('pt, 'm) mem_state_scheme) res" where
  "grant_frame P tid requested_vaddr s =
     (let tok = \<lparr>token_id = tid, rights = RIGHT_GOD\<rparr> in
      if \<not> validate (CDT s) 0 tok then
        Inr (0, say ''[!] IPC REJECTED: Invalid Security Token!\<newline>'' s)
      else
        bindE (allocate_expect P ''FATAL: Out of Physical Memory!'' s) (\<lambda>(phys_frame, s).
        let flags = {PRESENT, WRITABLE, USER_ACCESSIBLE} in
        bindE (map_page P phys_frame requested_vaddr flags s) (\<lambda>s.
        Inr (requested_vaddr, s))))"

section \<open>Model: memory accesses through the MMU\<close>

text \<open>The page table in force, and the physical address of a byte; \<open>None\<close> faults.\<close>

definition translate :: "('pt, 'p) platform_scheme \<Rightarrow> ('pt, 'm) mem_state_scheme \<Rightarrow> u64 \<Rightarrow> u64 option" where
  "translate P s va =
     (case MAPPER s of None \<Rightarrow> None
      | Some pt \<Rightarrow> map_option (\<lambda>(frame, flags). frame + page_offset va) (page_view P pt (page_floor va)))"

definition read_byte :: "('pt, 'p) platform_scheme \<Rightarrow> ('pt, 'm) mem_state_scheme \<Rightarrow> u64 \<Rightarrow> u8 res" where
  "read_byte P s va =
     (case translate P s va of None \<Rightarrow> Inl (Page_Fault va) | Some pa \<Rightarrow> Inr (phys_mem s pa))"

definition write_byte :: "('pt, 'p) platform_scheme \<Rightarrow> u64 \<Rightarrow> u8 \<Rightarrow> ('pt, 'm) mem_state_scheme \<Rightarrow>
    ('pt, 'm) mem_state_scheme res" where
  "write_byte P va b s =
     (case translate P s va of None \<Rightarrow> Inl (Page_Fault va)
      | Some pa \<Rightarrow> Inr (s\<lparr>phys_mem := (phys_mem s)(pa := b)\<rparr>))"

fun read_bytes :: "('pt, 'p) platform_scheme \<Rightarrow> ('pt, 'm) mem_state_scheme \<Rightarrow> u64 \<Rightarrow> nat \<Rightarrow> u8 list res" where
  "read_bytes P s va 0 = Inr []"
| "read_bytes P s va (Suc n) =
     bindE (read_byte P s va) (\<lambda>b. bindE (read_bytes P s (va + 1) n) (\<lambda>bs. Inr (b # bs)))"

fun write_bytes :: "('pt, 'p) platform_scheme \<Rightarrow> u64 \<Rightarrow> u8 list \<Rightarrow> ('pt, 'm) mem_state_scheme \<Rightarrow>
    ('pt, 'm) mem_state_scheme res" where
  "write_bytes P va [] s = Inr s"
| "write_bytes P va (b # bs) s = bindE (write_byte P va b s) (\<lambda>s. write_bytes P (va + 1) bs s)"

text \<open>Little-endian integers.\<close>

fun le_value :: "u8 list \<Rightarrow> u64" where
  "le_value [] = 0"
| "le_value (b # bs) = ucast b + 256 * le_value bs"

section \<open>What the kernel relies on\<close>

text \<open>
  Documented behaviour of the \<^verbatim>\<open>x86_64\<close> crate.  Addresses of the architecture (52 bits
  physical, canonical virtual) are accepted and rounded down to their frame or page.
  \<open>map_to\<close> draws at most three frames (one per missing table level) from the allocator it is
  given, adds exactly the requested mapping when it returns \<open>Ok\<close> and changes no mapping when
  it returns an error; it reports an error for a page that is mapped already, and it succeeds for
  an unmapped page if the frames it may need are there.
\<close>

definition canonical :: "u64 \<Rightarrow> bool" where
  "canonical a \<longleftrightarrow> unat a < 2 ^ 47 \<or> 2 ^ 64 - 2 ^ 47 \<le> unat a"

definition address_laws :: "('pt, 'p) platform_scheme \<Rightarrow> bool" where
  "address_laws P \<longleftrightarrow>
     (\<forall>a. unat a < 2 ^ 52 \<longrightarrow> phys_frame P a = Some (page_floor a)) \<and>
     (\<forall>a. canonical a \<longrightarrow> virt_page P a = Some (page_floor a))"

definition map_to_law :: "('pt, 'p) platform_scheme \<Rightarrow> mem_entry list \<Rightarrow> bool" where
  "map_to_law P entries \<longleftrightarrow>
     (\<forall>pt page frame flags fa. fa_inv entries fa \<longrightarrow>
        (\<exists>ok pt' fa' k. map_to P pt page frame flags fa = Inr (ok, pt', fa') \<and>
           fa_inv entries fa' \<and> k \<le> 3 \<and> frames_left entries fa' = drop k (frames_left entries fa) \<and>
           page_view P pt' = (if ok then (page_view P pt)(page \<mapsto> (frame, flags)) else page_view P pt) \<and>
           (page_view P pt page \<noteq> None \<longrightarrow> \<not> ok) \<and>
           (page_view P pt page = None \<longrightarrow> 3 \<le> length (frames_left entries fa) \<longrightarrow> ok)))"

definition paging_laws :: "('pt, 'p) platform_scheme \<Rightarrow> mem_entry list \<Rightarrow> bool" where
  "paging_laws P entries \<longleftrightarrow>
     memmap_response P = Some entries \<and> address_laws P \<and> map_to_law P entries \<and>
     list_all (\<lambda>e. usable e \<longrightarrow> entry_end e \<le> 2 ^ 52) entries"

text \<open>The memory subsystem has been booted.\<close>

definition mem_inv :: "mem_entry list \<Rightarrow> ('pt, 'm) mem_state_scheme \<Rightarrow> bool" where
  "mem_inv entries s \<longleftrightarrow> fa_inv entries (ALLOCATOR s) \<and> MAPPER s \<noteq> None"

text \<open>The address space: which page is mapped to which frame, with which flags.\<close>

definition address_space :: "('pt, 'p) platform_scheme \<Rightarrow> ('pt, 'm) mem_state_scheme \<Rightarrow> u64 \<rightharpoonup> u64 \<times> page_flags" where
  "address_space P s = (case MAPPER s of None \<Rightarrow> Map.empty | Some pt \<Rightarrow> page_view P pt)"

abbreviation free_frames :: "mem_entry list \<Rightarrow> ('pt, 'm) mem_state_scheme \<Rightarrow> u64 list" where
  "free_frames entries s \<equiv> frames_left entries (ALLOCATOR s)"

section \<open>Lemmas\<close>

lemma say_simps [simp]:
  "ALLOCATOR (say m s) = ALLOCATOR s" "MAPPER (say m s) = MAPPER s" "HHDM_OFFSET (say m s) = HHDM_OFFSET s"
  "CDT (say m s) = CDT s" "phys_mem (say m s) = phys_mem s"
  "mem_state.more (say m s) = mem_state.more s"
  by (simp_all add: say_def)

lemma say_address_space [simp]: "address_space P (say m s) = address_space P s"
  by (simp add: address_space_def)

lemma say_hex_total [simp]: "say_hex n s = Inr (s\<lparr>serial := serial s @ hex_bytes n\<rparr>)"
  by (simp add: say_hex_def)

lemma say_u64_total [simp]: "say_u64 n s = Inr (s\<lparr>serial := serial s @ dec_bytes n\<rparr>)"
  by (simp add: say_u64_def)

lemma addressE_eq_Inr [res_simps]: "addressE a r = Inr x \<longleftrightarrow> r = Some x"
  by (cases r) (auto simp: addressE_def)

lemma addressE_Some [simp]: "addressE a (Some x) = Inr x"
  by (simp add: addressE_def)

lemma frames_left_subset:
  assumes "fa_inv entries fa"
  shows "set (frames_left entries fa) \<subseteq> set (all_frames entries)"
proof -
  have sub: "set (all_frames (drop n entries)) \<subseteq> set (all_frames entries)" for n
    using set_drop_subset [of n entries] by (auto simp: all_frames_def)
  show ?thesis
  proof (cases "region_index fa < length entries \<and> current_addr fa \<noteq> 0")
    case False
    then show ?thesis using sub [of "region_index fa"] by (auto simp: frames_left_def)
  next
    case True
    let ?e = "entries ! region_index fa"
    have wf: "wf_memmap entries" and e: "usable ?e" "unat (base ?e) \<le> unat (current_addr fa)"
      using assms True by (auto simp: fa_inv_def)
    have "entry_end ?e \<le> 2 ^ 64"
      using wf e True by (auto simp: wf_memmap_def list_all_length)
    then have "set (region_frames (unat (current_addr fa)) (entry_end ?e)) \<subseteq> set (all_frames entries)"
      using set_region_frames [of "entry_end ?e"] set_all_frames [OF wf] e True by fastforce
    with True sub [of "Suc (region_index fa)"] show ?thesis by (auto simp: frames_left_def)
  qed
qed

lemma free_frame_below_2p52:
  assumes "paging_laws P entries" "fa_inv entries fa" "f \<in> set (frames_left entries fa)"
  shows "unat f < 2 ^ 52 \<and> page_floor f = f"
proof -
  have "wf_memmap entries" using assms(2) by (simp add: fa_inv_def)
  then obtain e where "e \<in> set entries" "usable e" "unat f mod 4096 = 0" "unat f + 4096 \<le> entry_end e"
    using frames_left_subset [OF assms(2)] assms(3) set_all_frames [of entries f] by auto
  with assms(1) show ?thesis by (auto simp: paging_laws_def list_all_iff page_floor_aligned)
qed

text \<open>
  \<open>map_page\<close> under the laws: it returns, and it either adds exactly the one mapping or,
  silently, changes no mapping.
\<close>

lemma map_page_canonical:
  assumes laws: "paging_laws P entries" and inv: "mem_inv entries s"
    and frame: "phys_frame P phys = Some frame" and va: "canonical virt"
  obtains s' k where "map_page P phys virt flags s = Inr s'" "mem_inv entries s'"
    "s' = s\<lparr>ALLOCATOR := ALLOCATOR s', MAPPER := MAPPER s'\<rparr>"
    "k \<le> 3" "free_frames entries s' = drop k (free_frames entries s)"
    "address_space P s' = address_space P s \<or>
     address_space P s (page_floor virt) = None \<and>
     address_space P s' = (address_space P s)(page_floor virt \<mapsto> (frame, flags))"
    "address_space P s (page_floor virt) = None \<Longrightarrow> 3 \<le> length (free_frames entries s) \<Longrightarrow>
     address_space P s' = (address_space P s)(page_floor virt \<mapsto> (frame, flags))"
proof -
  have page: "virt_page P virt = Some (page_floor virt)"
    using laws va by (auto simp: paging_laws_def address_laws_def)
  obtain pt where pt: "MAPPER s = Some pt" using inv by (auto simp: mem_inv_def)
  have fa: "fa_inv entries (ALLOCATOR s)" using inv by (simp add: mem_inv_def)
  have law: "map_to_law P entries" using laws by (simp add: paging_laws_def)
  from law [unfolded map_to_law_def, rule_format, OF fa, of pt "page_floor virt" frame flags]
  obtain ok pt' fa' k where
    run: "map_to P pt (page_floor virt) frame flags (ALLOCATOR s) = Inr (ok, pt', fa')" and
    fa': "fa_inv entries fa'" "k \<le> 3" "frames_left entries fa' = drop k (free_frames entries s)" and
    view: "page_view P pt' =
      (if ok then (page_view P pt)(page_floor virt \<mapsto> (frame, flags)) else page_view P pt)" and
    ok: "page_view P pt (page_floor virt) \<noteq> None \<longrightarrow> \<not> ok"
      "page_view P pt (page_floor virt) = None \<longrightarrow> 3 \<le> length (free_frames entries s) \<longrightarrow> ok"
    by (elim exE conjE) (rule that)
  let ?s = "s\<lparr>MAPPER := Some pt', ALLOCATOR := fa'\<rparr>"
  have as: "address_space P s = page_view P pt" "address_space P ?s = page_view P pt'"
    by (simp_all add: address_space_def pt)
  show ?thesis
  proof (rule that [of ?s k])
    show "map_page P phys virt flags s = Inr ?s" by (simp add: map_page_def frame page pt run)
    show "mem_inv entries ?s" using fa'(1) by (simp add: mem_inv_def)
    show "free_frames entries ?s = drop k (free_frames entries s)" using fa'(3) by simp
    show "address_space P ?s = address_space P s \<or>
        address_space P s (page_floor virt) = None \<and>
        address_space P ?s = (address_space P s)(page_floor virt \<mapsto> (frame, flags))"
      unfolding as using view ok(1) by (cases "page_view P pt (page_floor virt)"; cases ok) simp_all
    show "address_space P ?s = (address_space P s)(page_floor virt \<mapsto> (frame, flags))"
      if "address_space P s (page_floor virt) = None" "3 \<le> length (free_frames entries s)"
      using that view ok(2) unfolding as by simp
  qed (use fa'(2) in simp_all)
qed

lemma canonical_lower: "unat a < 2 ^ 47 \<Longrightarrow> canonical a"
  by (simp add: canonical_def)

lemmas map_page_step = map_page_canonical [OF _ _ _ canonical_lower]

text \<open>The same, from a call that returned.\<close>

lemma map_page_result:
  assumes laws: "paging_laws P entries" and inv: "mem_inv entries s" and va: "unat virt < 2 ^ 47"
    and run: "map_page P phys virt flags s = Inr s'"
  obtains frame k where "phys_frame P phys = Some frame" "mem_inv entries s'"
    "s' = s\<lparr>ALLOCATOR := ALLOCATOR s', MAPPER := MAPPER s'\<rparr>"
    "free_frames entries s' = drop k (free_frames entries s)"
    "address_space P s' = address_space P s \<or>
     address_space P s' = (address_space P s)(page_floor virt \<mapsto> (frame, flags))"
proof -
  obtain frame where frame: "phys_frame P phys = Some frame"
    using run by (auto simp: map_page_def res_simps)
  show ?thesis
    by (rule map_page_step [OF laws inv frame va, of flags]) (use run frame that in force)
qed

text \<open>And for any address that the page constructor accepts.\<close>

lemma map_page_any:
  assumes laws: "paging_laws P entries" and inv: "mem_inv entries s"
    and run: "map_page P phys virt flags s = Inr s'"
  obtains frame page k where "phys_frame P phys = Some frame" "mem_inv entries s'"
    "s' = s\<lparr>ALLOCATOR := ALLOCATOR s', MAPPER := MAPPER s'\<rparr>"
    "free_frames entries s' = drop k (free_frames entries s)"
    "address_space P s' = address_space P s \<or> address_space P s' = (address_space P s)(page \<mapsto> (frame, flags))"
proof -
  obtain frame page pt ok pt' fa' where run: "phys_frame P phys = Some frame" "MAPPER s = Some pt"
    "map_to P pt page frame flags (ALLOCATOR s) = Inr (ok, pt', fa')" "s' = s\<lparr>MAPPER := Some pt', ALLOCATOR := fa'\<rparr>"
    using run by (auto simp: map_page_def res_simps)
  have fa: "fa_inv entries (ALLOCATOR s)" and law: "map_to_law P entries"
    using inv laws by (simp_all add: mem_inv_def paging_laws_def)
  from law [unfolded map_to_law_def, rule_format, OF fa, of pt page frame flags] run(3)
  obtain k where "fa_inv entries fa'" "frames_left entries fa' = drop k (free_frames entries s)"
    "page_view P pt' = (if ok then (page_view P pt)(page \<mapsto> (frame, flags)) else page_view P pt)"
    by auto
  then show ?thesis
    using run(1,2) by (intro that [of frame k page]) (auto simp: run(4) mem_inv_def address_space_def)
qed

lemma allocate_expect_Cons:
  assumes "paging_laws P entries" "mem_inv entries s" "free_frames entries s = f # fs"
  obtains fa where "allocate_expect P msg s = Inr (f, s\<lparr>ALLOCATOR := fa\<rparr>)"
    "fa_inv entries fa" "frames_left entries fa = fs"
proof -
  obtain fa where "allocate_frame_raw (Some entries) (ALLOCATOR s) = Inr (Some f, fa)"
    "fa_inv entries fa" "frames_left entries fa = fs"
    using bump.alloc_cons [of entries "ALLOCATOR s" f fs] assms by (auto simp: mem_inv_def)
  with that assms(1) show ?thesis by (simp add: allocate_expect_def paging_laws_def)
qed

lemma allocate_expect_Nil:
  assumes "paging_laws P entries" "mem_inv entries s" "free_frames entries s = []"
  shows "allocate_expect P msg s = Inl (Expect_Failed msg)"
  using bump.alloc_empty [of entries "ALLOCATOR s"] assms
  by (auto simp: allocate_expect_def paging_laws_def mem_inv_def)

text \<open>Page tables come from the same supply as all other frames, and asking for one never panics.\<close>

lemma allocate_frame_supplies:
  assumes "paging_laws P entries" "fa_inv entries fa"
  shows "\<exists>fa'. allocate_frame P fa = Inr (case frames_left entries fa of [] \<Rightarrow> None | f # fs \<Rightarrow> Some f, fa') \<and>
    fa_inv entries fa' \<and> frames_left entries fa' = tl (frames_left entries fa)"
proof (cases "frames_left entries fa")
  case Nil
  then show ?thesis using bump.alloc_empty [of entries fa] assms by (auto simp: allocate_frame_def paging_laws_def)
next
  case (Cons f fs)
  have "unat f < 2 ^ 52" "page_floor f = f" using free_frame_below_2p52 [OF assms, of f] Cons by simp_all
  then have "phys_frame P f = Some f" using assms(1) by (simp add: paging_laws_def address_laws_def)
  then show ?thesis using bump.alloc_cons [of entries fa f fs] assms Cons by (auto simp: allocate_frame_def paging_laws_def)
qed

lemma translate_address_space:
  "translate P s va = map_option (\<lambda>(frame, flags). frame + page_offset va) (address_space P s (page_floor va))"
  by (simp add: translate_def address_space_def split: option.split)

text \<open>Granting a frame, with its two stages composed.\<close>

lemma grant_frame_effect:
  assumes laws: "paging_laws P entries" and inv: "mem_inv entries s" and cdt: "CDT s = genesis_cdt"
    and va: "unat vaddr < 2 ^ 47" and left: "free_frames entries s = f # fs"
  obtains s' k where "grant_frame P 0 vaddr s = Inr (vaddr, s')" "mem_inv entries s'"
    "s' = s\<lparr>ALLOCATOR := ALLOCATOR s', MAPPER := MAPPER s'\<rparr>"
    "k \<le> 3" "free_frames entries s' = drop k fs"
    "address_space P s' = address_space P s \<or>
     address_space P s (page_floor vaddr) = None \<and>
     address_space P s' = (address_space P s)(page_floor vaddr \<mapsto> (f, {PRESENT, WRITABLE, USER_ACCESSIBLE}))"
    "address_space P s (page_floor vaddr) = None \<Longrightarrow> 3 \<le> length fs \<Longrightarrow>
     address_space P s' = (address_space P s)(page_floor vaddr \<mapsto> (f, {PRESENT, WRITABLE, USER_ACCESSIBLE}))"
proof -
  let ?fl = "{PRESENT, WRITABLE, USER_ACCESSIBLE}" and ?m = "''FATAL: Out of Physical Memory!''"
  obtain fa where fa: "allocate_expect P ?m s = Inr (f, s\<lparr>ALLOCATOR := fa\<rparr>)"
    "fa_inv entries fa" "frames_left entries fa = fs"
    using allocate_expect_Cons [OF laws inv left] by blast
  let ?s = "s\<lparr>ALLOCATOR := fa\<rparr>"
  have inv1: "mem_inv entries ?s" using inv fa(2) by (simp add: mem_inv_def)
  have as1: "address_space P ?s = address_space P s" by (simp add: address_space_def)
  have frame: "phys_frame P f = Some f"
    using free_frame_below_2p52 [OF laws, of "ALLOCATOR s" f] inv left laws
    by (auto simp: mem_inv_def paging_laws_def address_laws_def)
  obtain s' k where s': "map_page P f vaddr ?fl ?s = Inr s'" "mem_inv entries s'"
    "s' = ?s\<lparr>ALLOCATOR := ALLOCATOR s', MAPPER := MAPPER s'\<rparr>"
    "k \<le> 3" "free_frames entries s' = drop k fs"
    "address_space P s' = address_space P s \<or>
     address_space P s (page_floor vaddr) = None \<and>
     address_space P s' = (address_space P s)(page_floor vaddr \<mapsto> (f, ?fl))"
    "address_space P s (page_floor vaddr) = None \<Longrightarrow> 3 \<le> length fs \<Longrightarrow>
     address_space P s' = (address_space P s)(page_floor vaddr \<mapsto> (f, ?fl))"
    by (rule map_page_step [OF laws inv1 frame va, of ?fl]) (simp_all add: as1 fa(3))
  have "validate (CDT s) 0 \<lparr>token_id = 0, rights = RIGHT_GOD\<rparr>"
    by (simp add: cdt validate_genesis)
  then have "grant_frame P 0 vaddr s = Inr (vaddr, s')"
    by (simp add: grant_frame_def fa(1) s'(1))
  moreover have "s' = s\<lparr>ALLOCATOR := ALLOCATOR s', MAPPER := MAPPER s'\<rparr>"
    using s'(3) by simp
  ultimately show ?thesis using that [of s' k] s' by blast
qed

section \<open>Exclusive ownership of frames by user pages\<close>

text \<open>
  No frame that is still free is visible to user mode, and no frame of the usable memory is
  visible to user mode through two different pages.
\<close>

definition user_page :: "('pt, 'p) platform_scheme \<Rightarrow> ('pt, 'm) mem_state_scheme \<Rightarrow> u64 \<Rightarrow> u64 \<Rightarrow> bool" where
  "user_page P s page frame \<longleftrightarrow>
     (case address_space P s page of None \<Rightarrow> False | Some (fr, flags) \<Rightarrow> fr = frame \<and> USER_ACCESSIBLE \<in> flags)"

definition exclusive_frames :: "('pt, 'p) platform_scheme \<Rightarrow> mem_entry list \<Rightarrow> ('pt, 'm) mem_state_scheme \<Rightarrow> bool" where
  "exclusive_frames P entries s \<longleftrightarrow>
     distinct (free_frames entries s) \<and>
     (\<forall>page frame. user_page P s page frame \<longrightarrow> frame \<notin> set (free_frames entries s)) \<and>
     (\<forall>page page' frame. user_page P s page frame \<longrightarrow> user_page P s page' frame \<longrightarrow>
        frame \<in> set (all_frames entries) \<longrightarrow> page = page')"

lemma user_page_cong: "address_space P s' = address_space P s \<Longrightarrow> user_page P s' = user_page P s"
  by (simp add: user_page_def fun_eq_iff)

text \<open>Frames may be dropped from the supply.\<close>

lemma exclusive_frames_drop:
  assumes "exclusive_frames P entries s" "address_space P s' = address_space P s"
    "free_frames entries s' = drop k (free_frames entries s)"
  shows "exclusive_frames P entries s'"
  using assms in_set_dropD [of _ k "free_frames entries s"]
  unfolding exclusive_frames_def user_page_cong [OF assms(2)] by (simp add: distinct_drop) blast

text \<open>A frame that is taken from the supply may be mapped, at any page.\<close>

lemma exclusive_frames_map:
  assumes ex: "exclusive_frames P entries s"
    and as: "address_space P s' = (address_space P s)(page \<mapsto> (f, flags))"
    and left: "free_frames entries s = f # fs" "free_frames entries s' = drop k fs"
  shows "exclusive_frames P entries s'"
proof -
  have up: "user_page P s' pg fr \<Longrightarrow> pg = page \<and> fr = f \<or> user_page P s pg fr" for pg fr
    by (auto simp: user_page_def as split: option.splits if_splits)
  have f: "\<not> user_page P s pg f" for pg
    using ex left(1) by (auto simp: exclusive_frames_def)
  have sub: "set (drop k fs) \<subseteq> set fs" by (rule set_drop_subset)
  have free: "fr \<notin> set (f # fs)" if "user_page P s pg fr" for pg fr
    using ex that left(1) unfolding exclusive_frames_def by metis
  show ?thesis
    unfolding exclusive_frames_def left(2)
  proof (intro conjI allI impI)
    show "distinct (drop k fs)" using ex left(1) by (simp add: exclusive_frames_def distinct_drop)
  next
    fix pg fr assume "user_page P s' pg fr"
    then show "fr \<notin> set (drop k fs)"
      using up [of pg fr] free [of pg fr] sub ex left(1) by (auto simp: exclusive_frames_def)
  next
    fix pg pg' fr
    assume "user_page P s' pg fr" "user_page P s' pg' fr" "fr \<in> set (all_frames entries)"
    then show "pg = pg'"
      using up [of pg fr] up [of pg' fr] f ex by (auto simp: exclusive_frames_def)
  qed
qed

text \<open>A frame outside the usable memory (a device) may be mapped as often as wanted.\<close>

lemma exclusive_frames_device:
  assumes ex: "exclusive_frames P entries s" and inv: "mem_inv entries s"
    and as: "address_space P s' = address_space P s \<or>
      address_space P s' = (address_space P s)(page \<mapsto> (f, flags))"
    and left: "free_frames entries s' = drop k (free_frames entries s)"
    and dev: "f \<notin> set (all_frames entries)"
  shows "exclusive_frames P entries s'"
proof -
  have up: "user_page P s' pg fr \<Longrightarrow> fr = f \<or> user_page P s pg fr" for pg fr
    using as by (auto simp: user_page_def split: option.splits if_splits)
  have "set (drop k (free_frames entries s)) \<subseteq> set (free_frames entries s)" by (rule set_drop_subset)
  moreover have "f \<notin> set (free_frames entries s)"
    using dev frames_left_subset [of entries "ALLOCATOR s"] inv by (auto simp: mem_inv_def)
  ultimately show ?thesis
    using ex up dev unfolding exclusive_frames_def left by (auto simp: distinct_drop) blast+
qed

text \<open>A mapping without the user flag is invisible to user mode.\<close>

lemma exclusive_frames_kernel:
  assumes ex: "exclusive_frames P entries s"
    and as: "address_space P s' = address_space P s \<or> address_space P s' = (address_space P s)(page \<mapsto> (f, flags))"
    and left: "free_frames entries s' = drop k (free_frames entries s)" and fl: "USER_ACCESSIBLE \<notin> flags"
  shows "exclusive_frames P entries s'"
proof -
  have up: "user_page P s' pg fr \<Longrightarrow> user_page P s pg fr" for pg fr
    using as fl by (auto simp: user_page_def split: option.splits if_splits)
  moreover have "set (drop k (free_frames entries s)) \<subseteq> set (free_frames entries s)" by (rule set_drop_subset)
  ultimately show ?thesis
    using ex unfolding exclusive_frames_def left by (simp add: distinct_drop) blast
qed

text \<open>Any mapping of a frame that was just allocated keeps frames exclusive, at any address.\<close>

lemma allocate_map_exclusive:
  assumes laws: "paging_laws P entries" and inv: "mem_inv entries s" and ex: "exclusive_frames P entries s"
    and alloc: "allocate_expect P msg s = Inr (f, s1)" and map: "map_page P f virt flags s1 = Inr s'"
  shows "mem_inv entries s' \<and> exclusive_frames P entries s' \<and>
    s' = s\<lparr>ALLOCATOR := ALLOCATOR s', MAPPER := MAPPER s'\<rparr>"
proof -
  obtain f0 fs where left: "free_frames entries s = f0 # fs"
    using allocate_expect_Nil [OF laws inv] alloc by (cases "free_frames entries s") auto
  obtain fa where fa: "allocate_expect P msg s = Inr (f0, s\<lparr>ALLOCATOR := fa\<rparr>)" "fa_inv entries fa"
    "frames_left entries fa = fs" by (rule allocate_expect_Cons [OF laws inv left])
  have s1: "f = f0" "s1 = s\<lparr>ALLOCATOR := fa\<rparr>" using fa(1) alloc by auto
  have inv1: "mem_inv entries s1" using inv fa(2) by (simp add: s1 mem_inv_def)
  have as1: "address_space P s1 = address_space P s" by (simp add: s1 address_space_def)
  have frame: "phys_frame P f = Some f"
    using free_frame_below_2p52 [OF laws, of "ALLOCATOR s" f] inv left laws s1(1)
    by (auto simp: mem_inv_def paging_laws_def address_laws_def)
  obtain frame' page k where s': "phys_frame P f = Some frame'" "mem_inv entries s'"
    "s' = s1\<lparr>ALLOCATOR := ALLOCATOR s', MAPPER := MAPPER s'\<rparr>"
    "free_frames entries s' = drop k (free_frames entries s1)"
    "address_space P s' = address_space P s1 \<or> address_space P s' = (address_space P s1)(page \<mapsto> (frame', flags))"
    by (rule map_page_any [OF laws inv1 map])
  have left': "free_frames entries s' = drop k fs" using s'(4) fa(3) by (simp add: s1(2))
  have fr: "frame' = f0" using frame s'(1) s1(1) by simp
  have "exclusive_frames P entries s'"
    using s'(5) unfolding as1 fr
  proof
    assume "address_space P s' = address_space P s"
    then show ?thesis using exclusive_frames_drop [OF ex, of s' "Suc k"] left left' by simp
  next
    assume "address_space P s' = (address_space P s)(page \<mapsto> (f0, flags))"
    then show ?thesis by (rule exclusive_frames_map [OF ex _ left left'])
  qed
  moreover have "s' = s\<lparr>ALLOCATOR := ALLOCATOR s', MAPPER := MAPPER s'\<rparr>" using s'(3) by (simp add: s1(2))
  ultimately show ?thesis using s'(2) by simp
qed

section \<open>A concrete platform\<close>

text \<open>
  An instance of the parameters: a page table is the map it represents, and \<open>map_to\<close> needs no
  further frames.  It shows that the laws can hold.
\<close>

type_synonym flat_table = "u64 \<rightharpoonup> u64 \<times> page_flags"

definition flat_map_to :: "flat_table \<Rightarrow> u64 \<Rightarrow> u64 \<Rightarrow> page_flags \<Rightarrow> frame_allocator \<Rightarrow>
    (bool \<times> flat_table \<times> frame_allocator) res" where
  "flat_map_to pt page frame flags fa =
     (case pt page of Some _ \<Rightarrow> Inr (False, pt, fa) | None \<Rightarrow> Inr (True, pt(page \<mapsto> (frame, flags)), fa))"

definition example_platform :: "flat_table platform" where
  "example_platform =
     \<lparr>memmap_response = Some example_memmap, hhdm_response = Some 0xFFFF800000000000,
      cr3_start_address = 0x1000, offset_page_table = (\<lambda>l4 offset. Map.empty),
      virt_addr = Some, virt_addr_add = (\<lambda>a b. Some (a + b)),
      phys_frame = (\<lambda>a. Some (page_floor a)), virt_page = (\<lambda>a. Some (page_floor a)),
      map_to = flat_map_to, page_view = (\<lambda>pt. pt)\<rparr>"

definition example_state :: "flat_table mem_state" where
  "example_state =
     \<lparr>ALLOCATOR = frame_allocator_new, MAPPER = Some Map.empty, HHDM_OFFSET = 0xFFFF800000000000,
      CDT = genesis_cdt, serial = [], phys_mem = (\<lambda>_. 0)\<rparr>"

lemma flat_map_to_law:
  assumes "map_to P = flat_map_to" "page_view P = (\<lambda>pt. pt)"
  shows "map_to_law P entries"
  unfolding map_to_law_def assms
proof (intro allI impI)
  fix pt page frame flags fa
  assume inv: "fa_inv entries fa"
  show "\<exists>ok pt' fa' k. flat_map_to pt page frame flags fa = Inr (ok, pt', fa') \<and>
      fa_inv entries fa' \<and> k \<le> 3 \<and> frames_left entries fa' = drop k (frames_left entries fa) \<and>
      pt' = (if ok then pt(page \<mapsto> (frame, flags)) else pt) \<and>
      (pt page \<noteq> None \<longrightarrow> \<not> ok) \<and> (pt page = None \<longrightarrow> 3 \<le> length (frames_left entries fa) \<longrightarrow> ok)"
  proof (cases "pt page")
    case None
    with inv show ?thesis
      by (intro exI [of _ True] exI [of _ "pt(page \<mapsto> (frame, flags))"] exI [of _ fa] exI [of _ 0])
        (simp add: flat_map_to_def)
  next
    case (Some x)
    with inv show ?thesis
      by (intro exI [of _ False] exI [of _ pt] exI [of _ fa] exI [of _ 0]) (simp add: flat_map_to_def)
  qed
qed

lemma example_paging_laws: "paging_laws example_platform example_memmap"
proof -
  have "map_to_law example_platform example_memmap"
    by (rule flat_map_to_law) (simp_all add: example_platform_def)
  then show ?thesis
    by (simp add: paging_laws_def address_laws_def example_platform_def)
      (simp add: example_memmap_def entry_end_def)
qed

lemma example_mem_inv: "mem_inv example_memmap example_state"
  by (simp add: mem_inv_def example_state_def fa_inv_new wf_example_memmap)

lemma example_free_frames: "free_frames example_memmap example_state = [0x101000, 0x102000, 0x200000, 0x201000]"
  by (simp add: example_state_def frames_left_new all_frames_example)

section \<open>Properties\<close>

text \<open>
  A grant for the genesis token at an unmapped page of the lower half, with four free frames,
  returns the requested address and maps exactly that page, present, writable and user accessible,
  to the next free frame; no other mapping and no capability changes, and the frame leaves the
  supply (with at most three more for new page tables).
\<close>

theorem grant_frame_maps_next_frame:
  assumes "paging_laws P entries" and "mem_inv entries s" and "CDT s = genesis_cdt"
    and "unat vaddr < 2 ^ 47" and "free_frames entries s = f # fs" and "3 \<le> length fs"
    and "address_space P s (page_floor vaddr) = None"
  shows "\<exists>s' k. grant_frame P 0 vaddr s = Inr (vaddr, s') \<and>
    address_space P s' = (address_space P s)(page_floor vaddr \<mapsto> (f, {PRESENT, WRITABLE, USER_ACCESSIBLE})) \<and>
    s' = s\<lparr>ALLOCATOR := ALLOCATOR s', MAPPER := MAPPER s'\<rparr> \<and>
    k \<le> 3 \<and> free_frames entries s' = drop k fs \<and> mem_inv entries s'"
  using assms(6,7) by (rule_tac grant_frame_effect [OF assms(1-5)]) blast

theorem grant_frame_maps_next_frame_witness:
  "\<exists>s'. grant_frame example_platform 0 0x400123 example_state = Inr (0x400123, s') \<and>
     address_space example_platform s' 0x400000 = Some (0x101000, {PRESENT, WRITABLE, USER_ACCESSIBLE})"
proof -
  have "page_floor 0x400123 = 0x400000" by (simp add: page_floor_def)
  moreover have "CDT example_state = genesis_cdt" by (simp add: example_state_def)
  moreover have "address_space example_platform example_state 0x400000 = None"
    by (simp add: address_space_def example_platform_def example_state_def)
  ultimately show ?thesis
    using grant_frame_maps_next_frame [OF example_paging_laws example_mem_inv _ _ example_free_frames,
        of "0x400123"] by fastforce
qed

text \<open>
  Every other token is rejected: with the capabilities sealed at boot, a grant for any token id
  but 0 returns 0 and changes nothing except the serial log, on every platform.
\<close>

theorem grant_frame_rejects_other_tokens:
  assumes "CDT s = genesis_cdt" and "tid \<noteq> 0"
  shows "grant_frame P tid vaddr s = Inr (0, say ''[!] IPC REJECTED: Invalid Security Token!\<newline>'' s)"
  using assms by (simp add: grant_frame_def validate_genesis)

theorem grant_frame_rejects_other_tokens_witness:
  "grant_frame example_platform 7 0x400000 example_state =
     Inr (0, say ''[!] IPC REJECTED: Invalid Security Token!\<newline>'' example_state)"
  by (rule grant_frame_rejects_other_tokens) (simp_all add: example_state_def)

text \<open>
  A grant keeps frames exclusive on every branch, also where the page was mapped already and
  \<open>map_page\<close> drops the error (the frame is then lost, but not shared).
\<close>

lemma grant_frame_exclusive:
  assumes "paging_laws P entries" and "mem_inv entries s" and "CDT s = genesis_cdt"
    and "unat vaddr < 2 ^ 47" and "exclusive_frames P entries s"
    and "grant_frame P tid vaddr s = Inr (r, s')"
  shows "exclusive_frames P entries s' \<and> mem_inv entries s'"
proof (cases "tid = 0")
  case False
  then have s': "s' = say ''[!] IPC REJECTED: Invalid Security Token!\<newline>'' s"
    using assms(3,6) by (simp add: grant_frame_def validate_genesis)
  with assms(2,5) show ?thesis
    using exclusive_frames_drop [OF assms(5), of s' 0] by (simp add: mem_inv_def)
next
  case tid: True
  show ?thesis
  proof (cases "free_frames entries s")
    case Nil
    with assms(1-3,6) tid show ?thesis
      by (simp add: grant_frame_def allocate_expect_Nil validate_genesis)
  next
    case (Cons f fs)
    let ?fl = "{PRESENT, WRITABLE, USER_ACCESSIBLE}"
    obtain t k where t: "grant_frame P 0 vaddr s = Inr (vaddr, t)" "mem_inv entries t"
      "free_frames entries t = drop k fs"
      "address_space P t = address_space P s \<or>
       address_space P s (page_floor vaddr) = None \<and>
       address_space P t = (address_space P s)(page_floor vaddr \<mapsto> (f, ?fl))"
      by (rule grant_frame_effect [OF assms(1-4) Cons])
    have "s' = t" using t(1) assms(6) tid by simp
    moreover have "exclusive_frames P entries t"
      using t(4) exclusive_frames_map [OF assms(5) _ Cons t(3)]
        exclusive_frames_drop [OF assms(5), of t "Suc k"] t(3) Cons by auto
    ultimately show ?thesis using t(2) by simp
  qed
qed

end
