(* ===== verification/Scheduler.thy ===== *)
theory Scheduler
  imports Oracle
begin

text \<open>
  Threads and the thread table: \<^verbatim>\<open>stardust/src/task/thread.rs\<close> and the \<open>Scheduler\<close>
  structure of \<^verbatim>\<open>stardust/src/task/scheduler.rs\<close>.

  Slots of the table are taken from the front and never released, so the table behaves as a FIFO
  queue with room for 64 threads in the life of the system.  The locale \<open>run_queue\<close> states
  that contract for the spawning and the dispatching side and derives what any interleaving of the
  two yields; the thread table is interpreted as one.
\<close>

section \<open>Model: threads\<close>

datatype thread_state = Empty | Ready | Running | Blocked

record thread =
  thread_id :: u64
  parent_process_id :: u64
  state :: thread_state
  stack_pointer :: u64
  instruction_pointer :: u64

definition thread_empty :: thread where
  "thread_empty =
     \<lparr>thread_id = 0, parent_process_id = 0, state = Empty, stack_pointer = 0, instruction_pointer = 0\<rparr>"

section \<open>Model: the scheduler\<close>

definition MAX_THREADS :: nat where
  "MAX_THREADS = 64"

record scheduler =
  threads :: "thread list"
  thread_count :: u64
  ticks :: u64

definition scheduler_new :: scheduler where
  "scheduler_new = \<lparr>threads = replicate MAX_THREADS thread_empty, thread_count = 0, ticks = 0\<rparr>"

text \<open>\<open>for i in 0..MAX_THREADS\<close> of \<open>spawn_thread\<close>.\<close>

function spawn_loop :: "nat \<Rightarrow> u64 \<Rightarrow> u64 \<Rightarrow> u64 \<Rightarrow> scheduler \<Rightarrow> (u64 option \<times> scheduler) res" where
  "spawn_loop i process_id sp ip self =
     (if i < MAX_THREADS then
        if state (threads self ! i) = Empty then
          bindE (add_chk (thread_count self) 1) (\<lambda>tid.
          Inr (Some tid, self\<lparr>thread_count := tid,
            threads := (threads self)[i :=
              \<lparr>thread_id = tid, parent_process_id = process_id, state = Ready,
               stack_pointer = sp, instruction_pointer = ip\<rparr>]\<rparr>))
        else spawn_loop (i + 1) process_id sp ip self
      else Inr (None, self))"
  by pat_completeness auto
termination
  by (relation "measure (\<lambda>(i, _). MAX_THREADS - i)") auto

declare spawn_loop.simps [simp del]

definition spawn_thread :: "u64 \<Rightarrow> u64 \<Rightarrow> u64 \<Rightarrow> scheduler \<Rightarrow> (u64 option \<times> scheduler) res" where
  "spawn_thread process_id sp ip self = spawn_loop 0 process_id sp ip self"

text \<open>\<open>for i in 0..MAX_THREADS\<close> of \<open>pop_ready_thread\<close>.\<close>

function pop_loop :: "nat \<Rightarrow> scheduler \<Rightarrow> (u64 \<times> u64) option \<times> scheduler" where
  "pop_loop i self =
     (if i < MAX_THREADS then
        if state (threads self ! i) = Ready then
          let t = (threads self ! i)\<lparr>state := Running\<rparr>;
              self = self\<lparr>threads := (threads self)[i := t]\<rparr>
          in (Some (instruction_pointer t, stack_pointer t), self)
        else pop_loop (i + 1) self
      else (None, self))"
  by pat_completeness auto
termination
  by (relation "measure (\<lambda>(i, _). MAX_THREADS - i)") auto

declare pop_loop.simps [simp del]

definition pop_ready_thread :: "scheduler \<Rightarrow> (u64 \<times> u64) option \<times> scheduler" where
  "pop_ready_thread self = pop_loop 0 self"

definition tick :: "scheduler \<Rightarrow> scheduler res" where
  "tick self = bindE (add_chk (ticks self) 1) (\<lambda>t. Inr (self\<lparr>ticks := t\<rparr>))"

text \<open>The free function \<open>spawn_thread\<close>, used by the system call: it drops the result.\<close>

definition global_spawn_thread :: "u64 \<Rightarrow> u64 \<Rightarrow> scheduler \<Rightarrow> scheduler res" where
  "global_spawn_thread entry_point stack_ptr sched =
     bindE (spawn_thread 1 stack_ptr entry_point sched) (\<lambda>(_, sched). Inr sched)"

section \<open>Specification: a bounded run queue\<close>

datatype 'j queue_op = Spawn 'j | Pop

fun spawn_jobs :: "'j queue_op list \<Rightarrow> 'j list" where
  "spawn_jobs [] = []"
| "spawn_jobs (Spawn j # ops) = j # spawn_jobs ops"
| "spawn_jobs (Pop # ops) = spawn_jobs ops"

text \<open>
  A sequence of operations, in the order in which the lock serialises them: the jobs that were
  accepted and the entries that were dispatched.
\<close>

fun run_ops :: "('j \<Rightarrow> 'q \<Rightarrow> (u64 option \<times> 'q) res) \<Rightarrow> ('q \<Rightarrow> 'a option \<times> 'q) \<Rightarrow>
    'j queue_op list \<Rightarrow> 'q \<Rightarrow> ('j list \<times> 'a list \<times> 'q) res" where
  "run_ops spawn pop [] q = Inr ([], [], q)"
| "run_ops spawn pop (Spawn j # ops) q =
     bindE (spawn j q) (\<lambda>(r, q).
     bindE (run_ops spawn pop ops q) (\<lambda>(acc, out, q).
     Inr (case r of None \<Rightarrow> acc | Some _ \<Rightarrow> j # acc, out, q)))"
| "run_ops spawn pop (Pop # ops) q =
     (let (r, q) = pop q in
      bindE (run_ops spawn pop ops q) (\<lambda>(acc, out, q).
      Inr (acc, case r of None \<Rightarrow> out | Some x \<Rightarrow> x # out, q)))"

locale run_queue =
  fixes spawn :: "'j \<Rightarrow> 'q \<Rightarrow> (u64 option \<times> 'q) res"
    and pop :: "'q \<Rightarrow> 'a option \<times> 'q"
    and queue :: "'q \<Rightarrow> 'a list"
    and room :: "'q \<Rightarrow> nat"
    and job :: "'j \<Rightarrow> 'a"
    and invar :: "'q \<Rightarrow> bool"
  assumes spawn_room: "invar q \<Longrightarrow> 0 < room q \<Longrightarrow>
      \<exists>tid q'. spawn j q = Inr (Some tid, q') \<and> invar q' \<and> queue q' = queue q @ [job j] \<and> Suc (room q') = room q"
    and spawn_full: "invar q \<Longrightarrow> room q = 0 \<Longrightarrow> spawn j q = Inr (None, q)"
    and pop_nil: "invar q \<Longrightarrow> queue q = [] \<Longrightarrow> pop q = (None, q)"
    and pop_cons: "invar q \<Longrightarrow> queue q = x # xs \<Longrightarrow>
      \<exists>q'. pop q = (Some x, q') \<and> invar q' \<and> queue q' = xs \<and> room q' = room q"
begin

lemma run_ops_fifo:
  "invar q \<Longrightarrow> \<exists>out q'. run_ops spawn pop ops q = Inr (take (room q) (spawn_jobs ops), out, q') \<and>
     invar q' \<and> queue q @ map job (take (room q) (spawn_jobs ops)) = out @ queue q'"
proof (induction ops arbitrary: q)
  case (Cons p ops)
  show ?case
  proof (cases p)
    case (Spawn j)
    show ?thesis
    proof (cases "room q")
      case 0
      then show ?thesis using Cons.IH [OF Cons.prems] spawn_full [OF Cons.prems] Spawn by auto
    next
      case (Suc n)
      then obtain tid q1 where "spawn j q = Inr (Some tid, q1)" "invar q1"
        "queue q1 = queue q @ [job j]" "room q1 = n"
        using spawn_room [OF Cons.prems, of j] by auto
      then show ?thesis using Cons.IH [of q1] Spawn Suc by auto
    qed
  next
    case Pop
    show ?thesis
    proof (cases "queue q")
      case Nil
      then show ?thesis using Cons.IH [OF Cons.prems] pop_nil [OF Cons.prems] Pop by auto
    next
      case (Cons x xs)
      then obtain q1 where "pop q = (Some x, q1)" "invar q1" "queue q1 = xs" "room q1 = room q"
        using pop_cons [OF Cons.prems, of x xs] by auto
      then show ?thesis using Cons.IH [of q1] Pop Cons by auto
    qed
  qed
qed simp

end

section \<open>Invariant and abstraction\<close>

definition sched_inv :: "scheduler \<Rightarrow> bool" where
  "sched_inv s \<longleftrightarrow>
     length (threads s) = MAX_THREADS \<and> unat (thread_count s) \<le> MAX_THREADS \<and>
     (\<forall>i < MAX_THREADS.
        if i < unat (thread_count s)
        then state (threads s ! i) \<in> {Ready, Running} \<and> unat (thread_id (threads s ! i)) = Suc i
        else state (threads s ! i) = Empty)"

definition dispatch_info :: "thread \<Rightarrow> u64 \<times> u64" where
  "dispatch_info t = (instruction_pointer t, stack_pointer t)"

definition ready_queue :: "scheduler \<Rightarrow> (u64 \<times> u64) list" where
  "ready_queue s = map dispatch_info (filter (\<lambda>t. state t = Ready) (threads s))"

definition free_slots :: "scheduler \<Rightarrow> nat" where
  "free_slots s = MAX_THREADS - unat (thread_count s)"

lemma sched_inv_new: "sched_inv scheduler_new"
  by (simp add: sched_inv_def scheduler_new_def thread_empty_def)

lemma sched_inv_used:
  assumes "sched_inv s" "i < unat (thread_count s)"
  shows "i < MAX_THREADS" "state (threads s ! i) = Ready \<or> state (threads s ! i) = Running"
    "state (threads s ! i) \<noteq> Empty" "unat (thread_id (threads s ! i)) = Suc i"
proof -
  show i: "i < MAX_THREADS" using assms by (simp add: sched_inv_def)
  have "if i < unat (thread_count s)
      then state (threads s ! i) \<in> {Ready, Running} \<and> unat (thread_id (threads s ! i)) = Suc i
      else state (threads s ! i) = Empty"
    using assms(1) i unfolding sched_inv_def by blast
  then show "state (threads s ! i) = Ready \<or> state (threads s ! i) = Running"
    "unat (thread_id (threads s ! i)) = Suc i" using assms(2) by simp_all
  then show "state (threads s ! i) \<noteq> Empty" by auto
qed

lemma sched_inv_unused:
  "sched_inv s \<Longrightarrow> i < MAX_THREADS \<Longrightarrow> unat (thread_count s) \<le> i \<Longrightarrow> state (threads s ! i) = Empty"
  by (simp add: sched_inv_def)

lemma sched_invI:
  assumes "length (threads s) = MAX_THREADS" "unat (thread_count s) \<le> MAX_THREADS"
    and "\<And>i. i < unat (thread_count s) \<Longrightarrow>
      (state (threads s ! i) = Ready \<or> state (threads s ! i) = Running) \<and> unat (thread_id (threads s ! i)) = Suc i"
    and "\<And>i. i < MAX_THREADS \<Longrightarrow> unat (thread_count s) \<le> i \<Longrightarrow> state (threads s ! i) = Empty"
  shows "sched_inv s"
  using assms by (simp add: sched_inv_def)

lemma sched_inv_length: "sched_inv s \<Longrightarrow> length (threads s) = MAX_THREADS"
  by (simp add: sched_inv_def)

lemma sched_inv_count: "sched_inv s \<Longrightarrow> unat (thread_count s) \<le> MAX_THREADS"
  by (simp add: sched_inv_def)

lemma ready_queue_new: "ready_queue scheduler_new = []"
  by (simp add: ready_queue_def scheduler_new_def thread_empty_def)

lemma spawn_loop_skip:
  "i \<le> n \<Longrightarrow> n \<le> MAX_THREADS \<Longrightarrow> (\<And>j. i \<le> j \<Longrightarrow> j < n \<Longrightarrow> state (threads s ! j) \<noteq> Empty) \<Longrightarrow>
   spawn_loop i pid sp ip s = spawn_loop n pid sp ip s"
proof (induction "n - i" arbitrary: i)
  case (Suc d)
  then have "i < n" by simp
  with Suc have "spawn_loop (i + 1) pid sp ip s = spawn_loop n pid sp ip s" by simp
  moreover have "spawn_loop i pid sp ip s = spawn_loop (i + 1) pid sp ip s"
    using Suc.prems \<open>i < n\<close> by (subst spawn_loop.simps) simp
  ultimately show ?case by simp
qed simp

lemma pop_loop_skip:
  "i \<le> n \<Longrightarrow> n \<le> MAX_THREADS \<Longrightarrow> (\<And>j. i \<le> j \<Longrightarrow> j < n \<Longrightarrow> state (threads s ! j) \<noteq> Ready) \<Longrightarrow>
   pop_loop i s = pop_loop n s"
proof (induction "n - i" arbitrary: i)
  case (Suc d)
  then have "i < n" by simp
  with Suc have "pop_loop (i + 1) s = pop_loop n s" by simp
  moreover have "pop_loop i s = pop_loop (i + 1) s"
    using Suc.prems \<open>i < n\<close> by (subst pop_loop.simps) simp
  ultimately show ?case by simp
qed simp

abbreviation new_thread :: "u64 \<Rightarrow> u64 \<Rightarrow> u64 \<Rightarrow> u64 \<Rightarrow> thread" where
  "new_thread tid pid sp ip \<equiv> \<lparr>thread_id = tid, parent_process_id = pid, state = Ready,
     stack_pointer = sp, instruction_pointer = ip\<rparr>"

lemma thread_count_Suc:
  assumes "sched_inv s" "unat (thread_count s) < MAX_THREADS"
  shows "add_chk (thread_count s) 1 = Inr (thread_count s + 1)"
    and "unat (thread_count s + 1) = Suc (unat (thread_count s))"
proof -
  have lt: "unat (thread_count s) + unat (1::u64) < 2 ^ LENGTH(64)"
    using assms(2) by (simp add: MAX_THREADS_def)
  then show "add_chk (thread_count s) 1 = Inr (thread_count s + 1)" by (simp add: add_chk_def)
  from unat_add_no_overflow [OF lt] show "unat (thread_count s + 1) = Suc (unat (thread_count s))" by simp
qed

lemma spawn_thread_room:
  assumes inv: "sched_inv s" and room: "unat (thread_count s) < MAX_THREADS"
  shows "spawn_thread pid sp ip s =
    Inr (Some (thread_count s + 1), s\<lparr>thread_count := thread_count s + 1,
      threads := (threads s)[unat (thread_count s) := new_thread (thread_count s + 1) pid sp ip]\<rparr>)"
proof -
  let ?n = "unat (thread_count s)"
  have "spawn_loop 0 pid sp ip s = spawn_loop ?n pid sp ip s"
    using room by (intro spawn_loop_skip) (auto dest: sched_inv_used(3) [OF inv])
  moreover have "state (threads s ! ?n) = Empty"
    using inv room by (auto simp: sched_inv_def)
  ultimately show ?thesis
    using room thread_count_Suc [OF inv room]
    by (simp add: spawn_thread_def spawn_loop.simps [of ?n])
qed

lemma spawn_thread_full:
  assumes inv: "sched_inv s" and full: "unat (thread_count s) = MAX_THREADS"
  shows "spawn_thread pid sp ip s = Inr (None, s)"
proof -
  have "spawn_loop 0 pid sp ip s = spawn_loop MAX_THREADS pid sp ip s"
    by (intro spawn_loop_skip) (simp_all add: sched_inv_used(3) [OF inv] full)
  then show ?thesis by (simp add: spawn_thread_def spawn_loop.simps [of MAX_THREADS])
qed

lemma spawn_thread_inv:
  assumes inv: "sched_inv s" and room: "unat (thread_count s) < MAX_THREADS"
  shows "sched_inv (s\<lparr>thread_count := thread_count s + 1,
      threads := (threads s)[unat (thread_count s) := new_thread (thread_count s + 1) pid sp ip]\<rparr>)"
  using room thread_count_Suc(2) [OF inv room] sched_inv_used [OF inv] sched_inv_unused [OF inv]
  by (intro sched_invI) (auto simp: nth_list_update less_Suc_eq sched_inv_length [OF inv])

lemma filter_Ready_update_last:
  assumes "n < length ts" "\<forall>i < length ts. n \<le> i \<longrightarrow> state (ts ! i) = Empty" "state t = Ready"
  shows "filter (\<lambda>t. state t = Ready) (ts[n := t]) = filter (\<lambda>t. state t = Ready) ts @ [t]"
proof -
  have drop_empty: "filter (\<lambda>t. state t = Ready) (drop n ts) = []"
    using assms(2) by (auto simp: filter_empty_conv in_set_conv_nth)
  then have "filter (\<lambda>t. state t = Ready) (drop (Suc n) ts) = []"
    using assms(1) by (metis Cons_nth_drop_Suc filter.simps(2) list.distinct(1))
  moreover have "ts[n := t] = take n ts @ t # drop (Suc n) ts"
    using assms(1) by (rule upd_conv_take_nth_drop)
  moreover have "filter (\<lambda>t. state t = Ready) ts = filter (\<lambda>t. state t = Ready) (take n ts)"
    using drop_empty by (metis append_Nil2 append_take_drop_id filter_append)
  ultimately show ?thesis using assms(3) by simp
qed

lemma spawn_thread_queue:
  assumes inv: "sched_inv s" and room: "unat (thread_count s) < MAX_THREADS"
  shows "ready_queue (s\<lparr>thread_count := thread_count s + 1,
      threads := (threads s)[unat (thread_count s) := new_thread (thread_count s + 1) pid sp ip]\<rparr>)
    = ready_queue s @ [(ip, sp)]"
proof -
  have "filter (\<lambda>t. state t = Ready) ((threads s)[unat (thread_count s) := new_thread (thread_count s + 1) pid sp ip])
    = filter (\<lambda>t. state t = Ready) (threads s) @ [new_thread (thread_count s + 1) pid sp ip]"
    by (rule filter_Ready_update_last) (use inv room in \<open>auto simp: sched_inv_def\<close>)
  then show ?thesis by (simp add: ready_queue_def dispatch_info_def)
qed

text \<open>The first ready slot.\<close>

lemma first_ready:
  assumes "filter (\<lambda>t. state t = Ready) ts = r # rs"
  obtains i where "i < length ts" "ts ! i = r" "state r = Ready"
    "\<And>j. j < i \<Longrightarrow> state (ts ! j) \<noteq> Ready"
    "filter (\<lambda>t. state t = Ready) (ts[i := r\<lparr>state := Running\<rparr>]) = rs"
proof -
  from assms obtain us vs where ts: "ts = us @ r # vs" "\<forall>u \<in> set us. state u \<noteq> Ready" "state r = Ready"
    "rs = filter (\<lambda>t. state t = Ready) vs"
    by (auto simp: filter_eq_Cons_iff)
  moreover have "filter (\<lambda>t. state t = Ready) us = []" using ts(2) by (simp add: filter_empty_conv)
  ultimately show ?thesis
    by (intro that [of "length us"]) (auto simp: nth_append)
qed

lemma pop_ready_thread_cons:
  assumes inv: "sched_inv s" and q: "ready_queue s = x # xs"
  shows "\<exists>i. i < unat (thread_count s) \<and> state (threads s ! i) = Ready \<and>
    pop_ready_thread s =
      (Some x, s\<lparr>threads := (threads s)[i := (threads s ! i)\<lparr>state := Running\<rparr>]\<rparr>) \<and>
    x = dispatch_info (threads s ! i) \<and>
    sched_inv (s\<lparr>threads := (threads s)[i := (threads s ! i)\<lparr>state := Running\<rparr>]\<rparr>) \<and>
    ready_queue (s\<lparr>threads := (threads s)[i := (threads s ! i)\<lparr>state := Running\<rparr>]\<rparr>) = xs"
proof -
  have len: "length (threads s) = MAX_THREADS" using inv by (simp add: sched_inv_def)
  obtain r rs where flt: "filter (\<lambda>t. state t = Ready) (threads s) = r # rs"
    and x: "x = dispatch_info r" "xs = map dispatch_info rs"
    using q by (auto simp: ready_queue_def)
  obtain i where i: "i < length (threads s)" "threads s ! i = r" "state r = Ready"
    "\<And>j. j < i \<Longrightarrow> state (threads s ! j) \<noteq> Ready"
    "filter (\<lambda>t. state t = Ready) ((threads s)[i := r\<lparr>state := Running\<rparr>]) = rs"
    using first_ready [OF flt] by blast
  have lt: "i < unat (thread_count s)"
  proof (rule ccontr)
    assume "\<not> ?thesis"
    with i len have "state (threads s ! i) = Empty" by (intro sched_inv_unused [OF inv]) simp_all
    with i show False by simp
  qed
  have "pop_loop 0 s = pop_loop i s" using i len by (intro pop_loop_skip) auto
  then have "pop_ready_thread s = (Some x, s\<lparr>threads := (threads s)[i := r\<lparr>state := Running\<rparr>]\<rparr>)"
    using i len x by (simp add: pop_ready_thread_def pop_loop.simps [of i] Let_def dispatch_info_def)
  moreover have "sched_inv (s\<lparr>threads := (threads s)[i := r\<lparr>state := Running\<rparr>]\<rparr>)"
    using i(1,2) lt len sched_inv_used [OF inv] sched_inv_unused [OF inv] sched_inv_count [OF inv]
    by (intro sched_invI) (auto simp: nth_list_update)
  ultimately show ?thesis using i x lt by (intro exI [of _ i]) (simp add: ready_queue_def)
qed

lemma pop_ready_thread_nil:
  assumes inv: "sched_inv s" and q: "ready_queue s = []"
  shows "pop_ready_thread s = (None, s)"
proof -
  have "\<forall>t \<in> set (threads s). state t \<noteq> Ready" using q by (simp add: ready_queue_def filter_empty_conv)
  then have "state (threads s ! j) \<noteq> Ready" if "j < MAX_THREADS" for j
    using inv that by (auto simp: sched_inv_def)
  then have "pop_loop 0 s = pop_loop MAX_THREADS s" by (intro pop_loop_skip) auto
  then show ?thesis by (simp add: pop_ready_thread_def pop_loop.simps [of MAX_THREADS])
qed

text \<open>The thread table is a run queue.\<close>

interpretation table: run_queue
  "\<lambda>(pid, sp, ip). spawn_thread pid sp ip" pop_ready_thread ready_queue free_slots
  "\<lambda>(pid, sp, ip). (ip, sp)" sched_inv
proof (unfold_locales, goal_cases)
  case (1 q j)
  obtain pid sp ip where j: "j = (pid, sp, ip)" by (cases j)
  have room: "unat (thread_count q) < MAX_THREADS" using 1 by (simp add: free_slots_def)
  show ?case
    using spawn_thread_room [OF 1(1) room] spawn_thread_inv [OF 1(1) room]
      spawn_thread_queue [OF 1(1) room] thread_count_Suc(2) [OF 1(1) room] room j
    by (simp add: free_slots_def)
next
  case (2 q j)
  then have "unat (thread_count q) = MAX_THREADS" by (simp add: free_slots_def sched_inv_def)
  with 2 show ?case by (cases j) (simp add: spawn_thread_full)
next
  case (3 q)
  then show ?case by (rule pop_ready_thread_nil)
next
  case (4 q x xs)
  show ?case using pop_ready_thread_cons [OF 4] by (auto simp: free_slots_def)
qed

lemma tick_frame: "tick s = Inr s' \<Longrightarrow> threads s' = threads s \<and> thread_count s' = thread_count s \<and> ticks s' = ticks s + 1"
  by (auto simp: tick_def res_simps)

lemma tick_inv: "sched_inv s \<Longrightarrow> tick s = Inr s' \<Longrightarrow> sched_inv s'"
  using tick_frame [of s s'] unfolding sched_inv_def by metis

lemma global_spawn_thread_total:
  assumes "sched_inv s"
  obtains s' where "global_spawn_thread ip sp s = Inr s'" "sched_inv s'"
proof (cases "unat (thread_count s) < MAX_THREADS")
  case True
  show ?thesis
    using that spawn_thread_room [OF assms True, of 1 sp ip] spawn_thread_inv [OF assms True, of 1 sp ip]
    by (simp add: global_spawn_thread_def)
next
  case False
  then have "unat (thread_count s) = MAX_THREADS" using sched_inv_count [OF assms] by simp
  with that spawn_thread_full [OF assms, of 1 sp ip] assms show ?thesis
    by (simp add: global_spawn_thread_def)
qed

text \<open>The identifiers in use are pairwise different.\<close>

lemma thread_ids_distinct:
  assumes inv: "sched_inv s" and ij: "i < MAX_THREADS" "j < MAX_THREADS" "i \<noteq> j"
    and used: "state (threads s ! i) \<noteq> Empty" "state (threads s ! j) \<noteq> Empty"
  shows "thread_id (threads s ! i) \<noteq> thread_id (threads s ! j)"
proof -
  have "i < unat (thread_count s)" "j < unat (thread_count s)"
    using sched_inv_unused [OF inv] ij used by (meson not_le)+
  with sched_inv_used(4) [OF inv] have "unat (thread_id (threads s ! i)) = Suc i"
    "unat (thread_id (threads s ! j)) = Suc j" by simp_all
  with ij(3) show ?thesis by auto
qed

section \<open>Properties\<close>

text \<open>
  C32. The thread table is a FIFO queue for 64 threads: from the initial table, whatever
  interleaving of spawns and dispatches the cores perform, no operation panics, exactly the first
  64 spawns are accepted, and the dispatched entries followed by those still ready are the
  accepted spawns in spawn order.  So every accepted thread is dispatched at most once, none is
  lost or overtaken, and every later spawn is refused although all earlier threads may have been
  dispatched.
\<close>

theorem scheduler_is_bounded_fifo:
  "\<exists>out s'. run_ops (\<lambda>(pid, sp, ip). spawn_thread pid sp ip) pop_ready_thread ops scheduler_new =
      Inr (take 64 (spawn_jobs ops), out, s') \<and>
    sched_inv s' \<and>
    map (\<lambda>(pid, sp, ip). (ip, sp)) (take 64 (spawn_jobs ops)) = out @ ready_queue s'"
proof -
  have room: "free_slots scheduler_new = 64"
    by (simp add: free_slots_def scheduler_new_def MAX_THREADS_def)
  show ?thesis
    using table.run_ops_fifo [OF sched_inv_new, of ops] unfolding room ready_queue_new by simp
qed

text \<open>
  \<open>spawn_thread\<close> on every branch: with 64 threads it returns \<open>None\<close> and leaves the
  table as it is; otherwise it returns the next identifier, which no thread of the table has, puts
  a ready thread with that identifier and the given process, stack and entry point into the first
  unused slot and changes no other slot.  The increment of the counter cannot overflow and the
  invariant is kept.
\<close>

theorem spawn_thread_every_branch:
  assumes "sched_inv s"
  shows "\<exists>r s'. spawn_thread pid sp ip s = Inr (r, s') \<and> sched_inv s' \<and>
    (if thread_count s = 64 then r = None \<and> s' = s
     else let n = unat (thread_count s) in
       r = Some (thread_count s + 1) \<and> unat (thread_count s + 1) = Suc n \<and> n < 64 \<and>
       s' = s\<lparr>thread_count := thread_count s + 1,
          threads := (threads s)[n := new_thread (thread_count s + 1) pid sp ip]\<rparr> \<and>
       state (threads s ! n) = Empty \<and>
       (\<forall>i < 64. state (threads s ! i) \<noteq> Empty \<longrightarrow> thread_id (threads s ! i) \<noteq> thread_count s + 1))"
proof (cases "thread_count s = 64")
  case True
  then show ?thesis using spawn_thread_full [OF assms] assms by (simp add: MAX_THREADS_def)
next
  case False
  let ?n = "unat (thread_count s)"
  have ne: "?n \<noteq> unat (64::u64)" using False by (simp only: word_unat_eq_iff not_False_eq_True)
  have lt: "?n < MAX_THREADS"
    using sched_inv_count [OF assms] ne by (simp add: MAX_THREADS_def)
  have suc: "unat (thread_count s + 1) = Suc ?n" by (rule thread_count_Suc(2) [OF assms lt])
  have "thread_id (threads s ! i) \<noteq> thread_count s + 1" if "i < 64" "state (threads s ! i) \<noteq> Empty" for i
  proof -
    have i: "i < ?n" using sched_inv_unused [OF assms] that by (simp add: MAX_THREADS_def) (meson not_le)
    have "unat (thread_id (threads s ! i)) = Suc i" using sched_inv_used(4) [OF assms i] .
    with suc i show ?thesis by auto
  qed
  then show ?thesis
    using False lt suc spawn_thread_room [OF assms lt] spawn_thread_inv [OF assms lt]
      sched_inv_unused [OF assms lt order_refl]
    by (simp add: MAX_THREADS_def Let_def)
qed

theorem spawn_thread_every_branch_witness:
  "\<exists>s'. spawn_thread 0 0x7FFFFFFF0000 0x401000 scheduler_new = Inr (Some 1, s') \<and> sched_inv s'"
proof -
  have "thread_count scheduler_new = 0" by (simp add: scheduler_new_def)
  then show ?thesis
    using spawn_thread_every_branch [OF sched_inv_new, of 0 "0x7FFFFFFF0000" "0x401000"] by auto
qed

end
