(* ===== verification/Syscall.thy ===== *)
theory Syscall
  imports Memory Scheduler
begin

text \<open>
  The system call interface: \<^verbatim>\<open>stardust/src/arch/x86_64/syscall.rs\<close> (the dispatcher and
  its pointer check), with the services only it uses: \<^verbatim>\<open>hal/display.rs\<close> (the framebuffer
  the boot loader set up), \<^verbatim>\<open>arch/x86_64/iommu.rs\<close> and the mailboxes of
  \<^verbatim>\<open>arch/x86_64/idt.rs\<close>.  The kernel's statics are the record \<open>kernel\<close>, an extension
  of \<open>mem_state\<close>; I/O ports are devices outside the program, a parameter with its own state.
  System calls run with interrupts masked, so a call is one step of the kernel.
\<close>

section \<open>State\<close>

record framebuffer =
  fb_addr :: u64
  fb_width :: u64
  fb_height :: u64
  fb_pitch :: u64

record ('pt, 'dev) hw_platform = "'pt platform" +
  framebuffer_response :: "framebuffer list option"
  port_in :: "'dev \<Rightarrow> u16 \<Rightarrow> nat \<Rightarrow> u32 \<times> 'dev"
  port_out :: "'dev \<Rightarrow> u16 \<Rightarrow> nat \<Rightarrow> u32 \<Rightarrow> 'dev"

record ('pt, 'dev) kernel = "'pt mem_state" +
  SCHEDULER :: scheduler
  GLOBAL_IPC_MAILBOX :: u64
  IRQ_MAILBOXES :: "u64 list"
  SHOOTDOWN_ADDR :: u64
  SHOOTDOWN_ACK :: u64
  SUPERVISOR_MAILBOX :: u64
  devices :: 'dev

section \<open>Model: display and IOMMU\<close>

definition get_framebuffer_details :: "('pt, 'dev) hw_platform \<Rightarrow> ('pt, 'dev) kernel \<Rightarrow>
    (u64 \<times> u64 \<times> u64 \<times> u64) option" where
  "get_framebuffer_details P s =
     (case framebuffer_response P of
        None \<Rightarrow> None
      | Some [] \<Rightarrow> None
      | Some (fb # _) \<Rightarrow>
          let phys_addr = saturating_sub (fb_addr fb) (HHDM_OFFSET s)
          in Some (phys_addr, fb_width fb, fb_height fb, fb_pitch fb))"

definition iommu_init :: "('pt, 'dev) kernel \<Rightarrow> ('pt, 'dev) kernel" where
  "iommu_init s =
     say ''[+] IOMMU Hardware detected. DMA Translation Engine online.\<newline>''
       (say ''[*] Probing ACPI for DMAR (Intel VT-d) or IVRS (AMD-Vi) tables...\<newline>'' s)"

definition map_device_dma :: "u16 \<Rightarrow> u64 \<Rightarrow> ('pt, 'dev) kernel \<Rightarrow> (bool \<times> ('pt, 'dev) kernel) res" where
  "map_device_dma device_id dma_base s =
     bindE (say_hex (ucast device_id) (say ''\<newline>[*] IOMMU: Locking down PCIe Device ID 0x'' s)) (\<lambda>s.
     bindE (say_hex dma_base (say ''\<newline>    -> Restricting DMA access to safe virtual region: 0x'' s)) (\<lambda>s.
     Inr (True, say ''\<newline>[+] Hardware Sandboxing Applied. Device is secured.\<newline>'' s)))"

section \<open>Model: system calls\<close>

abbreviation SYS_GRANT_SHARED_MEMORY :: u64 where "SYS_GRANT_SHARED_MEMORY \<equiv> 1"
abbreviation SYS_IOMMU_LOCKDOWN :: u64 where "SYS_IOMMU_LOCKDOWN \<equiv> 2"
abbreviation SYS_MAP_FRAMEBUFFER :: u64 where "SYS_MAP_FRAMEBUFFER \<equiv> 3"
abbreviation SYS_BATCH_EXECUTE :: u64 where "SYS_BATCH_EXECUTE \<equiv> 4"
abbreviation SYS_PORT_IN :: u64 where "SYS_PORT_IN \<equiv> 5"
abbreviation SYS_CHECK_IRQ :: u64 where "SYS_CHECK_IRQ \<equiv> 6"
abbreviation SYS_SPAWN_PROCESS :: u64 where "SYS_SPAWN_PROCESS \<equiv> 7"
abbreviation SYS_PORT_OUT :: u64 where "SYS_PORT_OUT \<equiv> 8"
abbreviation SYS_IPC_SEND :: u64 where "SYS_IPC_SEND \<equiv> 9"
abbreviation SYS_IPC_RECEIVE :: u64 where "SYS_IPC_RECEIVE \<equiv> 10"

definition is_safe_user_ptr :: "u64 \<Rightarrow> u64 \<Rightarrow> bool" where
  "is_safe_user_ptr vaddr len =
     (let end_addr = saturating_add vaddr len in end_addr < 0x00007FFFFFFFF000 \<and> vaddr < end_addr)"

definition sys_grant :: "('pt, 'dev) hw_platform \<Rightarrow> u64 \<Rightarrow> u64 \<Rightarrow> ('pt, 'dev) kernel \<Rightarrow>
    (u64 \<times> ('pt, 'dev) kernel) res" where
  "sys_grant P arg1 arg2 s =
     (if \<not> is_safe_user_ptr arg2 4096 then Inr (u64_MAX, s) else grant_frame P arg1 arg2 s)"

definition sys_iommu :: "u64 \<Rightarrow> u64 \<Rightarrow> ('pt, 'dev) kernel \<Rightarrow> (u64 \<times> ('pt, 'dev) kernel) res" where
  "sys_iommu arg1 arg2 s =
     (if \<not> is_safe_user_ptr arg2 0x200000 then Inr (u64_MAX, s)
      else bindE (map_device_dma (ucast arg1) arg2 s) (\<lambda>(ok, s). Inr (if ok then 1 else 0, s)))"

text \<open>\<open>for i in 0..pages\<close>: the list holds the values of \<open>i\<close>.\<close>

fun map_fb_loop :: "('pt, 'dev) hw_platform \<Rightarrow> u64 \<Rightarrow> u64 \<Rightarrow> page_flags \<Rightarrow> u64 list \<Rightarrow>
    ('pt, 'dev) kernel \<Rightarrow> ('pt, 'dev) kernel res" where
  "map_fb_loop P phys_addr arg1 flags [] s = Inr s"
| "map_fb_loop P phys_addr arg1 flags (i # is) s =
     bindE (mul_chk i 4096) (\<lambda>off.
     bindE (add_chk phys_addr off) (\<lambda>phys.
     bindE (add_chk arg1 off) (\<lambda>virt.
     bindE (map_page P phys virt flags s) (\<lambda>s.
     map_fb_loop P phys_addr arg1 flags is s))))"

definition sys_map_fb :: "('pt, 'dev) hw_platform \<Rightarrow> u64 \<Rightarrow> ('pt, 'dev) kernel \<Rightarrow>
    (u64 \<times> ('pt, 'dev) kernel) res" where
  "sys_map_fb P arg1 s =
     (case get_framebuffer_details P s of
        None \<Rightarrow> Inr (0, s)
      | Some (phys_addr, width, height, pitch) \<Rightarrow>
          bindE (mul_chk height pitch) (\<lambda>size_in_bytes.
          if \<not> is_safe_user_ptr arg1 size_in_bytes then Inr (u64_MAX, s)
          else
            bindE (add_chk size_in_bytes 4095) (\<lambda>sum.
            let pages = sum div 4096;
                flags = {PRESENT, WRITABLE, USER_ACCESSIBLE, NO_CACHE} in
            bindE (map_fb_loop P phys_addr arg1 flags (map of_nat [0..<unat pages]) s) (\<lambda>s.
            Inr (push_bit 32 pitch OR height, s)))))"

text \<open>
  \<open>core::ptr::read\<close> of a \<open>u64\<close>: the development profile checks that the pointer is
  aligned and not null; the access itself goes through the MMU.
\<close>

definition ptr_read_u64 :: "('pt, 'p) platform_scheme \<Rightarrow> ('pt, 'm) mem_state_scheme \<Rightarrow> u64 \<Rightarrow> u64 res" where
  "ptr_read_u64 P s ptr =
     (if ptr = 0 \<or> unat ptr mod 8 \<noteq> 0 then Inl (Bad_Pointer ptr)
      else bindE (read_bytes P s ptr 8) (\<lambda>bs. Inr (le_value bs)))"

fun batch_loop :: "('pt, 'dev) hw_platform \<Rightarrow> u64 \<Rightarrow> u64 list \<Rightarrow> ('pt, 'dev) kernel \<Rightarrow>
    ('pt, 'dev) kernel res" where
  "batch_loop P batch_ptr [] s = Inr s"
| "batch_loop P batch_ptr (i # is) s =
     bindE (ptr_read_u64 P s (batch_ptr + 8 * i)) (\<lambda>cmd.
     let action = drop_bit 32 cmd; payload = cmd AND 0xFFFFFFFF in
     bindE (say_hex action (say ''    -> Action 0x'' s)) (\<lambda>s.
     bindE (say_hex payload (say '', Payload 0x'' s)) (\<lambda>s.
     batch_loop P batch_ptr is (say ''\<newline>'' s))))"

definition sys_batch :: "('pt, 'dev) hw_platform \<Rightarrow> u64 \<Rightarrow> u64 \<Rightarrow> ('pt, 'dev) kernel \<Rightarrow>
    (u64 \<times> ('pt, 'dev) kernel) res" where
  "sys_batch P arg1 arg2 s =
     (let count = arg2 in
      bindE (mul_chk count 8) (\<lambda>bytes.
      if \<not> is_safe_user_ptr arg1 bytes then Inr (u64_MAX, s)
      else
        bindE (batch_loop P arg1 (map of_nat [0..<unat count])
            (say ''\<newline>[*] IPC ROUTER: Processing Batched Syscalls...\<newline>'' s)) (\<lambda>s.
        Inr (0, s))))"

definition sys_port_in_handler :: "('pt, 'dev) hw_platform \<Rightarrow> u64 \<Rightarrow> u64 \<Rightarrow> ('pt, 'dev) kernel \<Rightarrow>
    u64 \<times> ('pt, 'dev) kernel" where
  "sys_port_in_handler P arg1 arg2 s =
     (let port = ucast arg1 :: u16; size = arg2 in
      if size = 1 then
        let (v, dev) = port_in P (devices s) port 1 in (ucast (ucast v :: u8), s\<lparr>devices := dev\<rparr>)
      else if size = 2 then
        let (v, dev) = port_in P (devices s) port 2 in (ucast (ucast v :: u16), s\<lparr>devices := dev\<rparr>)
      else if size = 4 then
        let (v, dev) = port_in P (devices s) port 4 in (ucast v, s\<lparr>devices := dev\<rparr>)
      else (u64_MAX, s))"

definition sys_check_irq_handler :: "u64 \<Rightarrow> ('pt, 'dev) kernel \<Rightarrow> u64 \<times> ('pt, 'dev) kernel" where
  "sys_check_irq_handler arg1 s =
     (let vector = unat arg1 in
      if vector < 256 then
        (IRQ_MAILBOXES s ! vector, s\<lparr>IRQ_MAILBOXES := (IRQ_MAILBOXES s)[vector := 0]\<rparr>)
      else (0, s))"

definition sys_spawn_handler :: "u64 \<Rightarrow> u64 \<Rightarrow> ('pt, 'dev) kernel \<Rightarrow> (u64 \<times> ('pt, 'dev) kernel) res" where
  "sys_spawn_handler arg1 arg2 s =
     bindE (global_spawn_thread arg1 arg2 (SCHEDULER s)) (\<lambda>sched. Inr (0, s\<lparr>SCHEDULER := sched\<rparr>))"

definition sys_port_out_handler :: "('pt, 'dev) hw_platform \<Rightarrow> u64 \<Rightarrow> u64 \<Rightarrow> ('pt, 'dev) kernel \<Rightarrow>
    u64 \<times> ('pt, 'dev) kernel" where
  "sys_port_out_handler P arg1 arg2 s =
     (let port = ucast (arg1 AND 0xFFFF) :: u16;
          size = drop_bit 16 arg1 AND 0xFFFF in
      if size = 1 then
        (0, s\<lparr>devices := port_out P (devices s) port 1 (ucast (ucast arg2 :: u8))\<rparr>)
      else if size = 2 then
        (0, s\<lparr>devices := port_out P (devices s) port 2 (ucast (ucast arg2 :: u16))\<rparr>)
      else if size = 4 then
        (0, s\<lparr>devices := port_out P (devices s) port 4 (ucast arg2)\<rparr>)
      else (u64_MAX, s))"

definition syscall_dispatcher :: "('pt, 'dev) hw_platform \<Rightarrow> u64 \<Rightarrow> u64 \<Rightarrow> u64 \<Rightarrow>
    ('pt, 'dev) kernel \<Rightarrow> (u64 \<times> ('pt, 'dev) kernel) res" where
  "syscall_dispatcher P syscall_id arg1 arg2 s =
     (if syscall_id = SYS_GRANT_SHARED_MEMORY then sys_grant P arg1 arg2 s
      else if syscall_id = SYS_IOMMU_LOCKDOWN then sys_iommu arg1 arg2 s
      else if syscall_id = SYS_MAP_FRAMEBUFFER then sys_map_fb P arg1 s
      else if syscall_id = SYS_BATCH_EXECUTE then sys_batch P arg1 arg2 s
      else if syscall_id = SYS_PORT_IN then Inr (sys_port_in_handler P arg1 arg2 s)
      else if syscall_id = SYS_CHECK_IRQ then Inr (sys_check_irq_handler arg1 s)
      else if syscall_id = SYS_SPAWN_PROCESS then sys_spawn_handler arg1 arg2 s
      else if syscall_id = SYS_PORT_OUT then Inr (sys_port_out_handler P arg1 arg2 s)
      else if syscall_id = SYS_IPC_SEND then Inr (0, s\<lparr>GLOBAL_IPC_MAILBOX := arg2\<rparr>)
      else if syscall_id = SYS_IPC_RECEIVE then
        Inr (GLOBAL_IPC_MAILBOX s, s\<lparr>GLOBAL_IPC_MAILBOX := 0\<rparr>)
      else Inr (0, say ''[!] IPC ROUTER: Unknown Syscall intercepted!\<newline>'' s))"

section \<open>Invariant and frame conditions\<close>

text \<open>The booted kernel.\<close>

definition kernel_inv :: "mem_entry list \<Rightarrow> ('pt, 'dev) kernel \<Rightarrow> bool" where
  "kernel_inv entries s \<longleftrightarrow>
     mem_inv entries s \<and> CDT s = genesis_cdt \<and> sched_inv (SCHEDULER s) \<and> length (IRQ_MAILBOXES s) = 256"

text \<open>The first address that \<open>is_safe_user_ptr\<close> never lets a range reach.\<close>

abbreviation USER_TOP :: nat where "USER_TOP \<equiv> 0x7FFFFFFFF000"

text \<open>What user mode must not be able to influence.\<close>

definition kernel_half_kept :: "('pt, 'dev) hw_platform \<Rightarrow> ('pt, 'dev) kernel \<Rightarrow> ('pt, 'dev) kernel \<Rightarrow> bool" where
  "kernel_half_kept P s s' \<longleftrightarrow>
     CDT s' = CDT s \<and> HHDM_OFFSET s' = HHDM_OFFSET s \<and> phys_mem s' = phys_mem s \<and>
     (\<forall>page. USER_TOP \<le> unat page \<longrightarrow> address_space P s' page = address_space P s page)"

lemma kernel_half_kept_refl [simp]: "kernel_half_kept P s s"
  by (simp add: kernel_half_kept_def)

lemma kernel_half_kept_trans:
  "kernel_half_kept P s t \<Longrightarrow> kernel_half_kept P t u \<Longrightarrow> kernel_half_kept P s u"
  by (simp add: kernel_half_kept_def)

lemma kernel_inv_mem: "kernel_inv entries s \<Longrightarrow> mem_inv entries s"
  by (simp add: kernel_inv_def)

lemma is_safe_user_ptr_iff:
  "is_safe_user_ptr vaddr len \<longleftrightarrow> 0 < unat len \<and> unat vaddr + unat len < USER_TOP"
proof (cases "unat vaddr + unat len < 2 ^ 64")
  case True
  then have "unat (vaddr + len) = unat vaddr + unat len"
    by (intro unat_add_no_overflow) simp
  with True show ?thesis
    by (auto simp: is_safe_user_ptr_def saturating_add_def Let_def word_less_nat_alt)
next
  case False
  then have "saturating_add vaddr len = - 1" by (simp add: saturating_add_def)
  then have "\<not> is_safe_user_ptr vaddr len"
    using unat_u64_MAX by (simp add: is_safe_user_ptr_def Let_def word_less_nat_alt)
  with False show ?thesis by simp
qed

text \<open>A mapping at a user page of a booted kernel: what every mapping system call does.\<close>

lemma map_page_kept:
  assumes "paging_laws P entries" and inv: "kernel_inv entries s" and va: "unat virt < USER_TOP"
    and run: "map_page P phys virt flags s = Inr s'"
  shows "kernel_inv entries s' \<and> kernel_half_kept P s s'"
proof -
  have "unat virt < 2 ^ 47" using va by simp
  then obtain frame k where s': "mem_inv entries s'"
    "s' = s\<lparr>ALLOCATOR := ALLOCATOR s', MAPPER := MAPPER s'\<rparr>"
    "address_space P s' = address_space P s \<or>
     address_space P s' = (address_space P s)(page_floor virt \<mapsto> (frame, flags))"
    using map_page_result [OF assms(1) kernel_inv_mem [OF inv] _ run] by metis
  have same: "CDT s' = CDT s" "HHDM_OFFSET s' = HHDM_OFFSET s" "phys_mem s' = phys_mem s"
    "SCHEDULER s' = SCHEDULER s" "IRQ_MAILBOXES s' = IRQ_MAILBOXES s"
    by (subst s'(2), simp)+
  have "unat (page_floor virt) < USER_TOP"
    using page_floor_le [of virt] va by (simp add: word_le_nat_alt)
  then have "address_space P s' page = address_space P s page" if "USER_TOP \<le> unat page" for page
    using s'(3) that by auto
  with same inv s'(1) show ?thesis by (simp add: kernel_inv_def kernel_half_kept_def)
qed

lemma grant_frame_kept:
  assumes laws: "paging_laws P entries" and inv: "kernel_inv entries s" and va: "unat vaddr < USER_TOP"
    and run: "grant_frame P tid vaddr s = Inr (r, s')"
  shows "kernel_inv entries s' \<and> kernel_half_kept P s s'"
proof (cases "validate (CDT s) 0 \<lparr>token_id = tid, rights = RIGHT_GOD\<rparr>")
  case False
  then have "s' = say ''[!] IPC REJECTED: Invalid Security Token!\<newline>'' s"
    using run by (simp add: grant_frame_def)
  with inv show ?thesis by (simp add: kernel_inv_def kernel_half_kept_def mem_inv_def say_def address_space_def)
next
  case True
  then obtain f s1 where s1: "allocate_expect P ''FATAL: Out of Physical Memory!'' s = Inr (f, s1)"
    and map: "map_page P f vaddr {PRESENT, WRITABLE, USER_ACCESSIBLE} s1 = Inr s'"
    using run by (auto simp: grant_frame_def res_simps)
  obtain fa where fa: "s1 = s\<lparr>ALLOCATOR := fa\<rparr>" "fa_inv entries fa"
    using s1 bump.alloc_result [of entries "ALLOCATOR s"] laws inv
    by (auto simp: allocate_expect_def res_simps paging_laws_def kernel_inv_def mem_inv_def)
  have "kernel_inv entries s1" "kernel_half_kept P s s1"
    using fa inv by (simp_all add: kernel_inv_def mem_inv_def kernel_half_kept_def address_space_def)
  with map_page_kept [OF laws _ va map] kernel_half_kept_trans show ?thesis by blast
qed

text \<open>An invariant of the mapping loop.\<close>

lemma map_fb_loop_inv:
  assumes "map_fb_loop P phys_addr arg1 flags is s = Inr s'" "Q s"
    and step: "\<And>i phys virt s t. i \<in> set is \<Longrightarrow> Q s \<Longrightarrow> unat phys = unat phys_addr + unat i * 4096 \<Longrightarrow>
      unat virt = unat arg1 + unat i * 4096 \<Longrightarrow> map_page P phys virt flags s = Inr t \<Longrightarrow> Q t"
  shows "Q s'"
  using assms
proof (induction "is" arbitrary: s)
  case (Cons i "is")
  from Cons.prems(1) obtain s1 where
    chk: "unat i * 4096 < 2 ^ 64" "unat phys_addr + unat (i * 4096) < 2 ^ 64" "unat arg1 + unat (i * 4096) < 2 ^ 64"
    and run: "map_page P (phys_addr + i * 4096) (arg1 + i * 4096) flags s = Inr s1"
    "map_fb_loop P phys_addr arg1 flags is s1 = Inr s'"
    by (auto simp: res_simps)
  have off: "unat (i * 4096) = unat i * 4096"
    using chk(1) unat_mult_no_overflow [of i 4096] by simp
  have "unat (phys_addr + i * 4096) = unat phys_addr + unat i * 4096"
    "unat (arg1 + i * 4096) = unat arg1 + unat i * 4096"
    using chk(2,3) off by (simp_all add: unat_add_no_overflow)
  then have "Q s1" using Cons.prems(2,3) run(1) by (metis list.set_intros(1))
  then show ?case using Cons.IH [OF run(2)] Cons.prems(3) by (meson list.set_intros(2))
qed simp

text \<open>The framebuffer call, opened up to its loop.\<close>

lemma sys_map_fb_cases:
  assumes "sys_map_fb P arg1 s = Inr (r, s')"
  obtains (none) "s' = s" "r = 0 \<or> r = u64_MAX"
    | (mapped) phys_addr width height pitch "is" where
      "get_framebuffer_details P s = Some (phys_addr, width, height, pitch)"
      "unat height * unat pitch < 2 ^ 64" "unat (height * pitch) = unat height * unat pitch"
      "0 < unat height * unat pitch" "unat arg1 + unat height * unat pitch < USER_TOP"
      "r = push_bit 32 pitch OR height"
      "is = map of_nat [0..<(unat height * unat pitch + 4095) div 4096]"
      "\<And>i. i \<in> set is \<Longrightarrow> unat i * 4096 < unat height * unat pitch"
      "map_fb_loop P phys_addr arg1 {PRESENT, WRITABLE, USER_ACCESSIBLE, NO_CACHE} is s = Inr s'"
proof (cases "get_framebuffer_details P s")
  case None
  with assms none show ?thesis by (simp add: sys_map_fb_def)
next
  case (Some d)
  obtain phys_addr width height pitch where d: "d = (phys_addr, width, height, pitch)" by (cases d)
  have no: "unat height * unat pitch < 2 ^ 64"
    using assms Some d by (auto simp: sys_map_fb_def res_simps)
  have size: "unat (height * pitch) = unat height * unat pitch"
    using no unat_mult_no_overflow [of height pitch] by simp
  show ?thesis
  proof (cases "is_safe_user_ptr arg1 (height * pitch)")
    case False
    with assms Some d no none show ?thesis by (simp add: sys_map_fb_def mul_chk_def)
  next
    case True
    let ?n = "unat height * unat pitch"
    have safe: "0 < ?n" "unat arg1 + ?n < USER_TOP"
      using True unfolding is_safe_user_ptr_iff size by simp_all
    have u: "unat (height * pitch + 4095) = ?n + 4095"
      using safe(2) size by (subst unat_add_no_overflow) simp_all
    have pages: "unat ((height * pitch + 4095) div 4096) = (?n + 4095) div 4096"
      by (simp add: unat_div u)
    define "is" where "is = map (of_nat :: nat \<Rightarrow> u64) [0..<(?n + 4095) div 4096]"
    have in_range: "unat i * 4096 < ?n" if "i \<in> set is" for i
    proof -
      from that obtain k where k: "k < (?n + 4095) div 4096" "i = of_nat k" by (auto simp: is_def)
      then have "k * 4096 + 4096 \<le> ?n + 4095" by (simp add: less_div_page)
      moreover from this safe(2) have "unat i = k"
        unfolding k(2) by (intro unat_of_nat_small) simp
      ultimately show ?thesis by simp
    qed
    have "map_fb_loop P phys_addr arg1 {PRESENT, WRITABLE, USER_ACCESSIBLE, NO_CACHE} is s = Inr s'"
      "r = push_bit 32 pitch OR height"
      using assms Some d no True size safe(2)
      by (auto simp: sys_map_fb_def mul_chk_def add_chk_def Let_def pages is_def [symmetric] res_simps split: if_splits)
    with mapped Some d no size safe is_def in_range show ?thesis by blast
  qed
qed

section \<open>Every system call keeps the kernel's half\<close>

lemmas kept_defs = kernel_inv_def kernel_half_kept_def mem_inv_def address_space_def

lemma say_kept: "kernel_inv entries s \<Longrightarrow> kernel_inv entries (say m s) \<and> kernel_half_kept P s (say m s)"
  by (simp add: kept_defs say_def)

lemma serial_kept:
  "kernel_inv entries s \<Longrightarrow> kernel_inv entries (s\<lparr>serial := log\<rparr>) \<and> kernel_half_kept P s (s\<lparr>serial := log\<rparr>)"
  by (simp add: kept_defs)

lemma sys_grant_kept:
  assumes "paging_laws P entries" "kernel_inv entries s" "sys_grant P arg1 arg2 s = Inr (r, s')"
  shows "kernel_inv entries s' \<and> kernel_half_kept P s s'"
proof (cases "is_safe_user_ptr arg2 4096")
  case True
  then have "unat arg2 < USER_TOP" by (simp add: is_safe_user_ptr_iff)
  with True assms show ?thesis using grant_frame_kept [OF assms(1,2)] by (simp add: sys_grant_def)
qed (use assms in \<open>simp add: sys_grant_def\<close>)

lemma sys_iommu_kept:
  assumes "kernel_inv entries s" "sys_iommu arg1 arg2 s = Inr (r, s')"
  shows "kernel_inv entries s' \<and> kernel_half_kept P s s'"
  using assms by (auto simp: sys_iommu_def map_device_dma_def say_def kept_defs split: if_splits)

lemma sys_map_fb_kept:
  assumes laws: "paging_laws P entries" and inv: "kernel_inv entries s"
    and run: "sys_map_fb P arg1 s = Inr (r, s')"
  shows "kernel_inv entries s' \<and> kernel_half_kept P s s'"
  using run
proof (cases rule: sys_map_fb_cases)
  case none
  with inv show ?thesis by simp
next
  case (mapped phys_addr width height pitch "is")
  let ?fl = "{PRESENT, WRITABLE, USER_ACCESSIBLE, NO_CACHE}"
  show ?thesis
  proof (rule map_fb_loop_inv [OF mapped(9), where Q = "\<lambda>t. kernel_inv entries t \<and> kernel_half_kept P s t"])
    fix i phys virt t u
    assume i: "i \<in> set is" "unat virt = unat arg1 + unat i * 4096" "map_page P phys virt ?fl t = Inr u"
      and t: "kernel_inv entries t \<and> kernel_half_kept P s t"
    have "unat virt < USER_TOP" using mapped(5) mapped(8) [OF i(1)] i(2) by linarith
    with map_page_kept [OF laws _ _ i(3)] t kernel_half_kept_trans
    show "kernel_inv entries u \<and> kernel_half_kept P s u" by blast
  qed (simp add: inv)
qed

lemma batch_loop_kept:
  "kernel_inv entries s \<Longrightarrow> batch_loop P ptr is s = Inr s' \<Longrightarrow> kernel_inv entries s' \<and> kernel_half_kept P s s'"
proof (induction "is" arbitrary: s)
  case (Cons i "is")
  from Cons.prems(2) obtain s1 log where s1: "s1 = s\<lparr>serial := log\<rparr>" "batch_loop P ptr is s1 = Inr s'"
    by (auto simp: res_simps Let_def say_def)
  have "kernel_inv entries s1" "kernel_half_kept P s s1"
    using serial_kept [OF Cons.prems(1)] s1(1) by auto
  with Cons.IH s1(2) kernel_half_kept_trans show ?case by blast
qed simp

lemma sys_batch_kept:
  assumes "kernel_inv entries s" "sys_batch P arg1 arg2 s = Inr (r, s')"
  shows "kernel_inv entries s' \<and> kernel_half_kept P s s'"
proof -
  let ?m = "''\<newline>[*] IPC ROUTER: Processing Batched Syscalls...\<newline>''"
  have "s' = s \<or> batch_loop P arg1 (map of_nat [0..<unat arg2]) (say ?m s) = Inr s'"
    using assms(2) by (auto simp: sys_batch_def Let_def res_simps split: if_splits)
  then show ?thesis
  proof
    assume "batch_loop P arg1 (map of_nat [0..<unat arg2]) (say ?m s) = Inr s'"
    moreover have "kernel_inv entries (say ?m s)" "kernel_half_kept P s (say ?m s)"
      using say_kept [OF assms(1)] by auto
    ultimately show ?thesis using batch_loop_kept kernel_half_kept_trans by blast
  qed (use assms(1) in simp)
qed

lemma sys_spawn_kept:
  assumes "kernel_inv entries s" "sys_spawn_handler arg1 arg2 s = Inr (r, s')"
  shows "kernel_inv entries s' \<and> kernel_half_kept P s s'"
proof -
  have "sched_inv (SCHEDULER s)" using assms(1) by (simp add: kernel_inv_def)
  then obtain sched where "global_spawn_thread arg1 arg2 (SCHEDULER s) = Inr sched" "sched_inv sched"
    using global_spawn_thread_total by blast
  with assms show ?thesis by (auto simp: sys_spawn_handler_def kept_defs)
qed

lemma sys_port_in_devices: "\<exists>dev r. sys_port_in_handler P arg1 arg2 s = (r, s\<lparr>devices := dev\<rparr>)"
  by (cases s) (auto simp: sys_port_in_handler_def Let_def split: prod.split)

lemma sys_port_out_devices: "\<exists>dev r. sys_port_out_handler P arg1 arg2 s = (r, s\<lparr>devices := dev\<rparr>)"
  by (cases s) (auto simp: sys_port_out_handler_def Let_def)

lemma devices_kept:
  "kernel_inv entries s \<Longrightarrow> kernel_inv entries (s\<lparr>devices := d\<rparr>) \<and> kernel_half_kept P s (s\<lparr>devices := d\<rparr>)"
  by (simp add: kept_defs)

lemma sys_check_irq_kept:
  "kernel_inv entries s \<Longrightarrow> sys_check_irq_handler arg1 s = (r, s') \<Longrightarrow>
   kernel_inv entries s' \<and> kernel_half_kept P s s'"
  by (auto simp: sys_check_irq_handler_def Let_def kept_defs split: if_splits)

text \<open>Which handler a call that returned went through.\<close>

lemma syscall_cases:
  assumes "syscall_dispatcher P n arg1 arg2 s = Inr (r, s')"
  obtains (grant) "sys_grant P arg1 arg2 s = Inr (r, s')"
    | (iommu) "sys_iommu arg1 arg2 s = Inr (r, s')"
    | (framebuffer) "sys_map_fb P arg1 s = Inr (r, s')"
    | (batch) "sys_batch P arg1 arg2 s = Inr (r, s')"
    | (check_irq) "sys_check_irq_handler arg1 s = (r, s')"
    | (spawn) "sys_spawn_handler arg1 arg2 s = Inr (r, s')"
    | (port) d where "s' = s\<lparr>devices := d\<rparr>"
    | (mailbox) m where "s' = s\<lparr>GLOBAL_IPC_MAILBOX := m\<rparr>"
    | (unknown) m where "s' = say m s"
proof -
  obtain d1 r1 where "sys_port_in_handler P arg1 arg2 s = (r1, s\<lparr>devices := d1\<rparr>)"
    using sys_port_in_devices [of P arg1 arg2 s] by auto
  moreover obtain d2 r2 where "sys_port_out_handler P arg1 arg2 s = (r2, s\<lparr>devices := d2\<rparr>)"
    using sys_port_out_devices [of P arg1 arg2 s] by auto
  ultimately have "sys_grant P arg1 arg2 s = Inr (r, s') \<or> sys_iommu arg1 arg2 s = Inr (r, s') \<or>
      sys_map_fb P arg1 s = Inr (r, s') \<or> sys_batch P arg1 arg2 s = Inr (r, s') \<or>
      sys_check_irq_handler arg1 s = (r, s') \<or> sys_spawn_handler arg1 arg2 s = Inr (r, s') \<or>
      (\<exists>d. s' = s\<lparr>devices := d\<rparr>) \<or> (\<exists>m. s' = s\<lparr>GLOBAL_IPC_MAILBOX := m\<rparr>) \<or> (\<exists>m. s' = say m s)"
    using assms unfolding syscall_dispatcher_def by (simp split: if_split_asm) blast+
  then show ?thesis by (elim disjE exE) (rule that, assumption)+
qed

lemma syscall_kept:
  assumes laws: "paging_laws P entries" and inv: "kernel_inv entries s"
    and run: "syscall_dispatcher P n arg1 arg2 s = Inr (r, s')"
  shows "kernel_inv entries s' \<and> kernel_half_kept P s s'"
  using run
proof (cases rule: syscall_cases)
  case grant
  then show ?thesis by (rule sys_grant_kept [OF laws inv])
next
  case iommu
  then show ?thesis by (rule sys_iommu_kept [OF inv])
next
  case framebuffer
  then show ?thesis by (rule sys_map_fb_kept [OF laws inv])
next
  case batch
  then show ?thesis by (rule sys_batch_kept [OF inv])
next
  case check_irq
  then show ?thesis by (rule sys_check_irq_kept [OF inv])
next
  case spawn
  then show ?thesis by (rule sys_spawn_kept [OF inv])
qed (use inv in \<open>simp_all add: kept_defs say_def\<close>)

section \<open>Exclusive frames under system calls\<close>

text \<open>The framebuffer is device memory: it overlaps no usable frame.\<close>

definition framebuffer_outside :: "('pt, 'dev) hw_platform \<Rightarrow> mem_entry list \<Rightarrow> ('pt, 'dev) kernel \<Rightarrow> bool" where
  "framebuffer_outside P entries s \<longleftrightarrow>
     (case get_framebuffer_details P s of
        None \<Rightarrow> True
      | Some (phys_addr, width, height, pitch) \<Rightarrow>
          unat phys_addr + unat height * unat pitch \<le> 2 ^ 52 \<and>
          (\<forall>f \<in> set (all_frames entries).
             unat f + 4096 \<le> unat phys_addr \<or> unat phys_addr + unat height * unat pitch \<le> unat f))"

lemma sys_map_fb_exclusive:
  assumes laws: "paging_laws P entries" and inv: "kernel_inv entries s"
    and ex: "exclusive_frames P entries s" and fb: "framebuffer_outside P entries s"
    and run: "sys_map_fb P arg1 s = Inr (r, s')"
  shows "exclusive_frames P entries s'"
  using run
proof (cases rule: sys_map_fb_cases)
  case none
  with ex show ?thesis by simp
next
  case (mapped phys_addr width height pitch "is")
  let ?fl = "{PRESENT, WRITABLE, USER_ACCESSIBLE, NO_CACHE}" and ?n = "unat height * unat pitch"
  have out: "unat phys_addr + ?n \<le> 2 ^ 52"
    "\<And>f. f \<in> set (all_frames entries) \<Longrightarrow> unat f + 4096 \<le> unat phys_addr \<or> unat phys_addr + ?n \<le> unat f"
    using fb mapped(1) by (auto simp: framebuffer_outside_def)
  have "mem_inv entries s' \<and> exclusive_frames P entries s'"
  proof (rule map_fb_loop_inv [OF mapped(9), where Q = "\<lambda>t. mem_inv entries t \<and> exclusive_frames P entries t"])
    fix i phys virt t u
    assume i: "i \<in> set is" "unat phys = unat phys_addr + unat i * 4096"
        "unat virt = unat arg1 + unat i * 4096" "map_page P phys virt ?fl t = Inr u"
      and t: "mem_inv entries t \<and> exclusive_frames P entries t"
    have va: "unat virt < 2 ^ 47" using mapped(5) mapped(8) [OF i(1)] i(3) by simp
    have lt: "unat phys < unat phys_addr + ?n" using mapped(8) [OF i(1)] i(2) by simp
    then have frame: "phys_frame P phys = Some (page_floor phys)"
      using laws out(1) by (simp add: paging_laws_def address_laws_def)
    have pf: "unat (page_floor phys) \<le> unat phys" "unat phys < unat (page_floor phys) + 4096"
      unfolding unat_page_floor by (simp, linarith)
    have dev: "page_floor phys \<notin> set (all_frames entries)"
    proof
      assume "page_floor phys \<in> set (all_frames entries)"
      from out(2) [OF this] lt pf i(2) show False by linarith
    qed
    obtain frame k where u: "phys_frame P phys = Some frame" "mem_inv entries u"
      "free_frames entries u = drop k (free_frames entries t)"
      "address_space P u = address_space P t \<or>
       address_space P u = (address_space P t)(page_floor virt \<mapsto> (frame, ?fl))"
      using map_page_result [OF laws _ va i(4)] t by metis
    with frame dev t show "mem_inv entries u \<and> exclusive_frames P entries u"
      using exclusive_frames_device [of P entries t u "page_floor virt" "page_floor phys" ?fl k] by auto
  qed (use inv ex in \<open>simp add: kernel_inv_def\<close>)
  then show ?thesis by simp
qed

lemma exclusive_frames_cong:
  assumes "exclusive_frames P entries s" "ALLOCATOR s' = ALLOCATOR s" "MAPPER s' = MAPPER s"
  shows "exclusive_frames P entries s'"
  by (rule exclusive_frames_drop [OF assms(1), of _ 0]) (simp_all add: assms(2,3) address_space_def)

lemma batch_loop_memory:
  "batch_loop P ptr is s = Inr s' \<Longrightarrow> ALLOCATOR s' = ALLOCATOR s \<and> MAPPER s' = MAPPER s"
  by (induction "is" arbitrary: s) (auto simp: res_simps Let_def say_def)

lemma syscall_exclusive:
  assumes laws: "paging_laws P entries" and inv: "kernel_inv entries s"
    and ex: "exclusive_frames P entries s" and fb: "framebuffer_outside P entries s"
    and run: "syscall_dispatcher P n arg1 arg2 s = Inr (r, s')"
  shows "exclusive_frames P entries s'"
  using run
proof (cases rule: syscall_cases)
  case grant
  show ?thesis
  proof (cases "is_safe_user_ptr arg2 4096")
    case True
    then have "unat arg2 < 2 ^ 47" by (simp add: is_safe_user_ptr_iff)
    with grant True show ?thesis
      using grant_frame_exclusive [OF laws kernel_inv_mem [OF inv] _ _ ex] inv
      by (auto simp: sys_grant_def kernel_inv_def)
  qed (use grant ex in \<open>simp add: sys_grant_def\<close>)
next
  case framebuffer
  then show ?thesis by (rule sys_map_fb_exclusive [OF laws inv ex fb])
next
  case iommu
  then show ?thesis
    by (intro exclusive_frames_cong [OF ex])
      (auto simp: sys_iommu_def map_device_dma_def say_def split: if_splits)
next
  case batch
  then show ?thesis
    by (intro exclusive_frames_cong [OF ex])
      (auto simp: sys_batch_def Let_def res_simps dest!: batch_loop_memory split: if_splits)
next
  case check_irq
  then show ?thesis
    by (intro exclusive_frames_cong [OF ex]) (auto simp: sys_check_irq_handler_def Let_def split: if_splits)
next
  case spawn
  then show ?thesis
    by (intro exclusive_frames_cong [OF ex]) (auto simp: sys_spawn_handler_def res_simps)
qed (auto intro!: exclusive_frames_cong [OF ex] simp: say_def)

section \<open>Sequences of system calls\<close>

text \<open>
  The calls of all processes in the order in which they reach the kernel: the results, until one
  of them stops the kernel.
\<close>

type_synonym syscall = "u64 \<times> u64 \<times> u64"

fun run_syscalls :: "('pt, 'dev) hw_platform \<Rightarrow> syscall list \<Rightarrow> ('pt, 'dev) kernel \<Rightarrow>
    (u64 list \<times> ('pt, 'dev) kernel) res" where
  "run_syscalls P [] s = Inr ([], s)"
| "run_syscalls P ((n, arg1, arg2) # calls) s =
     bindE (syscall_dispatcher P n arg1 arg2 s) (\<lambda>(r, s).
     bindE (run_syscalls P calls s) (\<lambda>(rs, s).
     Inr (r # rs, s)))"

lemma framebuffer_outside_cong:
  assumes "HHDM_OFFSET s' = HHDM_OFFSET s" and out: "framebuffer_outside P entries s"
  shows "framebuffer_outside P entries s'"
proof -
  from assms(1) have "get_framebuffer_details P s' = get_framebuffer_details P s"
    unfolding get_framebuffer_details_def by (simp only:)
  with out show ?thesis unfolding framebuffer_outside_def by (simp only:)
qed

lemma framebuffer_outside_kept:
  "kernel_half_kept P s s' \<Longrightarrow> framebuffer_outside P entries s \<Longrightarrow> framebuffer_outside P entries s'"
  by (rule framebuffer_outside_cong) (simp add: kernel_half_kept_def)

lemma run_syscalls_induct:
  assumes "run_syscalls P calls s = Inr (rs, s')" "Q s"
    and "\<And>n arg1 arg2 s r t. Q s \<Longrightarrow> syscall_dispatcher P n arg1 arg2 s = Inr (r, t) \<Longrightarrow> Q t"
  shows "Q s'"
  using assms
proof (induction calls arbitrary: s rs)
  case (Cons c calls)
  obtain n a b where c: "c = (n, a, b)" by (cases c)
  from Cons.prems(1) c obtain r t rs' where
    "syscall_dispatcher P n a b s = Inr (r, t)" "run_syscalls P calls t = Inr (rs', s')"
    by (auto simp: res_simps)
  with Cons.IH [of t rs'] Cons.prems(2,3) show ?case by blast
qed simp

section \<open>A concrete kernel\<close>

definition example_hw :: "(flat_table, (u16 \<times> nat \<times> u32) list) hw_platform" where
  "example_hw =
     \<lparr>memmap_response = Some example_memmap, hhdm_response = Some 0xFFFF800000000000,
      cr3_start_address = 0x1000, offset_page_table = (\<lambda>l4 offset. Map.empty),
      virt_addr = Some, virt_addr_add = (\<lambda>a b. Some (a + b)),
      phys_frame = (\<lambda>a. Some (page_floor a)), virt_page = (\<lambda>a. Some (page_floor a)),
      map_to = flat_map_to, page_view = (\<lambda>pt. pt),
      framebuffer_response =
        Some [\<lparr>fb_addr = 0xFFFF800080000000, fb_width = 512, fb_height = 4, fb_pitch = 2048\<rparr>],
      port_in = (\<lambda>dev port size. (0xFA, dev)),
      port_out = (\<lambda>dev port size v. dev @ [(port, size, v)])\<rparr>"

definition example_kernel :: "(flat_table, (u16 \<times> nat \<times> u32) list) kernel" where
  "example_kernel =
     \<lparr>ALLOCATOR = frame_allocator_new, MAPPER = Some Map.empty, HHDM_OFFSET = 0xFFFF800000000000,
      CDT = genesis_cdt, serial = [], phys_mem = (\<lambda>_. 0), SCHEDULER = scheduler_new,
      GLOBAL_IPC_MAILBOX = 0, IRQ_MAILBOXES = replicate 256 0, SHOOTDOWN_ADDR = 0, SHOOTDOWN_ACK = 0,
      SUPERVISOR_MAILBOX = 0, devices = []\<rparr>"

lemma example_hw_laws: "paging_laws example_hw example_memmap"
proof -
  have "map_to_law example_hw example_memmap"
    by (rule flat_map_to_law) (simp_all add: example_hw_def)
  then show ?thesis
    by (simp add: paging_laws_def address_laws_def example_hw_def)
      (simp add: example_memmap_def entry_end_def)
qed

lemma example_kernel_inv: "kernel_inv example_memmap example_kernel"
  by (simp add: kernel_inv_def mem_inv_def example_kernel_def fa_inv_new wf_example_memmap sched_inv_new)

lemma example_kernel_frames: "free_frames example_memmap example_kernel = [0x101000, 0x102000, 0x200000, 0x201000]"
  by (simp add: example_kernel_def frames_left_new all_frames_example)

lemma example_kernel_exclusive: "exclusive_frames example_hw example_memmap example_kernel"
  unfolding exclusive_frames_def example_kernel_frames
  by (simp add: user_page_def address_space_def example_hw_def example_kernel_def)

lemma example_framebuffer_outside: "framebuffer_outside example_hw example_memmap example_kernel"
  by (simp add: framebuffer_outside_def get_framebuffer_details_def all_frames_example
      example_hw_def example_kernel_def saturating_sub_def)

section \<open>Properties\<close>

text \<open>
  \<open>is_safe_user_ptr\<close> accepts a range exactly when it is not empty, does not wrap around
  the address space and ends below 0x7FFFFFFFF000: every address from its first to one past its
  last byte is a lower half address.
\<close>

theorem is_safe_user_ptr_exact:
  "is_safe_user_ptr vaddr len \<longleftrightarrow>
     len \<noteq> 0 \<and> (\<forall>k \<le> unat len. unat (vaddr + of_nat k) = unat vaddr + k \<and> unat vaddr + k < 0x7FFFFFFFF000)"
proof
  assume "is_safe_user_ptr vaddr len"
  then have safe: "0 < unat len" "unat vaddr + unat len < USER_TOP" by (simp_all add: is_safe_user_ptr_iff)
  have "unat (vaddr + of_nat k) = unat vaddr + k" if "k \<le> unat len" for k
  proof -
    have "unat (of_nat k :: u64) = k" using that by (rule le_unat_uoi)
    then show ?thesis using that safe(2) unat_add_no_overflow [of vaddr "of_nat k"] by simp
  qed
  with safe show "len \<noteq> 0 \<and> (\<forall>k \<le> unat len. unat (vaddr + of_nat k) = unat vaddr + k \<and> unat vaddr + k < 0x7FFFFFFFF000)"
    by auto
next
  assume "len \<noteq> 0 \<and> (\<forall>k \<le> unat len. unat (vaddr + of_nat k) = unat vaddr + k \<and> unat vaddr + k < 0x7FFFFFFFF000)"
  then show "is_safe_user_ptr vaddr len" by (auto simp: is_safe_user_ptr_iff unat_gt_0)
qed

theorem is_safe_user_ptr_exact_witness: "is_safe_user_ptr 0x400000 4096 \<and> \<not> is_safe_user_ptr 0x7FFFFFFFE000 4096"
proof -
  have no: "\<not> (\<forall>k \<le> unat (4096::u64). unat ((0x7FFFFFFFE000::u64) + of_nat k) = unat (0x7FFFFFFFE000::u64) + k \<and>
      unat (0x7FFFFFFFE000::u64) + k < 0x7FFFFFFFF000)"
    by (intro notI) (drule spec [of _ 4096], simp)
  have "is_safe_user_ptr 0x400000 4096" by (simp add: is_safe_user_ptr_iff)
  moreover have "\<not> is_safe_user_ptr 0x7FFFFFFFE000 4096"
    using is_safe_user_ptr_exact [of "0x7FFFFFFFE000" 4096] no by blast
  ultimately show ?thesis by blast
qed

text \<open>A step invariant of the dispatcher is one of every run; the two that the properties below are about.\<close>

lemma run_syscalls_kept:
  assumes "paging_laws P entries" and "kernel_inv entries s" and "run_syscalls P calls s = Inr (rs, s')"
  shows "kernel_inv entries s' \<and> kernel_half_kept P s s'"
proof (rule run_syscalls_induct [OF assms(3)])
  fix n arg1 arg2 t r u
  assume t: "kernel_inv entries t \<and> kernel_half_kept P s t"
    and run: "syscall_dispatcher P n arg1 arg2 t = Inr (r, u)"
  show "kernel_inv entries u \<and> kernel_half_kept P s u"
    using t syscall_kept [OF assms(1) _ run] kernel_half_kept_trans by blast
qed (simp add: assms(2))

lemma run_syscalls_exclusive:
  assumes "paging_laws P entries" and "kernel_inv entries s" and "framebuffer_outside P entries s"
    and "exclusive_frames P entries s" and "run_syscalls P calls s = Inr (rs, s')"
  shows "exclusive_frames P entries s'"
proof -
  have "kernel_inv entries s' \<and> framebuffer_outside P entries s' \<and> exclusive_frames P entries s'"
  proof (rule run_syscalls_induct [OF assms(5)])
    fix n arg1 arg2 t r u
    assume t: "kernel_inv entries t \<and> framebuffer_outside P entries t \<and> exclusive_frames P entries t"
      and run: "syscall_dispatcher P n arg1 arg2 t = Inr (r, u)"
    show "kernel_inv entries u \<and> framebuffer_outside P entries u \<and> exclusive_frames P entries u"
      using t syscall_kept [OF assms(1) _ run] syscall_exclusive [OF assms(1) _ _ _ run]
        framebuffer_outside_kept by blast
  qed (use assms in blast)
  then show ?thesis by blast
qed

text \<open>
  C23. User mode cannot touch the kernel's half of the system: whatever sequence of system calls
  with whatever arguments is executed on a booted kernel, as long as it runs, the capability table,
  the direct map offset and every mapping of a page at or above 0x7FFFFFFFF000 stay as they are,
  and the kernel invariant (allocator, page table, thread table, mailboxes) holds.
\<close>

theorem syscalls_keep_kernel_half:
  assumes "paging_laws P entries" and "kernel_inv entries s"
    and "run_syscalls P calls s = Inr (rs, s')"
  shows "kernel_inv entries s' \<and> CDT s' = CDT s \<and> HHDM_OFFSET s' = HHDM_OFFSET s \<and>
    (\<forall>page. 0x7FFFFFFFF000 \<le> unat page \<longrightarrow> address_space P s' page = address_space P s page)"
  using run_syscalls_kept [OF assms] by (simp add: kernel_half_kept_def)

text \<open>Four calls on the example: a grant, a send, a receive and an unknown call.\<close>

lemma example_run:
  "\<exists>s'. run_syscalls example_hw [(1, 0, 0x400000), (9, 1, 77), (10, 1, 0), (99, 0, 0)] example_kernel =
     Inr ([0x400000, 0, 77, 0], s')"
proof -
  have cdt: "CDT example_kernel = genesis_cdt" by (simp add: example_kernel_def)
  have safe: "is_safe_user_ptr 0x400000 4096" by (simp add: is_safe_user_ptr_iff)
  obtain t where "grant_frame example_hw 0 0x400000 example_kernel = Inr (0x400000, t)"
    by (rule grant_frame_effect [OF example_hw_laws kernel_inv_mem [OF example_kernel_inv] cdt _
          example_kernel_frames, where vaddr = "0x400000"]) simp_all
  then show ?thesis by (simp add: syscall_dispatcher_def sys_grant_def safe)
qed

theorem syscalls_keep_kernel_half_witness:
  "\<exists>s'. run_syscalls example_hw [(1, 0, 0x400000), (9, 1, 77), (10, 1, 0), (99, 0, 0)] example_kernel =
      Inr ([0x400000, 0, 77, 0], s') \<and> kernel_inv example_memmap s' \<and> CDT s' = genesis_cdt"
proof -
  obtain s' where run: "run_syscalls example_hw [(1, 0, 0x400000), (9, 1, 77), (10, 1, 0), (99, 0, 0)] example_kernel =
      Inr ([0x400000, 0, 77, 0], s')" using example_run by blast
  have "CDT example_kernel = genesis_cdt" by (simp add: example_kernel_def)
  then show ?thesis
    using syscalls_keep_kernel_half [OF example_hw_laws example_kernel_inv run] run by simp
qed

text \<open>
  C24. Frames stay exclusive: under any sequence of system calls no frame that is still free
  becomes visible to user mode, and no frame of the usable memory becomes visible through two user
  pages, provided the framebuffer is device memory.
\<close>

theorem syscalls_keep_frames_exclusive:
  assumes "paging_laws P entries" and "kernel_inv entries s" and "framebuffer_outside P entries s"
    and "exclusive_frames P entries s" and "run_syscalls P calls s = Inr (rs, s')"
  shows "exclusive_frames P entries s'"
  using assms by (rule run_syscalls_exclusive)

theorem syscalls_keep_frames_exclusive_witness:
  "\<exists>rs s'. run_syscalls example_hw [(1, 0, 0x400000), (9, 1, 77), (10, 1, 0), (99, 0, 0)] example_kernel = Inr (rs, s') \<and>
     exclusive_frames example_hw example_memmap s'"
proof -
  obtain s' where run: "run_syscalls example_hw [(1, 0, 0x400000), (9, 1, 77), (10, 1, 0), (99, 0, 0)] example_kernel =
      Inr ([0x400000, 0, 77, 0], s')" using example_run by blast
  show ?thesis
    using syscalls_keep_frames_exclusive [OF example_hw_laws example_kernel_inv example_framebuffer_outside
        example_kernel_exclusive run] run by blast
qed



text \<open>
  A batch call whose count is \<open>2^61\<close> or more stops the kernel: \<open>count * 8\<close> overflows
  before the pointer check, whatever the pointer, the state and the caller.
\<close>

theorem batch_count_overflow_panics:
  assumes "2 ^ 61 \<le> unat count"
  shows "syscall_dispatcher P SYS_BATCH_EXECUTE ptr count s = Inl Arith_Overflow"
  using assms by (simp add: syscall_dispatcher_def sys_batch_def mul_chk_def)

theorem batch_count_overflow_panics_witness:
  "syscall_dispatcher example_hw SYS_BATCH_EXECUTE 0x400000 0x2000000000000000 example_kernel = Inl Arith_Overflow"
  by (rule batch_count_overflow_panics) simp

text \<open>
  A grant for the genesis token at an acceptable address stops the kernel when no frame is
  left: the call of a user process ends in the panic of \<open>expect\<close> instead of an error code.
\<close>

theorem grant_out_of_memory_panics:
  assumes "paging_laws P entries" and "kernel_inv entries s" and "free_frames entries s = []"
    and "is_safe_user_ptr vaddr 4096"
  shows "syscall_dispatcher P SYS_GRANT_SHARED_MEMORY 0 vaddr s =
    Inl (Expect_Failed ''FATAL: Out of Physical Memory!'')"
  using assms allocate_expect_Nil [OF assms(1) kernel_inv_mem [OF assms(2)] assms(3)]
  by (simp add: syscall_dispatcher_def sys_grant_def grant_frame_def kernel_inv_def validate_genesis)

theorem grant_out_of_memory_panics_witness:
  "syscall_dispatcher example_hw SYS_GRANT_SHARED_MEMORY 0 0x400000
     (example_kernel\<lparr>ALLOCATOR := \<lparr>region_index = 4, current_addr = 0\<rparr>\<rparr>) =
   Inl (Expect_Failed ''FATAL: Out of Physical Memory!'')"
proof (rule grant_out_of_memory_panics [OF example_hw_laws])
  let ?s = "example_kernel\<lparr>ALLOCATOR := \<lparr>region_index = 4, current_addr = 0\<rparr>\<rparr>"
  show "kernel_inv example_memmap ?s"
    using example_kernel_inv by (simp add: kernel_inv_def mem_inv_def fa_inv_def)
  show "free_frames example_memmap ?s = []"
    by (simp add: frames_left_def all_frames_def example_memmap_def)
qed (simp add: is_safe_user_ptr_iff)

text \<open>
  The IPC mailbox is a single slot shared by everyone: after any sequence of sends, to
  whatever targets, the first receive returns the last message (the others are lost) and the next
  one returns 0.
\<close>

theorem ipc_mailbox_keeps_last:
  "run_syscalls P (map (\<lambda>(target, m). (SYS_IPC_SEND, target, m)) (msgs @ [(target, m)]) @
      [(SYS_IPC_RECEIVE, a, b), (SYS_IPC_RECEIVE, c, d)]) s =
   Inr (replicate (Suc (length msgs)) 0 @ [m, 0], s\<lparr>GLOBAL_IPC_MAILBOX := 0\<rparr>)"
  by (induction msgs arbitrary: s) (auto simp: syscall_dispatcher_def)

end
