(* ===== verification/Cpu.thy ===== *)
theory Cpu
  imports Stardust_Prelude
begin

text \<open>
  One processor core and the assembly of the kernel: \<^verbatim>\<open>stardust/src/task/context.rs\<close>
  (\<open>switch_threads\<close>), \<^verbatim>\<open>task/process.rs\<close> (\<open>drop_to_user_mode\<close>),
  \<^verbatim>\<open>arch/x86_64/syscall.rs\<close> (\<open>configure_msrs\<close>, \<open>syscall_entry\<close>),
  \<^verbatim>\<open>arch/x86_64/gdt.rs\<close>, \<^verbatim>\<open>arch/x86_64/cpu.rs\<close> and the initialization order of
  \<^verbatim>\<open>arch/x86_64/mod.rs\<close>.

  The core is a record of its registers and of the memory it addresses; an assembly block is a list
  of instructions with their architectural meaning.  Memory is byte addressed; a 64-bit access is
  eight little-endian bytes, so that overlapping accesses are what they are on the machine.
\<close>

section \<open>64-bit memory accesses\<close>

type_synonym memory = "u64 \<Rightarrow> u8"

definition byte_of :: "u64 \<Rightarrow> nat \<Rightarrow> u8" where
  "byte_of v i = ucast (drop_bit (8 * i) v)"

definition join8 :: "(nat \<Rightarrow> u8) \<Rightarrow> u64" where
  "join8 b = ucast (b 0) OR push_bit 8 (ucast (b 1)) OR push_bit 16 (ucast (b 2)) OR
     push_bit 24 (ucast (b 3)) OR push_bit 32 (ucast (b 4)) OR push_bit 40 (ucast (b 5)) OR
     push_bit 48 (ucast (b 6)) OR push_bit 56 (ucast (b 7))"

definition load64 :: "u64 \<Rightarrow> memory \<Rightarrow> u64" where
  "load64 a m = join8 (\<lambda>i. m (a + of_nat i))"

definition store64 :: "u64 \<Rightarrow> u64 \<Rightarrow> memory \<Rightarrow> memory" where
  "store64 a v m = (\<lambda>x. if unat (x - a) < 8 then byte_of v (unat (x - a)) else m x)"

text \<open>Two eight-byte cells that do not overlap.\<close>

definition apart :: "u64 \<Rightarrow> u64 \<Rightarrow> bool" where
  "apart a b \<longleftrightarrow> 8 \<le> unat (a - b) \<and> 8 \<le> unat (b - a)"

lemma bit_push_byte_of:
  assumes "i < 8"
  shows "bit (push_bit (8 * i) (ucast (byte_of v i)) :: u64) n \<longleftrightarrow> n div 8 = i \<and> bit v n"
  using assms bit_imp_le_length [of v n] by (auto simp: byte_of_def bit_simps)

lemma join8_byte_of: "join8 (byte_of v) = v"
proof (rule bit_word_eqI)
  fix n assume n: "n < LENGTH(64)"
  note b = bit_push_byte_of [of _ v n]
  have "n div 8 < 8" using n by auto
  then have "n div 8 \<in> {0, 1, 2, 3, 4, 5, 6, 7}" by auto
  moreover have "bit (join8 (byte_of v)) n \<longleftrightarrow> n div 8 \<in> {0, 1, 2, 3, 4, 5, 6, 7} \<and> bit v n"
    using b [of 0] b [of 1] b [of 2] b [of 3] b [of 4] b [of 5] b [of 6] b [of 7]
    unfolding join8_def by (simp add: bit_or_iff) blast
  ultimately show "bit (join8 (byte_of v)) n = bit v n" by simp
qed

lemma join8_cong: "(\<And>i. i < 8 \<Longrightarrow> f i = g i) \<Longrightarrow> join8 f = join8 g"
  unfolding join8_def by simp

lemma load64_store64_same [simp]: "load64 a (store64 a v m) = v"
proof -
  have "load64 a (store64 a v m) = join8 (byte_of v)"
    unfolding load64_def by (rule join8_cong) (simp add: store64_def unat_of_nat_small)
  then show ?thesis by (simp add: join8_byte_of)
qed

lemma apart_cells:
  assumes "apart a b" "i < 8"
  shows "8 \<le> unat (b + of_nat i - a)"
proof (rule ccontr)
  assume "\<not> 8 \<le> unat (b + of_nat i - a)"
  then have lt: "unat (b - a + of_nat i) < 8" by (simp add: algebra_simps)
  have i: "unat (of_nat i :: u64) = i" using assms(2) by (intro unat_of_nat_small) simp
  have ge: "8 \<le> unat (b - a)" "8 \<le> unat (a - b)" using assms(1) by (simp_all add: apart_def)
  have "2 ^ 64 \<le> unat (b - a) + i"
  proof (rule ccontr)
    assume "\<not> 2 ^ 64 \<le> unat (b - a) + i"
    then have "unat (b - a + of_nat i) = unat (b - a) + i"
      using unat_add_no_overflow [of "b - a" "of_nat i"] i by simp
    with lt ge(1) show False by simp
  qed
  moreover have "unat (a - b) = 2 ^ 64 - unat (b - a)"
  proof -
    have "b \<noteq> a" using ge(1) by auto
    then show ?thesis using u64_unat_lt [of a] u64_unat_lt [of b]
      by (auto simp: unat_sub_if' word_unat_eq_iff)
  qed
  ultimately show False using ge(2) assms(2) by simp
qed

lemma load64_store64_apart: "apart a b \<Longrightarrow> load64 b (store64 a v m) = load64 b m"
  unfolding load64_def by (rule join8_cong) (simp add: store64_def leD [OF apart_cells])

lemma apart_sym: "apart a b \<longleftrightarrow> apart b a"
  by (auto simp: apart_def)

text \<open>Cells of one stack, at constant distance.\<close>

lemma apart_offsets [simp]:
  "apart (a - numeral k) (a - numeral l) \<longleftrightarrow>
     8 \<le> unat (numeral l - numeral k :: u64) \<and> 8 \<le> unat (numeral k - numeral l :: u64)"
  "apart a (a - numeral l) \<longleftrightarrow> 8 \<le> unat (numeral l :: u64) \<and> 8 \<le> unat (- numeral l :: u64)"
  "apart (a - numeral k) a \<longleftrightarrow> 8 \<le> unat (numeral k :: u64) \<and> 8 \<le> unat (- numeral k :: u64)"
  by (auto simp: apart_def)

section \<open>The core\<close>

datatype reg = RAX | RBX | RCX | RDX | RSI | RDI | RBP | RSP | R8 | R9 | R10 | R11 | R12 | R13 | R14 | R15

record core =
  regs :: "reg \<Rightarrow> u64"
  rip :: u64
  rflags :: u64
  cs :: u16
  ss :: u16
  tr :: "u16 option"           \<comment> \<open>task register: the loaded TSS selector\<close>
  gdtr :: "u64 option"         \<comment> \<open>the loaded descriptor table\<close>
  idtr :: "u8 list"            \<comment> \<open>the ten bytes of \<^verbatim>\<open>sidt\<close>/\<^verbatim>\<open>lidt\<close>\<close>
  CR0 :: u64
  CR4 :: u64
  MSR :: "u32 \<Rightarrow> u64"
  mem :: memory

text \<open>Registers that a function of the System V ABI preserves besides the stack pointer.\<close>

definition callee_saved :: "reg list" where
  "callee_saved = [RBX, RBP, R12, R13, R14, R15]"

abbreviation IF_bit :: nat where "IF_bit \<equiv> 9"
abbreviation TS_bit :: nat where "TS_bit \<equiv> 3"

section \<open>Instructions\<close>

definition push_value :: "u64 \<Rightarrow> core \<Rightarrow> core" where
  "push_value v c =
     (let sp = regs c RSP - 8 in c\<lparr>regs := (regs c)(RSP := sp), mem := store64 sp v (mem c)\<rparr>)"

definition pop_value :: "core \<Rightarrow> u64 \<times> core" where
  "pop_value c = (load64 (regs c RSP) (mem c), c\<lparr>regs := (regs c)(RSP := regs c RSP + 8)\<rparr>)"

datatype instr =
    Push reg
  | Pop reg
  | Mov reg reg          \<comment> \<open>\<^verbatim>\<open>mov dst, src\<close>\<close>
  | Store reg reg        \<comment> \<open>\<^verbatim>\<open>mov [dst], src\<close>\<close>
  | Ret

fun exec_instr :: "instr \<Rightarrow> core \<Rightarrow> core" where
  "exec_instr (Push r) c = push_value (regs c r) c"
| "exec_instr (Pop r) c = (let (v, c) = pop_value c in c\<lparr>regs := (regs c)(r := v)\<rparr>)"
| "exec_instr (Mov d r) c = c\<lparr>regs := (regs c)(d := regs c r)\<rparr>"
| "exec_instr (Store d r) c = c\<lparr>mem := store64 (regs c d) (regs c r) (mem c)\<rparr>"
| "exec_instr Ret c = (let (v, c) = pop_value c in c\<lparr>rip := v\<rparr>)"

fun exec :: "instr list \<Rightarrow> core \<Rightarrow> core" where
  "exec [] c = c"
| "exec (i # is) c = exec is (exec_instr i c)"

definition set_bit_of :: "nat \<Rightarrow> u64 \<Rightarrow> u64" where
  "set_bit_of n x = x OR push_bit n 1"

definition clear_bit_of :: "nat \<Rightarrow> u64 \<Rightarrow> u64" where
  "clear_bit_of n x = x AND NOT (push_bit n 1)"

definition cli :: "core \<Rightarrow> core" where
  "cli c = c\<lparr>rflags := clear_bit_of IF_bit (rflags c)\<rparr>"

definition sti :: "core \<Rightarrow> core" where
  "sti c = c\<lparr>rflags := set_bit_of IF_bit (rflags c)\<rparr>"

text \<open>
  \<^verbatim>\<open>iretq\<close> to an outer ring pops RIP, CS, RFLAGS, RSP and SS.  \<^verbatim>\<open>syscall\<close> and
  \<^verbatim>\<open>sysretq\<close> take the selectors from the STAR register and the flags mask from FMASK;
  neither touches the stack pointer.
\<close>

definition iretq :: "core \<Rightarrow> core" where
  "iretq c =
     (let (new_rip, c) = pop_value c; (new_cs, c) = pop_value c; (new_flags, c) = pop_value c;
          (new_rsp, c) = pop_value c; (new_ss, c) = pop_value c
      in c\<lparr>rip := new_rip, cs := ucast new_cs, rflags := new_flags, ss := ucast new_ss,
           regs := (regs c)(RSP := new_rsp)\<rparr>)"

abbreviation IA32_EFER :: u32 where "IA32_EFER \<equiv> 0xC0000080"
abbreviation IA32_STAR :: u32 where "IA32_STAR \<equiv> 0xC0000081"
abbreviation IA32_LSTAR :: u32 where "IA32_LSTAR \<equiv> 0xC0000082"
abbreviation IA32_FMASK :: u32 where "IA32_FMASK \<equiv> 0xC0000084"
abbreviation IA32_APIC_BASE :: u32 where "IA32_APIC_BASE \<equiv> 0x1B"

definition syscall_instr :: "u64 \<Rightarrow> core \<Rightarrow> core" where
  "syscall_instr next_rip c =
     (let sel = ucast (drop_bit 32 (MSR c IA32_STAR)) :: u16 in
      c\<lparr>regs := (regs c)(RCX := next_rip, R11 := rflags c), rip := MSR c IA32_LSTAR,
        rflags := rflags c AND NOT (MSR c IA32_FMASK), cs := sel AND 0xFFFC, ss := sel + 8\<rparr>)"

definition sysretq :: "core \<Rightarrow> core" where
  "sysretq c =
     (let sel = ucast (drop_bit 48 (MSR c IA32_STAR)) :: u16 in
      c\<lparr>rip := regs c RCX, rflags := (regs c R11 AND 0x3C7FD7) OR 2,
        cs := (sel + 16) OR 3, ss := (sel + 8) OR 3\<rparr>)"

section \<open>Model: context switch\<close>

definition switch_threads :: "instr list" where
  "switch_threads =
     [Push RBP, Push RBX, Push R12, Push R13, Push R14, Push R15,
      Store RDI RSP,
      Mov RSP RSI,
      Pop R15, Pop R14, Pop R13, Pop R12, Pop RBX, Pop RBP,
      Ret]"

section \<open>Model: control registers\<close>

definition set_task_switched :: "core \<Rightarrow> core" where
  "set_task_switched c = c\<lparr>CR0 := set_bit_of TS_bit (CR0 c)\<rparr>"

definition clear_task_switched :: "core \<Rightarrow> core" where
  "clear_task_switched c = c\<lparr>CR0 := clear_bit_of TS_bit (CR0 c)\<rparr>"

text \<open>\<open>Cr4Flags::PCID\<close>, \<open>OSFXSR\<close> and \<open>OSXMMEXCPT_ENABLE\<close> are bits 17, 9 and 10.\<close>

definition enable_pcid_ap :: "core \<Rightarrow> core" where
  "enable_pcid_ap c =
     (let flags = CR4 c; flags = set_bit_of 17 flags; flags = set_bit_of 9 flags; flags = set_bit_of 10 flags
      in c\<lparr>CR4 := flags\<rparr>)"

section \<open>Model: entering user mode\<close>

definition drop_to_user_mode :: "u64 \<Rightarrow> u64 \<Rightarrow> core \<Rightarrow> core" where
  "drop_to_user_mode entry_point stack_pointer c =
     (let USER_DATA_SEGMENT = 0x1B; USER_CODE_SEGMENT = 0x23; DEFAULT_RFLAGS = 0x202;
          c = set_task_switched c;
          c = cli c;
          c = push_value USER_DATA_SEGMENT c;
          c = push_value stack_pointer c;
          c = push_value DEFAULT_RFLAGS c;
          c = push_value USER_CODE_SEGMENT c;
          c = push_value entry_point c
      in iretq c)"

section \<open>Model: descriptor table\<close>

text \<open>
  \<open>GlobalDescriptorTable\<close> and the descriptors belong to the \<^verbatim>\<open>x86_64\<close> crate.  A
  descriptor of that crate is a code or data segment (one slot) or a system segment (two slots) and
  has a privilege level; \<open>add_entry\<close> returns the selector of the entry it appended.
\<close>

record ('gdt, 'desc) gdt_lib =
  gdt_new :: 'gdt
  add_entry :: "'gdt \<Rightarrow> 'desc \<Rightarrow> u16 \<times> 'gdt"
  kernel_code_segment :: 'desc
  kernel_data_segment :: 'desc
  user_data_segment :: 'desc
  user_code_segment :: 'desc
  tss_segment :: 'desc

record selectors =
  kernel_code :: u16
  kernel_data :: u16
  user_data :: u16
  user_code :: u16
  tss :: u16

definition GDT :: "('gdt, 'desc) gdt_lib \<Rightarrow> 'gdt \<times> selectors" where
  "GDT L =
     (let gdt = gdt_new L;
          (kc, gdt) = add_entry L gdt (kernel_code_segment L);
          (kd, gdt) = add_entry L gdt (kernel_data_segment L);
          (ud, gdt) = add_entry L gdt (user_data_segment L);
          (uc, gdt) = add_entry L gdt (user_code_segment L);
          (ts, gdt) = add_entry L gdt (tss_segment L)
      in (gdt, \<lparr>kernel_code = kc, kernel_data = kd, user_data = ud, user_code = uc, tss = ts\<rparr>))"

text \<open>The addresses at which the linker placed the table, the IDT and the entry stub.\<close>

record image =
  gdt_addr :: u64
  idt_image :: "u8 list"
  syscall_entry_addr :: u64

definition gdt_init :: "image \<Rightarrow> selectors \<Rightarrow> core \<Rightarrow> core" where
  "gdt_init img sel c = c\<lparr>gdtr := Some (gdt_addr img), cs := kernel_code sel, ss := kernel_data sel\<rparr>"

definition gdt_init_ap :: "image \<Rightarrow> selectors \<Rightarrow> u32 \<Rightarrow> core \<Rightarrow> core" where
  "gdt_init_ap img sel logical_id c =
     (let c = c\<lparr>gdtr := Some (gdt_addr img), cs := kernel_code sel, ss := kernel_data sel\<rparr> in
      if logical_id = 1 then c\<lparr>tr := Some (tss sel)\<rparr> else c)"

section \<open>Model: system call configuration\<close>

definition write_msr :: "u32 \<Rightarrow> u64 \<Rightarrow> core \<Rightarrow> core" where
  "write_msr m v c = c\<lparr>MSR := (MSR c)(m := v)\<rparr>"

definition configure_msrs :: "image \<Rightarrow> selectors \<Rightarrow> core \<Rightarrow> core res" where
  "configure_msrs img sel c =
     (let kernel_base = ucast (kernel_code sel) :: u64 in
      bindE (sub_chk (user_data sel) 8) (\<lambda>ub.
      let user_base = ucast ub :: u64;
          star_value = push_bit 48 user_base OR push_bit 32 kernel_base;
          c = write_msr IA32_EFER (MSR c IA32_EFER OR 1) c;
          c = write_msr IA32_STAR star_value c;
          c = write_msr IA32_LSTAR (syscall_entry_addr img) c;
          c = write_msr IA32_FMASK 0x200 c
      in Inr c))"

definition idt_init :: "image \<Rightarrow> core \<Rightarrow> core" where
  "idt_init img c = c\<lparr>idtr := idt_image img\<rparr>"

text \<open>\<open>syscall::init\<close> and \<open>syscall::init_ap\<close>\<close>

abbreviation syscall_init :: "image \<Rightarrow> selectors \<Rightarrow> core \<Rightarrow> core res" where "syscall_init \<equiv> configure_msrs"
abbreviation syscall_init_ap :: "image \<Rightarrow> selectors \<Rightarrow> core \<Rightarrow> core res" where "syscall_init_ap \<equiv> configure_msrs"

definition init_hardware :: "image \<Rightarrow> selectors \<Rightarrow> core \<Rightarrow> core res" where
  "init_hardware img sel c = syscall_init img sel (idt_init img (gdt_init img sel c))"

definition init_ap_hardware :: "image \<Rightarrow> selectors \<Rightarrow> u32 \<Rightarrow> core \<Rightarrow> core res" where
  "init_ap_hardware img sel logical_id c =
     syscall_init_ap img sel (idt_init img (gdt_init_ap img sel logical_id c))"

abbreviation init_ap_features :: "core \<Rightarrow> core" where "init_ap_features \<equiv> enable_pcid_ap"

text \<open>The hooks of \<^verbatim>\<open>arch/mod.rs\<close>, which pass on to the functions above.\<close>

abbreviation arch_init_hardware :: "image \<Rightarrow> selectors \<Rightarrow> core \<Rightarrow> core res" where "arch_init_hardware \<equiv> init_hardware"
abbreviation arch_init_ap_hardware :: "image \<Rightarrow> selectors \<Rightarrow> u32 \<Rightarrow> core \<Rightarrow> core res" where "arch_init_ap_hardware \<equiv> init_ap_hardware"
abbreviation arch_init_ap_features :: "core \<Rightarrow> core" where "arch_init_ap_features \<equiv> init_ap_features"

text \<open>
  The entry stub.  \<open>body\<close> is the compiled \<open>syscall_dispatcher\<close>, run on the core and on the
  rest of the kernel state; \<open>ret\<close> is the address after the \<^verbatim>\<open>call\<close>.
\<close>

definition syscall_entry :: "(core \<Rightarrow> 's \<Rightarrow> (core \<times> 's) res) \<Rightarrow> u64 \<Rightarrow> core \<Rightarrow> 's \<Rightarrow> (core \<times> 's) res" where
  "syscall_entry body ret c s =
     (let c = exec [Push RCX, Push R11, Push RBP, Push RBX, Push R12, Push R13, Push R14, Push R15] c;
          c = push_value ret c
      in bindE (body c s) (\<lambda>(c, s).
         let c = exec [Pop R15, Pop R14, Pop R13, Pop R12, Pop RBX, Pop RBP, Pop R11, Pop RCX] c
         in Inr (sysretq c, s)))"

section \<open>Model: a worker core before its loop\<close>

text \<open>The privileged part of \<open>lock_ap_as_worker\<close>; the FPU state (\<^verbatim>\<open>fninit\<close>) is not modelled.\<close>

definition worker_setup :: "image \<Rightarrow> selectors \<Rightarrow> u8 list \<Rightarrow> core \<Rightarrow> core res" where
  "worker_setup img sel GLOBAL_IDTR c =
     (let c = c\<lparr>idtr := GLOBAL_IDTR\<rparr> in
      bindE (configure_msrs img sel c) (\<lambda>c.
      let cr0 = CR0 c; cr0 = clear_bit_of 2 cr0; cr0 = set_bit_of 1 cr0; c = c\<lparr>CR0 := cr0\<rparr>;
          c = clear_task_switched c;
          cr4 = CR4 c; cr4 = set_bit_of 9 cr4; cr4 = set_bit_of 10 cr4; c = c\<lparr>CR4 := cr4\<rparr>;
          c = write_msr IA32_APIC_BASE (clear_bit_of 11 (MSR c IA32_APIC_BASE)) c
      in Inr (cli c)))"

section \<open>Executing the assembly\<close>

lemma stack_offsets [simp]:
  "(a::u64) - numeral k - numeral l = a - numeral (k + l)"
  "(a::u64) - numeral k + numeral l = a - (numeral k - numeral l)"
  "(a::u64) + numeral k + numeral l = a + numeral (k + l)"
  by (simp_all only: diff_diff_add add.assoc numeral_plus_numeral diff_diff_eq2 diff_add_eq)

lemmas instr_simps = push_value_def pop_value_def Let_def

lemma store64_outside: "8 \<le> unat (x - a) \<Longrightarrow> store64 a v m x = m x"
  by (simp add: store64_def)

text \<open>A byte outside of the \<open>n\<close> bytes below \<open>sp\<close> is in none of the cells there.\<close>

lemma outside_cell:
  assumes "n \<le> unat (x - (sp - of_nat n))" and "8 \<le> k" "k \<le> n" "n \<le> 64"
  shows "8 \<le> unat (x - (sp - of_nat k :: u64))"
proof -
  let ?d = "x - (sp - of_nat n :: u64)"
  have nk: "unat (of_nat (n - k) :: u64) = n - k" using assms by (intro unat_of_nat_small) simp
  have eq: "x - (sp - of_nat k) = ?d - of_nat (n - k)" using assms(3) by (simp add: of_nat_diff)
  have "unat (?d - of_nat (n - k)) = unat ?d - (n - k)"
    using assms nk by (intro unat_sub_if' [THEN trans]) simp
  then show ?thesis unfolding eq using assms by linarith
qed

lemma drop_to_user_mode_core:
  "regs (drop_to_user_mode e sp c) = (regs c)(RSP := sp)"
  "rip (drop_to_user_mode e sp c) = e"
  "rflags (drop_to_user_mode e sp c) = 0x202"
  "cs (drop_to_user_mode e sp c) = 0x23" "ss (drop_to_user_mode e sp c) = 0x1B"
  "CR0 (drop_to_user_mode e sp c) = set_bit_of TS_bit (CR0 c)"
  by (simp_all add: drop_to_user_mode_def iretq_def instr_simps cli_def set_task_switched_def load64_store64_apart)

lemma drop_to_user_mode_mem:
  assumes "40 \<le> unat (x - (regs c RSP - 40))"
  shows "mem (drop_to_user_mode e sp c) x = mem c x"
proof -
  have "8 \<le> unat (x - (regs c RSP - 40))" "8 \<le> unat (x - (regs c RSP - 32))" "8 \<le> unat (x - (regs c RSP - 24))"
    "8 \<le> unat (x - (regs c RSP - 16))" "8 \<le> unat (x - (regs c RSP - 8))"
    using assms outside_cell [of 40 x "regs c RSP" 32] outside_cell [of 40 x "regs c RSP" 24]
      outside_cell [of 40 x "regs c RSP" 16] outside_cell [of 40 x "regs c RSP" 8] by simp_all
  then show ?thesis
    by (simp add: drop_to_user_mode_def iretq_def instr_simps cli_def set_task_switched_def store64_outside)
qed

text \<open>The cells that a suspended thread keeps on its stack: its return address and six registers.\<close>

definition saved_cells :: "u64 \<Rightarrow> u64 list" where
  "saved_cells sp = [sp - 8, sp - 16, sp - 24, sp - 32, sp - 40, sp - 48]"

definition frame_cells :: "u64 \<Rightarrow> u64 list" where
  "frame_cells sp = sp # saved_cells sp"

lemma switch_threads_suspend:
  assumes "list_all (apart (regs c RDI)) (frame_cells (regs c RSP))"
  shows "map (\<lambda>a. load64 a (mem (exec switch_threads c))) (frame_cells (regs c RSP)) =
    load64 (regs c RSP) (mem c) # map (regs c) [RBP, RBX, R12, R13, R14, R15]"
    and "load64 (regs c RDI) (mem (exec switch_threads c)) = regs c RSP - 48"
  using assms
  by (simp_all add: switch_threads_def instr_simps frame_cells_def saved_cells_def load64_store64_apart)

text \<open>A switch to a stack on which the outgoing thread writes nothing.\<close>

lemma switch_threads_resume:
  assumes "list_all (apart (regs c RDI)) (frame_cells sp)"
    and "list_all (\<lambda>a. list_all (apart a) (frame_cells sp)) (saved_cells (regs c RSP))"
    and "regs c RSI = sp - 48"
  shows "regs (exec switch_threads c) RSP = sp + 8"
    and "rip (exec switch_threads c) # map (regs (exec switch_threads c)) [RBP, RBX, R12, R13, R14, R15] =
      map (\<lambda>a. load64 a (mem c)) (frame_cells sp)"
  using assms
  by (simp_all add: switch_threads_def instr_simps frame_cells_def saved_cells_def load64_store64_apart)

lemma load64_cong: "(\<And>i. i < 8 \<Longrightarrow> m (a + of_nat i) = m' (a + of_nat i)) \<Longrightarrow> load64 a m = load64 a m'"
  unfolding load64_def by (rule join8_cong)

lemma load64_kept:
  assumes "\<forall>x. unat (x - b) < 64 \<longrightarrow> m' x = m x" and "unat (a - b) \<le> 56"
  shows "load64 a m' = load64 a m"
proof (rule load64_cong)
  fix i :: nat assume "i < 8"
  then have "unat (a - b + of_nat i) = unat (a - b) + i"
    using assms(2) unat_add_no_overflow [of "a - b" "of_nat i"] unat_of_nat_small [of i, where 'w = 64] by simp
  then have "unat (a + of_nat i - b) = unat (a - b) + i" by (simp add: algebra_simps)
  with assms \<open>i < 8\<close> show "m' (a + of_nat i) = m (a + of_nat i)" by simp
qed

section \<open>System call round trip\<close>

text \<open>
  What the System V ABI promises of the compiled \<open>f\<close>: arguments in RDI, RSI and RDX, the result
  in RAX, the callee-saved registers and the caller's frame (the 64 bytes above the return address)
  kept, and a return that pops the return address.
\<close>

definition abi_call :: "(u64 \<Rightarrow> u64 \<Rightarrow> u64 \<Rightarrow> 's \<Rightarrow> (u64 \<times> 's) res) \<Rightarrow> (core \<Rightarrow> 's \<Rightarrow> (core \<times> 's) res) \<Rightarrow> bool" where
  "abi_call f body \<longleftrightarrow>
     (\<forall>c s. case f (regs c RDI) (regs c RSI) (regs c RDX) s of
        Inl e \<Rightarrow> body c s = Inl e
      | Inr (r, s') \<Rightarrow>
          (\<exists>c'. body c s = Inr (c', s') \<and> regs c' RAX = r \<and> regs c' RSP = regs c RSP + 8 \<and>
             list_all (\<lambda>r. regs c' r = regs c r) callee_saved \<and> MSR c' = MSR c \<and>
             (\<forall>x. unat (x - (regs c RSP + 8)) < 64 \<longrightarrow> mem c' x = mem c x)))"

lemma abi_callE:
  assumes "abi_call f body" "f (regs c RDI) (regs c RSI) (regs c RDX) s = Inr (r, s')"
  obtains c' where "body c s = Inr (c', s')" "regs c' RAX = r" "regs c' RSP = regs c RSP + 8"
    "list_all (\<lambda>r. regs c' r = regs c r) callee_saved" "MSR c' = MSR c"
    "\<forall>x. unat (x - (regs c RSP + 8)) < 64 \<longrightarrow> mem c' x = mem c x"
proof -
  have "case f (regs c RDI) (regs c RSI) (regs c RDX) s of
        Inl e \<Rightarrow> body c s = Inl e
      | Inr (r, s') \<Rightarrow>
          (\<exists>c'. body c s = Inr (c', s') \<and> regs c' RAX = r \<and> regs c' RSP = regs c RSP + 8 \<and>
             list_all (\<lambda>r. regs c' r = regs c r) callee_saved \<and> MSR c' = MSR c \<and>
             (\<forall>x. unat (x - (regs c RSP + 8)) < 64 \<longrightarrow> mem c' x = mem c x))"
    using assms(1) unfolding abi_call_def by blast
  then show ?thesis unfolding assms(2) sum.case prod.case by (elim exE conjE) (rule that)
qed

lemma syscall_entry_round_trip:
  assumes abi: "abi_call f body"
    and run: "f (regs c RDI) (regs c RSI) (regs c RDX) s = Inr (r, s')"
  obtains c' where "syscall_entry body ret c s = Inr (c', s')" "regs c' RAX = r"
    "regs c' RSP = regs c RSP" "list_all (\<lambda>r. regs c' r = regs c r) callee_saved"
    "rip c' = regs c RCX" "rflags c' = (regs c R11 AND 0x3C7FD7) OR 2"
    "load64 (regs c RSP - 24) (mem c') = regs c RBP"
proof -
  define c1 where
    "c1 = push_value ret (exec [Push RCX, Push R11, Push RBP, Push RBX, Push R12, Push R13, Push R14, Push R15] c)"
  let ?sp = "regs c RSP"
  have c1: "regs c1 = (regs c)(RSP := ?sp - 72)" by (simp add: c1_def instr_simps fun_eq_iff)
  from run have "f (regs c1 RDI) (regs c1 RSI) (regs c1 RDX) s = Inr (r, s')" by (simp add: c1)
  then obtain c2 where c2: "body c1 s = Inr (c2, s')" "regs c2 RAX = r" "regs c2 RSP = ?sp - 64"
      and kept: "\<forall>x. unat (x - (?sp - 64)) < 64 \<longrightarrow> mem c2 x = mem c1 x"
    by (rule abi_callE [OF abi]) (simp add: c1)
  note k = load64_kept [OF kept]
  have cells: "load64 (?sp - 8) (mem c2) = regs c RCX" "load64 (?sp - 16) (mem c2) = regs c R11"
    "load64 (?sp - 24) (mem c2) = regs c RBP" "load64 (?sp - 32) (mem c2) = regs c RBX"
    "load64 (?sp - 40) (mem c2) = regs c R12" "load64 (?sp - 48) (mem c2) = regs c R13"
    "load64 (?sp - 56) (mem c2) = regs c R14" "load64 (?sp - 64) (mem c2) = regs c R15"
    by (subst k, simp, simp add: c1_def instr_simps load64_store64_apart)+
  have entry: "syscall_entry body ret c s =
      Inr (sysretq (exec [Pop R15, Pop R14, Pop R13, Pop R12, Pop RBX, Pop RBP, Pop R11, Pop RCX] c2), s')"
    unfolding syscall_entry_def Let_def c1_def [symmetric] c2(1) bindE_Inr prod.case ..
  show ?thesis
    by (rule that [OF entry])
      (use c2(2,3) cells in \<open>simp_all add: sysretq_def callee_saved_def instr_simps\<close>)
qed

section \<open>Selectors\<close>

text \<open>
  The documented behaviour of \<open>add_entry\<close>: slot 0 is the null descriptor, entries are appended in
  order, a code or data segment takes one of the eight slots and a system segment two, and the selector
  is the index of the entry with the privilege level of the descriptor in its low bits.
\<close>

definition gdt_laws :: "('gdt, 'desc) gdt_lib \<Rightarrow> ('gdt \<Rightarrow> nat) \<Rightarrow> ('desc \<Rightarrow> nat \<times> u16) \<Rightarrow> bool" where
  "gdt_laws L used kind \<longleftrightarrow>
     used (gdt_new L) = 1 \<and>
     (\<forall>g d. used g + fst (kind d) \<le> 8 \<longrightarrow>
        fst (add_entry L g d) = of_nat (8 * used g) OR snd (kind d) \<and>
        used (snd (add_entry L g d)) = used g + fst (kind d)) \<and>
     kind (kernel_code_segment L) = (1, 0) \<and> kind (kernel_data_segment L) = (1, 0) \<and>
     kind (user_data_segment L) = (1, 3) \<and> kind (user_code_segment L) = (1, 3) \<and>
     kind (tss_segment L) = (2, 0)"

lemma add_entryE:
  assumes "gdt_laws L used kind" and "used g + fst (kind d) \<le> 8"
  obtains g' where "add_entry L g d = (of_nat (8 * used g) OR snd (kind d), g')" "used g' = used g + fst (kind d)"
  using assms unfolding gdt_laws_def by (metis prod.collapse)

lemma GDT_selectors:
  assumes "gdt_laws L used kind"
  shows "snd (GDT L) = \<lparr>kernel_code = 0x08, kernel_data = 0x10, user_data = 0x1B, user_code = 0x23, tss = 0x28\<rparr>"
proof -
  have k: "used (gdt_new L) = 1" "kind (kernel_code_segment L) = (1, 0)" "kind (kernel_data_segment L) = (1, 0)"
    "kind (user_data_segment L) = (1, 3)" "kind (user_code_segment L) = (1, 3)" "kind (tss_segment L) = (2, 0)"
    using assms by (simp_all add: gdt_laws_def)
  obtain g1 where g1: "add_entry L (gdt_new L) (kernel_code_segment L) = (0x08, g1)" "used g1 = 2"
    by (rule add_entryE [OF assms, of "gdt_new L" "kernel_code_segment L"]) (simp_all add: k)
  obtain g2 where g2: "add_entry L g1 (kernel_data_segment L) = (0x10, g2)" "used g2 = 3"
    by (rule add_entryE [OF assms, of g1 "kernel_data_segment L"]) (simp_all add: k g1)
  obtain g3 where g3: "add_entry L g2 (user_data_segment L) = (0x1B, g3)" "used g3 = 4"
    by (rule add_entryE [OF assms, of g2 "user_data_segment L"]) (simp_all add: k g2)
  obtain g4 where g4: "add_entry L g3 (user_code_segment L) = (0x23, g4)" "used g4 = 5"
    by (rule add_entryE [OF assms, of g3 "user_code_segment L"]) (simp_all add: k g3)
  obtain g5 where g5: "add_entry L g4 (tss_segment L) = (0x28, g5)"
    by (rule add_entryE [OF assms, of g4 "tss_segment L"]) (simp_all add: k g4)
  show ?thesis by (simp add: GDT_def Let_def g1 g2 g3 g4 g5)
qed

section \<open>A concrete core and descriptor table\<close>

definition example_core :: core where
  "example_core =
     \<lparr>regs = (\<lambda>r. 0)(RSP := 0x8000, RDI := 0x100, RSI := 0x9000), rip = 0, rflags = 2, cs = 0, ss = 0,
      tr = None, gdtr = None, idtr = [], CR0 = 0, CR4 = 0, MSR = (\<lambda>_. 0), mem = (\<lambda>_. 0)\<rparr>"

definition example_gdt :: "((nat \<times> u16) list, nat \<times> u16) gdt_lib" where
  "example_gdt =
     \<lparr>gdt_new = [(1, 0)], add_entry = (\<lambda>g d. (of_nat (8 * sum_list (map fst g)) OR snd d, g @ [d])),
      kernel_code_segment = (1, 0), kernel_data_segment = (1, 0), user_data_segment = (1, 3),
      user_code_segment = (1, 3), tss_segment = (2, 0)\<rparr>"

lemma example_gdt_laws: "gdt_laws example_gdt (\<lambda>g. sum_list (map fst g)) (\<lambda>d. d)"
  by (simp add: gdt_laws_def example_gdt_def)

section \<open>Properties\<close>

text \<open>
  \<open>drop_to_user_mode\<close> enters ring 3 at the given entry point on the given stack, with
  interrupts enabled and the lazy FPU trap armed (TS set); every other register keeps its value and
  nothing but the 40 bytes below the kernel's stack pointer is written.
\<close>

theorem drop_to_user_mode_enters_ring3:
  "rip (drop_to_user_mode entry sp c) = entry \<and>
   regs (drop_to_user_mode entry sp c) = (regs c)(RSP := sp) \<and>
   cs (drop_to_user_mode entry sp c) AND 3 = 3 \<and> ss (drop_to_user_mode entry sp c) AND 3 = 3 \<and>
   bit (rflags (drop_to_user_mode entry sp c)) IF_bit \<and> bit (CR0 (drop_to_user_mode entry sp c)) TS_bit \<and>
   (\<forall>x. mem (drop_to_user_mode entry sp c) x = mem c x \<or> unat (x - (regs c RSP - 40)) < 40)"
proof -
  have "mem (drop_to_user_mode entry sp c) x = mem c x \<or> unat (x - (regs c RSP - 40)) < 40" for x
    using drop_to_user_mode_mem [of x c entry sp] by linarith
  then show ?thesis
    by (simp add: drop_to_user_mode_core set_bit_of_def bit_simps)
qed

text \<open>
  C28. A thread that switches away and is switched back to continues where it was: if nobody wrote to
  the seven cells of its frame in between (the incoming switch included), it resumes at the return
  address of its call with its stack pointer behind it and with all callee-saved registers restored.
\<close>

theorem switch_threads_resumes:
  assumes "list_all (apart (regs c RDI)) (frame_cells (regs c RSP))"
    and "map (\<lambda>a. load64 a (mem d)) (frame_cells (regs c RSP)) =
      map (\<lambda>a. load64 a (mem (exec switch_threads c))) (frame_cells (regs c RSP))"
    and "regs d RSI = load64 (regs c RDI) (mem (exec switch_threads c))"
    and "list_all (apart (regs d RDI)) (frame_cells (regs c RSP))"
    and "list_all (\<lambda>a. list_all (apart a) (frame_cells (regs c RSP))) (saved_cells (regs d RSP))"
  shows "rip (exec switch_threads d) = load64 (regs c RSP) (mem c) \<and>
    regs (exec switch_threads d) RSP = regs c RSP + 8 \<and>
    map (regs (exec switch_threads d)) callee_saved = map (regs c) callee_saved"
proof -
  have "regs d RSI = regs c RSP - 48" using assms(1,3) by (simp add: switch_threads_suspend)
  note r = switch_threads_resume [OF assms(4,5) this]
  have "rip (exec switch_threads d) # map (regs (exec switch_threads d)) [RBP, RBX, R12, R13, R14, R15] =
      load64 (regs c RSP) (mem c) # map (regs c) [RBP, RBX, R12, R13, R14, R15]"
    unfolding r(2) assms(2) by (rule switch_threads_suspend(1) [OF assms(1)])
  with r(1) show ?thesis by (simp add: callee_saved_def)
qed

theorem switch_threads_resumes_witness:
  "let c = example_core; d = (exec switch_threads c)\<lparr>regs := (\<lambda>r. 7)(RSP := 0x9000, RDI := 0x200, RSI := 0x7FD0)\<rparr>
   in rip (exec switch_threads d) = load64 0x8000 (mem c) \<and> regs (exec switch_threads d) RSP = 0x8008 \<and>
      regs (exec switch_threads d) RBX = 0"
proof -
  let ?c = example_core
  let ?d = "(exec switch_threads ?c)\<lparr>regs := (\<lambda>r. 7)(RSP := 0x9000, RDI := 0x200, RSI := 0x7FD0)\<rparr>"
  have sp: "regs ?c RSP = 0x8000" "regs ?c RDI = 0x100" by (simp_all add: example_core_def)
  have apart: "list_all (apart (regs ?c RDI)) (frame_cells (regs ?c RSP))"
    by (simp add: sp frame_cells_def saved_cells_def apart_def)
  have "rip (exec switch_threads ?d) = load64 (regs ?c RSP) (mem ?c) \<and>
      regs (exec switch_threads ?d) RSP = regs ?c RSP + 8 \<and>
      map (regs (exec switch_threads ?d)) callee_saved = map (regs ?c) callee_saved"
  proof (rule switch_threads_resumes [OF apart])
    show "regs ?d RSI = load64 (regs ?c RDI) (mem (exec switch_threads ?c))"
      unfolding switch_threads_suspend(2) [OF apart] by (simp add: sp)
  qed (simp_all add: sp frame_cells_def saved_cells_def apart_def)
  then show ?thesis unfolding Let_def sp by (simp add: callee_saved_def example_core_def)
qed

text \<open>
  Every way into and out of user mode uses the selectors of the descriptor table: with the
  configured registers \<^verbatim>\<open>syscall\<close> loads the kernel segments and \<^verbatim>\<open>sysretq\<close> the
  user segments, which are the constants that \<open>drop_to_user_mode\<close> hard-codes; the entry point is
  \<open>syscall_entry\<close>, which runs with interrupts off.
\<close>

theorem selectors_agree:
  assumes "gdt_laws L used kind"
  shows "\<exists>c'. configure_msrs img (snd (GDT L)) c = Inr c' \<and>
    cs (syscall_instr a c') = kernel_code (snd (GDT L)) \<and> ss (syscall_instr a c') = kernel_data (snd (GDT L)) \<and>
    rip (syscall_instr a c') = syscall_entry_addr img \<and> \<not> bit (rflags (syscall_instr a c')) IF_bit \<and>
    cs (sysretq c') = user_code (snd (GDT L)) \<and> ss (sysretq c') = user_data (snd (GDT L)) \<and>
    cs (drop_to_user_mode entry sp c') = user_code (snd (GDT L)) \<and>
    ss (drop_to_user_mode entry sp c') = user_data (snd (GDT L))"
proof -
  have "(0x200 :: u64) = push_bit 9 1" by simp
  then have "\<not> bit (x AND NOT 0x200) IF_bit" for x :: u64 by (simp only: bit_simps) simp
  then show ?thesis
    by (simp add: GDT_selectors [OF assms] configure_msrs_def sub_chk_def Let_def write_msr_def
        syscall_instr_def sysretq_def drop_to_user_mode_core)
qed

theorem selectors_agree_witness:
  "\<exists>c'. configure_msrs \<lparr>gdt_addr = 0, idt_image = [], syscall_entry_addr = 0x1000\<rparr> (snd (GDT example_gdt)) example_core = Inr c' \<and>
    cs (sysretq c') = 0x23"
proof -
  have "user_code (snd (GDT example_gdt)) = 0x23"
    unfolding GDT_selectors [OF example_gdt_laws] by simp
  then show ?thesis
    using selectors_agree [OF example_gdt_laws,
        of "\<lparr>gdt_addr = 0, idt_image = [], syscall_entry_addr = 0x1000\<rparr>" example_core]
    by metis
qed

end
