(* ===== verification/Interrupts.thy ===== *)
theory Interrupts
  imports Syscall Cpu
begin

text \<open>
  Interrupts: \<^verbatim>\<open>stardust/src/arch/x86_64/apic.rs\<close> (local and I/O APIC, TLB shootdown) and
  \<^verbatim>\<open>arch/x86_64/idt.rs\<close> (descriptor table, exception and interrupt handlers, mailboxes).

  A handler runs on one core: its state is the record \<open>machine\<close>, the kernel's statics, the
  registers of the core and the log of volatile writes to device registers in program order.  The
  shootdown is a protocol between cores and is a step relation.
\<close>

section \<open>Model: APIC registers\<close>

record ('pt, 'dev) machine =
  kern :: "('pt, 'dev) kernel"
  cpu :: core
  bus :: "(u64 \<times> u32) list"

definition on_kern :: "(('pt, 'dev) kernel \<Rightarrow> ('pt, 'dev) kernel) \<Rightarrow> ('pt, 'dev) machine \<Rightarrow> ('pt, 'dev) machine" where
  "on_kern f m = m\<lparr>kern := f (kern m)\<rparr>"

text \<open>\<open>core::ptr::write_volatile\<close> of a \<open>u32\<close> (the development profile checks the pointer).\<close>

definition write_volatile :: "u64 \<Rightarrow> u32 \<Rightarrow> ('pt, 'dev) machine \<Rightarrow> ('pt, 'dev) machine res" where
  "write_volatile ptr value m =
     (if ptr = 0 \<or> unat ptr mod 4 \<noteq> 0 then Inl (Bad_Pointer ptr) else Inr (m\<lparr>bus := bus m @ [(ptr, value)]\<rparr>))"

definition get_apic_base :: "('pt, 'dev) machine \<Rightarrow> u64 res" where
  "get_apic_base m =
     (let base_val = MSR (cpu m) IA32_APIC_BASE;
          phys_base = base_val AND 0xFFFFFFFFFFFFF000;
          hhdm = HHDM_OFFSET (kern m)
      in add_chk phys_base hhdm)"

definition apic_write :: "u64 \<Rightarrow> u32 \<Rightarrow> ('pt, 'dev) machine \<Rightarrow> ('pt, 'dev) machine res" where
  "apic_write register_offset value m =
     bindE (get_apic_base m) (\<lambda>base. bindE (add_chk base register_offset) (\<lambda>ptr. write_volatile ptr value m))"

definition setup_apic_registers :: "('pt, 'dev) machine \<Rightarrow> ('pt, 'dev) machine res" where
  "setup_apic_registers m =
     bindE (apic_write 0xF0 (0x100 OR 0xFF) m) (\<lambda>m.
     bindE (apic_write 0x3E0 0x03 m) (\<lambda>m.
     bindE (apic_write 0x320 (32 OR 0x20000) m) (\<lambda>m.
     apic_write 0x380 10000000 m)))"

definition write_ioapic :: "u64 \<Rightarrow> u32 \<Rightarrow> u32 \<Rightarrow> ('pt, 'dev) machine \<Rightarrow> ('pt, 'dev) machine res" where
  "write_ioapic base_addr reg value m =
     bindE (write_volatile base_addr reg m) (\<lambda>m. write_volatile (base_addr + 4 * 4) value m)"

definition map_page_m :: "('pt, 'dev) hw_platform \<Rightarrow> u64 \<Rightarrow> u64 \<Rightarrow> page_flags \<Rightarrow> ('pt, 'dev) machine \<Rightarrow>
    ('pt, 'dev) machine res" where
  "map_page_m P phys virt flags m = bindE (map_page P phys virt flags (kern m)) (\<lambda>s. Inr (m\<lparr>kern := s\<rparr>))"

definition init_ioapic :: "('pt, 'dev) hw_platform \<Rightarrow> ('pt, 'dev) machine \<Rightarrow> ('pt, 'dev) machine res" where
  "init_ioapic P m =
     (let ioapic_phys = 0xFEC00000 in
      bindE (add_chk ioapic_phys (HHDM_OFFSET (kern m))) (\<lambda>ioapic_virt.
      bindE (map_page_m P ioapic_phys ioapic_virt {PRESENT, WRITABLE, NO_CACHE} m) (\<lambda>m.
      bindE (write_ioapic ioapic_virt (0x10 + (1 * 2)) 33 m) (\<lambda>m.
      bindE (write_ioapic ioapic_virt (0x10 + (1 * 2) + 1) 0 m) (\<lambda>m.
      Inr (on_kern (say ''[+] I/O APIC Hardware Router configured.\<newline>'') m))))))"

definition out_byte :: "('pt, 'dev) hw_platform \<Rightarrow> u16 \<Rightarrow> u8 \<Rightarrow> ('pt, 'dev) kernel \<Rightarrow> ('pt, 'dev) kernel" where
  "out_byte P port v s = s\<lparr>devices := port_out P (devices s) port 1 (ucast v)\<rparr>"

definition apic_init :: "('pt, 'dev) hw_platform \<Rightarrow> ('pt, 'dev) machine \<Rightarrow> ('pt, 'dev) machine res" where
  "apic_init P m =
     (let m = on_kern (say ''[*] Terminating legacy IBM PIC chips...\<newline>'') m;
          m = on_kern (out_byte P 0x21 0xFF) m;
          m = on_kern (out_byte P 0xA1 0xFF) m;
          m = on_kern (say ''[*] Booting modern Local APIC timer...\<newline>'') m;
          base_val = MSR (cpu m) IA32_APIC_BASE;
          phys_base = base_val AND 0xFFFFFFFFFFFFF000;
          hhdm = HHDM_OFFSET (kern m)
      in bindE (add_chk phys_base hhdm) (\<lambda>virt_base.
         bindE (map_page_m P phys_base virt_base {PRESENT, WRITABLE, NO_CACHE} m) (\<lambda>m.
         bindE (setup_apic_registers m) (\<lambda>m.
         bindE (init_ioapic P m) (\<lambda>m.
         Inr (on_kern (say ''[+] Local APIC Heartbeat ignited.\<newline>'') m))))))"

definition apic_init_ap :: "('pt, 'dev) machine \<Rightarrow> ('pt, 'dev) machine res" where
  "apic_init_ap m = setup_apic_registers m"

text \<open>\<open>init_apic\<close> and \<open>init_ap_apic\<close> of \<^verbatim>\<open>arch/x86_64/mod.rs\<close>, and the hooks of \<^verbatim>\<open>arch/mod.rs\<close>\<close>

abbreviation init_apic :: "('pt, 'dev) hw_platform \<Rightarrow> ('pt, 'dev) machine \<Rightarrow> ('pt, 'dev) machine res" where "init_apic \<equiv> apic_init"
abbreviation init_ap_apic :: "('pt, 'dev) machine \<Rightarrow> ('pt, 'dev) machine res" where "init_ap_apic \<equiv> apic_init_ap"
abbreviation arch_init_apic :: "('pt, 'dev) hw_platform \<Rightarrow> ('pt, 'dev) machine \<Rightarrow> ('pt, 'dev) machine res" where "arch_init_apic \<equiv> init_apic"
abbreviation arch_init_ap_apic :: "('pt, 'dev) machine \<Rightarrow> ('pt, 'dev) machine res" where "arch_init_ap_apic \<equiv> init_ap_apic"

definition end_of_interrupt :: "('pt, 'dev) machine \<Rightarrow> ('pt, 'dev) machine res" where
  "end_of_interrupt m = apic_write 0xB0 0 m"

section \<open>Model: interrupt and exception handlers\<close>

datatype handler =
    Breakpoint_Handler | Double_Fault_Handler | Gpf_Handler | Page_Fault_Handler
  | Device_Not_Available_Handler | Invalid_Opcode_Handler
  | Timer_Interrupt_Handler | Tlb_Shootdown_Handler | Generic_Irq_Handler_33 | Spurious_Handler

abbreviation TIMER_INTERRUPT_ID :: nat where "TIMER_INTERRUPT_ID \<equiv> 32"
abbreviation KEYBOARD_INTERRUPT_VECTOR :: nat where "KEYBOARD_INTERRUPT_VECTOR \<equiv> 33"
abbreviation TLB_SHOOTDOWN_VECTOR :: nat where "TLB_SHOOTDOWN_VECTOR \<equiv> 251"
abbreviation SPURIOUS_INTERRUPT_ID :: nat where "SPURIOUS_INTERRUPT_ID \<equiv> 255"

text \<open>The table: exception vectors by their architectural numbers, interrupts by the constants.\<close>

definition IDT :: "nat \<rightharpoonup> handler" where
  "IDT = Map.empty(3 \<mapsto> Breakpoint_Handler, 8 \<mapsto> Double_Fault_Handler, 13 \<mapsto> Gpf_Handler,
     14 \<mapsto> Page_Fault_Handler, 7 \<mapsto> Device_Not_Available_Handler, 6 \<mapsto> Invalid_Opcode_Handler,
     TIMER_INTERRUPT_ID \<mapsto> Timer_Interrupt_Handler, TLB_SHOOTDOWN_VECTOR \<mapsto> Tlb_Shootdown_Handler,
     KEYBOARD_INTERRUPT_VECTOR \<mapsto> Generic_Irq_Handler_33, SPURIOUS_INTERRUPT_ID \<mapsto> Spurious_Handler)"

text \<open>A handler returns to the interrupted code or halts the core for good.\<close>

datatype 'm flow = Resume 'm | Halted 'm

definition generic_irq_handler_33 :: "('pt, 'dev) machine \<Rightarrow> ('pt, 'dev) machine flow res" where
  "generic_irq_handler_33 m =
     bindE (end_of_interrupt (on_kern (\<lambda>s. s\<lparr>IRQ_MAILBOXES := (IRQ_MAILBOXES s)[33 := 1]\<rparr>) m)) (\<lambda>m. Inr (Resume m))"

definition device_not_available_handler :: "('pt, 'dev) machine \<Rightarrow> ('pt, 'dev) machine flow res" where
  "device_not_available_handler m =
     Inr (Resume (on_kern (say ''\<newline>[*] CORE 1: Lazy FPU Exception Caught! Loading Math Registers on-demand...\<newline>'')
       (m\<lparr>cpu := clear_task_switched (cpu m)\<rparr>)))"

definition breakpoint_handler :: "('pt, 'dev) machine \<Rightarrow> ('pt, 'dev) machine flow res" where
  "breakpoint_handler m =
     Inr (Resume (on_kern (say ''\<newline>[!] ORACLE INTERCEPT: Breakpoint Exception Caught!\<newline>'') m))"

definition double_fault_handler :: "('pt, 'dev) machine \<Rightarrow> ('pt, 'dev) machine flow res" where
  "double_fault_handler m = Inr (Halted (on_kern (say ''\<newline>[!!!] FATAL: DOUBLE FAULT.\<newline>'') m))"

definition gpf_handler :: "('pt, 'dev) machine \<Rightarrow> ('pt, 'dev) machine flow res" where
  "gpf_handler m = Inr (Halted (on_kern (say ''\<newline>[!!!] FATAL: GENERAL PROTECTION FAULT (GPF).\<newline>'') m))"

definition page_fault_handler :: "u64 \<Rightarrow> bool \<Rightarrow> ('pt, 'dev) machine \<Rightarrow> ('pt, 'dev) machine flow res" where
  "page_fault_handler cr2 user_mode m =
     (let m = m\<lparr>cpu := cli (cpu m)\<rparr>;
          m = on_kern (say ''\<newline>[!!!] FATAL: PAGE FAULT. Unmapped memory accessed at 0x'') m
      in bindE (say_hex cr2 (kern m)) (\<lambda>s.
         let s = say ''\<newline>'' s;
             s = (if user_mode then say ''[+] CONFIRMED: Fault originated from RING 3!\<newline>'' s
                  else say ''[!] FATAL: Fault originated from RING 0!\<newline>'' s)
         in Inr (Halted (m\<lparr>kern := s\<rparr>))))"

definition invalid_opcode_handler :: "('pt, 'dev) machine \<Rightarrow> ('pt, 'dev) machine flow res" where
  "invalid_opcode_handler m = Inr (Halted (on_kern (say ''\<newline>[!!!] INVALID OPCODE FAULT (#UD)\<newline>'') m))"

definition spurious_handler :: "('pt, 'dev) machine \<Rightarrow> ('pt, 'dev) machine flow res" where
  "spurious_handler m = Inr (Resume m)"

definition timer_interrupt_handler :: "('pt, 'dev) machine \<Rightarrow> ('pt, 'dev) machine flow res" where
  "timer_interrupt_handler m =
     bindE (tick (SCHEDULER (kern m))) (\<lambda>sched.
     bindE (end_of_interrupt (on_kern (\<lambda>s. s\<lparr>SCHEDULER := sched\<rparr>) m)) (\<lambda>m.
     Inr (Resume m)))"

text \<open>The flush itself acts on the translation cache, which the step relation below has.\<close>

definition tlb_shootdown_handler :: "('pt, 'dev) hw_platform \<Rightarrow> ('pt, 'dev) machine \<Rightarrow> ('pt, 'dev) machine flow res" where
  "tlb_shootdown_handler P m =
     (let vaddr = SHOOTDOWN_ADDR (kern m) in
      bindE (addressE vaddr (virt_addr P vaddr)) (\<lambda>page.
      bindE (end_of_interrupt (on_kern (\<lambda>s. s\<lparr>SHOOTDOWN_ACK := SHOOTDOWN_ACK s + 1\<rparr>) m)) (\<lambda>m.
      Inr (Resume m))))"

text \<open>The table in action: the handler of a vector, with the fault address and origin for a page fault.\<close>

fun run_handler :: "('pt, 'dev) hw_platform \<Rightarrow> u64 \<Rightarrow> bool \<Rightarrow> handler \<Rightarrow> ('pt, 'dev) machine \<Rightarrow>
    ('pt, 'dev) machine flow res" where
  "run_handler P cr2 user Breakpoint_Handler m = breakpoint_handler m"
| "run_handler P cr2 user Double_Fault_Handler m = double_fault_handler m"
| "run_handler P cr2 user Gpf_Handler m = gpf_handler m"
| "run_handler P cr2 user Page_Fault_Handler m = page_fault_handler cr2 user m"
| "run_handler P cr2 user Device_Not_Available_Handler m = device_not_available_handler m"
| "run_handler P cr2 user Invalid_Opcode_Handler m = invalid_opcode_handler m"
| "run_handler P cr2 user Timer_Interrupt_Handler m = timer_interrupt_handler m"
| "run_handler P cr2 user Tlb_Shootdown_Handler m = tlb_shootdown_handler P m"
| "run_handler P cr2 user Generic_Irq_Handler_33 m = generic_irq_handler_33 m"
| "run_handler P cr2 user Spurious_Handler m = spurious_handler m"

section \<open>Lemmas: handlers\<close>

text \<open>The window of the local APIC in the direct map, and that it does not wrap around.\<close>

definition lapic :: "('pt, 'dev) machine \<Rightarrow> u64" where
  "lapic m = page_floor (MSR (cpu m) IA32_APIC_BASE) + HHDM_OFFSET (kern m)"

definition apic_ok :: "('pt, 'dev) machine \<Rightarrow> bool" where
  "apic_ok m \<longleftrightarrow>
     unat (page_floor (MSR (cpu m) IA32_APIC_BASE)) + unat (HHDM_OFFSET (kern m)) + 4096 \<le> 2 ^ 64 \<and>
     HHDM_OFFSET (kern m) \<noteq> 0 \<and> unat (HHDM_OFFSET (kern m)) mod 4096 = 0"

lemma phys_base_page_floor: "(x::u64) AND 0xFFFFFFFFFFFFF000 = page_floor x"
proof -
  have "(0xFFFFFFFFFFFFF000 :: u64) = NOT 4095" by simp
  then show ?thesis unfolding page_floor_def by (simp only:)
qed

lemma apic_write_ok:
  assumes "apic_ok m" and "unat off < 4096" and "unat off mod 4 = 0"
  shows "apic_write off v m = Inr (m\<lparr>bus := bus m @ [(lapic m + off, v)]\<rparr>)"
proof -
  let ?b = "page_floor (MSR (cpu m) IA32_APIC_BASE)" and ?h = "HHDM_OFFSET (kern m)"
  have sum: "unat (?b + ?h) = unat ?b + unat ?h"
    using assms(1) by (intro unat_add_no_overflow) (simp add: apic_ok_def)
  have ptr: "unat (?b + ?h + off) = unat ?b + unat ?h + unat off"
    using assms(1,2) sum unat_add_no_overflow [of "?b + ?h" off] by (simp add: apic_ok_def)
  have h: "unat ?h mod 4 = 0" "0 < unat ?h"
    using assms(1) mod_mod_cancel [of 4 4096 "unat ?h"] by (auto simp: apic_ok_def unat_gt_0)
  have "unat ?b mod 4 = 0" by (simp add: unat_page_floor)
  with h assms(3) have "(unat ?b + unat ?h + unat off) mod 4 = 0"
    by (metis add.right_neutral mod_add_eq mod_0)
  moreover have "?b + ?h + off \<noteq> 0" using ptr h(2) by (metis add_is_0 gr_implies_not0 unat_0)
  ultimately show ?thesis
    using assms(1,2) sum ptr
    by (simp add: apic_write_def get_apic_base_def phys_base_page_floor add_chk_def apic_ok_def
        write_volatile_def lapic_def Let_def)
qed

lemma end_of_interrupt_ok: "apic_ok m \<Longrightarrow> end_of_interrupt m = Inr (m\<lparr>bus := bus m @ [(lapic m + 0xB0, 0)]\<rparr>)"
  by (simp add: end_of_interrupt_def apic_write_ok)

text \<open>The timer set-up: four register writes, nothing else.\<close>

lemma setup_apic_registers_ok:
  assumes "apic_ok m"
  shows "setup_apic_registers m =
    Inr (m\<lparr>bus := bus m @ [(lapic m + 0xF0, 0x1FF), (lapic m + 0x3E0, 3), (lapic m + 0x320, 0x20020),
      (lapic m + 0x380, 10000000)]\<rparr>)"
proof -
  have upd: "apic_ok (m\<lparr>bus := b\<rparr>)" "lapic (m\<lparr>bus := b\<rparr>) = lapic m" for b
    using assms by (simp_all add: apic_ok_def lapic_def)
  show ?thesis using assms by (simp add: setup_apic_registers_def apic_write_ok upd)
qed

lemma on_kern_simps [simp]:
  "kern (on_kern f m) = f (kern m)" "cpu (on_kern f m) = cpu m" "bus (on_kern f m) = bus m"
  by (simp_all add: on_kern_def)

lemma apic_ok_cong:
  "cpu m' = cpu m \<Longrightarrow> HHDM_OFFSET (kern m') = HHDM_OFFSET (kern m) \<Longrightarrow> apic_ok m' = apic_ok m \<and> lapic m' = lapic m"
  by (simp add: apic_ok_def lapic_def)

lemma kernel_inv_say: "kernel_inv entries (say msg s) = kernel_inv entries s"
  by (simp add: kernel_inv_def mem_inv_def say_def)

lemma kernel_inv_serial: "kernel_inv entries (s\<lparr>serial := x\<rparr>) = kernel_inv entries s"
  by (simp add: kernel_inv_def mem_inv_def)

lemma generic_irq_handler_33_ok:
  assumes "apic_ok m"
  shows "generic_irq_handler_33 m =
    Inr (Resume (m\<lparr>kern := (kern m)\<lparr>IRQ_MAILBOXES := (IRQ_MAILBOXES (kern m))[33 := 1]\<rparr>,
      bus := bus m @ [(lapic m + 0xB0, 0)]\<rparr>))"
  using assms apic_ok_cong [of "on_kern (\<lambda>s. s\<lparr>IRQ_MAILBOXES := (IRQ_MAILBOXES s)[33 := 1]\<rparr>) m" m]
  by (simp add: generic_irq_handler_33_def end_of_interrupt_ok on_kern_def)

section \<open>Keyboard notifications\<close>

text \<open>
  What happens to the keyboard mailbox: interrupts, and the polling calls of drivers, in the order
  in which they reach the kernel.
\<close>

datatype mailbox_event = Key_Interrupt | Check_Irq u64

fun run_events :: "('pt, 'dev) hw_platform \<Rightarrow> mailbox_event list \<Rightarrow> ('pt, 'dev) machine \<Rightarrow>
    (u64 list \<times> ('pt, 'dev) machine) res" where
  "run_events P [] m = Inr ([], m)"
| "run_events P (Key_Interrupt # es) m =
     bindE (generic_irq_handler_33 m) (\<lambda>fl. case fl of Resume m \<Rightarrow> run_events P es m | Halted m \<Rightarrow> Inr ([], m))"
| "run_events P (Check_Irq v # es) m =
     bindE (syscall_dispatcher P SYS_CHECK_IRQ v 0 (kern m)) (\<lambda>(r, s).
     bindE (run_events P es (m\<lparr>kern := s\<rparr>)) (\<lambda>(rs, m). Inr (r # rs, m)))"

text \<open>The contract: a check of vector 33 reports, once, whether a key event came since the last one.\<close>

fun reports :: "bool \<Rightarrow> mailbox_event list \<Rightarrow> u64 list" where
  "reports pending [] = []"
| "reports pending (Key_Interrupt # es) = reports True es"
| "reports pending (Check_Irq v # es) =
     (if v = 33 then (if pending then 1 else 0) # reports False es else 0 # reports pending es)"

definition only_key :: "bool \<Rightarrow> ('pt, 'dev) kernel \<Rightarrow> bool" where
  "only_key pending s \<longleftrightarrow> IRQ_MAILBOXES s = (replicate 256 0)[33 := (if pending then 1 else 0)]"

lemma replicate_update_same: "(replicate n x)[i := x] = replicate n x"
  by (cases "i < n") (auto intro: nth_equalityI simp: nth_list_update)

lemma check_irq_only_key:
  assumes "only_key pending s"
  shows "\<exists>s'. syscall_dispatcher P SYS_CHECK_IRQ v x s = Inr (if v = 33 \<and> pending then 1 else 0, s') \<and>
    only_key (pending \<and> v \<noteq> 33) s' \<and> HHDM_OFFSET s' = HHDM_OFFSET s"
proof -
  have v: "v = 33 \<longleftrightarrow> unat v = 33" by (simp add: word_unat_eq_iff)
  show ?thesis
    using assms unfolding v
    by (auto simp: syscall_dispatcher_def sys_check_irq_handler_def only_key_def Let_def nth_list_update
        list_update_swap replicate_update_same)
qed

lemma run_events_reports:
  "apic_ok m \<Longrightarrow> only_key pending (kern m) \<Longrightarrow> \<exists>m'. run_events P es m = Inr (reports pending es, m')"
proof (induction es arbitrary: m pending)
  case (Cons e es)
  show ?case
  proof (cases e)
    case Key_Interrupt
    let ?m = "m\<lparr>kern := (kern m)\<lparr>IRQ_MAILBOXES := (IRQ_MAILBOXES (kern m))[33 := 1]\<rparr>,
      bus := bus m @ [(lapic m + 0xB0, 0)]\<rparr>"
    have "apic_ok ?m" using Cons.prems(1) by (simp add: apic_ok_def)
    moreover have "only_key True (kern ?m)" using Cons.prems(2) by (simp add: only_key_def)
    ultimately show ?thesis
      using Cons.IH [of ?m True] Key_Interrupt by (simp add: generic_irq_handler_33_ok [OF Cons.prems(1)])
  next
    case (Check_Irq v)
    obtain s where s: "syscall_dispatcher P SYS_CHECK_IRQ v 0 (kern m) = Inr (if v = 33 \<and> pending then 1 else 0, s)"
      "only_key (pending \<and> v \<noteq> 33) s" "HHDM_OFFSET s = HHDM_OFFSET (kern m)"
      using check_irq_only_key [OF Cons.prems(2)] by blast
    have "apic_ok (m\<lparr>kern := s\<rparr>)" using Cons.prems(1) s(3) by (simp add: apic_ok_def)
    with Cons.IH [of "m\<lparr>kern := s\<rparr>" "pending \<and> v \<noteq> 33"] s(2) obtain m' where
      "run_events P es (m\<lparr>kern := s\<rparr>) = Inr (reports (pending \<and> v \<noteq> 33) es, m')" by auto
    then show ?thesis using s(1) Check_Irq by (cases "v = 33"; cases pending) simp_all
  qed
qed simp

section \<open>Model: the shootdown protocol\<close>

text \<open>
  \<open>broadcast_tlb_shootdown\<close> on core 0 against \<open>tlb_shootdown_handler\<close> on the others, one
  atomic access or one inter-processor interrupt per step.  \<open>deliverable k\<close> says that core
  \<open>k\<close> accepts interrupts (its local APIC is enabled).  \<open>Acked\<close> is the idle state of a
  core whose handler has run.
\<close>

datatype sd_pc =
    Store_Addr
  | Store_Ack
  | Sending nat nat        \<comment> \<open>\<open>core_id\<close> and \<open>expected_acks\<close>\<close>
  | Waiting nat            \<comment> \<open>\<open>expected_acks\<close>\<close>
  | Complete

datatype sd_core = Quiet | Ipi_Pending | Loaded u64 | Flushed u64 | Acked

record shootdown =
  sd_pc :: sd_pc
  sd_addr :: u64
  sd_ack :: nat
  sd_core :: "nat \<Rightarrow> sd_core"
  flushes :: "(nat \<times> u64) list"     \<comment> \<open>the flushes executed, with their core\<close>

definition sd_start :: shootdown where
  "sd_start = \<lparr>sd_pc = Store_Addr, sd_addr = 0, sd_ack = 0, sd_core = (\<lambda>_. Quiet), flushes = []\<rparr>"

inductive sd_step :: "u64 \<Rightarrow> u32 \<Rightarrow> (nat \<Rightarrow> bool) \<Rightarrow> shootdown \<Rightarrow> shootdown \<Rightarrow> bool"
  for vaddr cpu_mask deliverable where
  store_addr: "sd_pc s = Store_Addr \<Longrightarrow>
    sd_step vaddr cpu_mask deliverable s (s\<lparr>sd_addr := vaddr, sd_pc := Store_Ack\<rparr>)"
| store_ack: "sd_pc s = Store_Ack \<Longrightarrow>
    sd_step vaddr cpu_mask deliverable s (s\<lparr>sd_ack := 0, sd_pc := Sending 1 0\<rparr>)"
| send: "sd_pc s = Sending core_id expected \<Longrightarrow> core_id < 4 \<Longrightarrow> cpu_mask AND push_bit core_id 1 \<noteq> 0 \<Longrightarrow>
    sd_step vaddr cpu_mask deliverable s
      (s\<lparr>sd_core := (sd_core s)(core_id := Ipi_Pending), sd_pc := Sending (core_id + 1) (expected + 1)\<rparr>)"
| skip: "sd_pc s = Sending core_id expected \<Longrightarrow> core_id < 4 \<Longrightarrow> cpu_mask AND push_bit core_id 1 = 0 \<Longrightarrow>
    sd_step vaddr cpu_mask deliverable s (s\<lparr>sd_pc := Sending (core_id + 1) expected\<rparr>)"
| sent: "sd_pc s = Sending core_id expected \<Longrightarrow> \<not> core_id < 4 \<Longrightarrow>
    sd_step vaddr cpu_mask deliverable s (s\<lparr>sd_pc := Waiting expected\<rparr>)"
| complete: "sd_pc s = Waiting expected \<Longrightarrow> \<not> sd_ack s < expected \<Longrightarrow>
    sd_step vaddr cpu_mask deliverable s (s\<lparr>sd_pc := Complete\<rparr>)"
| handler_load: "sd_core s k = Ipi_Pending \<Longrightarrow> deliverable k \<Longrightarrow>
    sd_step vaddr cpu_mask deliverable s (s\<lparr>sd_core := (sd_core s)(k := Loaded (sd_addr s))\<rparr>)"
| handler_flush: "sd_core s k = Loaded a \<Longrightarrow>
    sd_step vaddr cpu_mask deliverable s
      (s\<lparr>sd_core := (sd_core s)(k := Flushed a), flushes := flushes s @ [(k, a)]\<rparr>)"
| handler_ack: "sd_core s k = Flushed a \<Longrightarrow>
    sd_step vaddr cpu_mask deliverable s
      (s\<lparr>sd_core := (sd_core s)(k := Acked), sd_ack := sd_ack s + 1\<rparr>)"

inductive sd_reach :: "u64 \<Rightarrow> u32 \<Rightarrow> (nat \<Rightarrow> bool) \<Rightarrow> shootdown \<Rightarrow> bool"
  for vaddr cpu_mask deliverable where
  start: "sd_reach vaddr cpu_mask deliverable sd_start"
| step: "sd_reach vaddr cpu_mask deliverable s \<Longrightarrow> sd_step vaddr cpu_mask deliverable s t \<Longrightarrow>
    sd_reach vaddr cpu_mask deliverable t"

definition sd_targets :: "u32 \<Rightarrow> nat \<Rightarrow> nat set" where
  "sd_targets cpu_mask n = {k. 1 \<le> k \<and> k < n \<and> bit cpu_mask k}"

section \<open>Invariant of the shootdown\<close>

text \<open>How far the sending loop is: the cores it has passed and the interrupts it has sent.\<close>

fun sd_progress :: "sd_pc \<Rightarrow> nat \<times> nat option" where
  "sd_progress Store_Addr = (1, None)"
| "sd_progress Store_Ack = (1, None)"
| "sd_progress (Sending core_id expected) = (core_id, Some expected)"
| "sd_progress (Waiting expected) = (4, Some expected)"
| "sd_progress Complete = (4, None)"

fun sd_core_ok :: "u64 \<Rightarrow> bool \<Rightarrow> sd_core \<Rightarrow> bool" where
  "sd_core_ok vaddr flushed Quiet \<longleftrightarrow> \<not> flushed"
| "sd_core_ok vaddr flushed Ipi_Pending \<longleftrightarrow> \<not> flushed"
| "sd_core_ok vaddr flushed (Loaded a) \<longleftrightarrow> a = vaddr \<and> \<not> flushed"
| "sd_core_ok vaddr flushed (Flushed a) \<longleftrightarrow> a = vaddr \<and> flushed"
| "sd_core_ok vaddr flushed Acked \<longleftrightarrow> flushed"

definition sd_inv :: "u64 \<Rightarrow> u32 \<Rightarrow> shootdown \<Rightarrow> bool" where
  "sd_inv vaddr cpu_mask s \<longleftrightarrow>
     1 \<le> fst (sd_progress (sd_pc s)) \<and> fst (sd_progress (sd_pc s)) \<le> 4 \<and>
     (\<forall>k. sd_core s k \<noteq> Quiet \<longleftrightarrow> k \<in> sd_targets cpu_mask (fst (sd_progress (sd_pc s)))) \<and>
     (\<forall>e. snd (sd_progress (sd_pc s)) = Some e \<longrightarrow> e = card (sd_targets cpu_mask (fst (sd_progress (sd_pc s))))) \<and>
     (sd_pc s \<noteq> Store_Addr \<longrightarrow> sd_addr s = vaddr) \<and>
     sd_ack s = card {k. sd_core s k = Acked} \<and>
     snd ` set (flushes s) \<subseteq> {vaddr} \<and>
     (\<forall>k. sd_core_ok vaddr ((k, vaddr) \<in> set (flushes s)) (sd_core s k)) \<and>
     (sd_pc s = Complete \<longrightarrow> (\<forall>k. sd_core s k \<noteq> Quiet \<longrightarrow> sd_core s k = Acked))"

lemma mask_test: "cpu_mask AND push_bit k 1 \<noteq> 0 \<longleftrightarrow> bit (cpu_mask :: u32) k"
  by (simp add: bit_iff_and_push_bit_not_eq_0)

lemma sd_targets_Suc:
  "1 \<le> n \<Longrightarrow> sd_targets m (Suc n) = (if bit m n then insert n (sd_targets m n) else sd_targets m n)"
  by (auto simp: sd_targets_def less_Suc_eq)

lemma finite_sd_targets [simp]: "finite (sd_targets m n)"
  by (rule finite_subset [of _ "{..<n}"]) (auto simp: sd_targets_def)

lemma sd_inv_start: "sd_inv vaddr cpu_mask sd_start"
  by (simp add: sd_inv_def sd_start_def sd_targets_def)

lemma sd_inv_acked:
  assumes "sd_inv vaddr cpu_mask s"
  shows "finite {k. sd_core s k = Acked}" "{k. sd_core s k = Acked} \<subseteq> sd_targets cpu_mask (fst (sd_progress (sd_pc s)))"
proof -
  show sub: "{k. sd_core s k = Acked} \<subseteq> sd_targets cpu_mask (fst (sd_progress (sd_pc s)))"
    using assms by (fastforce simp: sd_inv_def)
  show "finite {k. sd_core s k = Acked}" by (rule finite_subset [OF sub]) simp
qed

lemma sd_inv_quiet_loop:
  assumes "sd_inv vaddr cpu_mask s" "sd_pc s = Sending core_id e"
  shows "sd_core s core_id = Quiet"
  using assms by (force simp: sd_inv_def sd_targets_def)

lemma sd_inv_not_sent: "sd_inv vaddr cpu_mask s \<Longrightarrow> sd_pc s = Store_Addr \<Longrightarrow> sd_core s k = Quiet"
  by (force simp: sd_inv_def sd_targets_def)

lemma sd_inv_core_ok: "sd_inv vaddr cpu_mask s \<Longrightarrow> sd_core_ok vaddr ((k, vaddr) \<in> set (flushes s)) (sd_core s k)"
  by (simp add: sd_inv_def)

lemma sd_inv_complete: "sd_inv vaddr cpu_mask s \<Longrightarrow> sd_pc s = Complete \<Longrightarrow> sd_core s k = Quiet \<or> sd_core s k = Acked"
  by (auto simp: sd_inv_def)

text \<open>The steps that change the state of one core: the interrupt sent to it and the three of its handler.\<close>

lemma sd_inv_send:
  assumes inv: "sd_inv vaddr cpu_mask s" and pc: "sd_pc s = Sending core_id expected" "core_id < 4"
    "cpu_mask AND push_bit core_id 1 \<noteq> 0"
  shows "sd_inv vaddr cpu_mask
    (s\<lparr>sd_core := (sd_core s)(core_id := Ipi_Pending), sd_pc := Sending (core_id + 1) (expected + 1)\<rparr>)"
proof -
  have q: "sd_core s core_id = Quiet" by (rule sd_inv_quiet_loop [OF inv pc(1)])
  have ack: "{k. k \<noteq> core_id \<and> (k \<noteq> core_id \<longrightarrow> sd_core s k = Acked)} = {k. sd_core s k = Acked}"
    using q by auto
  have n: "(core_id, vaddr) \<notin> set (flushes s)" using sd_inv_core_ok [OF inv, of core_id] q by simp
  have new: "core_id \<notin> sd_targets cpu_mask core_id" by (simp add: sd_targets_def)
  have tg: "sd_targets cpu_mask (Suc core_id) = insert core_id (sd_targets cpu_mask core_id)"
    using inv pc mask_test [of cpu_mask core_id] by (simp add: sd_targets_Suc sd_inv_def)
  show ?thesis using inv pc(1,2) q new n unfolding sd_inv_def by (auto simp: tg ack)
qed

lemma sd_inv_load:
  assumes inv: "sd_inv vaddr cpu_mask s" and k: "sd_core s k = Ipi_Pending"
  shows "sd_inv vaddr cpu_mask (s\<lparr>sd_core := (sd_core s)(k := Loaded (sd_addr s))\<rparr>)"
proof -
  have "sd_pc s \<noteq> Store_Addr" using sd_inv_not_sent [OF inv] k by force
  then have v: "sd_addr s = vaddr" using inv by (simp add: sd_inv_def)
  have n: "(k, vaddr) \<notin> set (flushes s)" using sd_inv_core_ok [OF inv, of k] k by simp
  have nc: "sd_pc s \<noteq> Complete" using sd_inv_complete [OF inv, of k] k by force
  have set: "{j. j \<noteq> k \<and> (j \<noteq> k \<longrightarrow> sd_core s j = Acked)} = {j. sd_core s j = Acked}" using k by auto
  show ?thesis using inv k nc v n unfolding sd_inv_def by (auto simp: set)
qed

lemma sd_inv_flush:
  assumes inv: "sd_inv vaddr cpu_mask s" and k: "sd_core s k = Loaded a"
  shows "sd_inv vaddr cpu_mask (s\<lparr>sd_core := (sd_core s)(k := Flushed a), flushes := flushes s @ [(k, a)]\<rparr>)"
proof -
  have v: "a = vaddr" "(k, vaddr) \<notin> set (flushes s)" using sd_inv_core_ok [OF inv, of k] k by simp_all
  have nc: "sd_pc s \<noteq> Complete" using sd_inv_complete [OF inv, of k] k by force
  have set: "{j. j \<noteq> k \<and> (j \<noteq> k \<longrightarrow> sd_core s j = Acked)} = {j. sd_core s j = Acked}" using k by auto
  show ?thesis using inv k nc v unfolding sd_inv_def by (auto simp: set)
qed

lemma sd_inv_ack:
  assumes inv: "sd_inv vaddr cpu_mask s" and k: "sd_core s k = Flushed a"
  shows "sd_inv vaddr cpu_mask (s\<lparr>sd_core := (sd_core s)(k := Acked), sd_ack := sd_ack s + 1\<rparr>)"
proof -
  have v: "a = vaddr" "(k, vaddr) \<in> set (flushes s)" using sd_inv_core_ok [OF inv, of k] k by simp_all
  have nc: "sd_pc s \<noteq> Complete" using sd_inv_complete [OF inv, of k] k by force
  have set: "{j. j \<noteq> k \<longrightarrow> sd_core s j = Acked} = insert k {j. sd_core s j = Acked}" by auto
  have card: "card (insert k {j. sd_core s j = Acked}) = Suc (card {j. sd_core s j = Acked})"
    using sd_inv_acked(1) [OF inv] k by simp
  show ?thesis using inv k nc v unfolding sd_inv_def by (auto simp: set card)
qed

lemma sd_inv_step:
  assumes "sd_step vaddr cpu_mask deliverable s t" "sd_inv vaddr cpu_mask s"
  shows "sd_inv vaddr cpu_mask t"
  using assms
proof (cases rule: sd_step.cases)
  case store_ack
  then have "sd_targets cpu_mask (fst (sd_progress (sd_pc s))) = {}" by (simp add: sd_targets_def)
  then have "{k. sd_core s k = Acked} = {}" using sd_inv_acked(2) [OF assms(2)] by simp
  with assms(2) store_ack show ?thesis by (simp add: sd_inv_def sd_targets_def)
next
  case (skip core_id expected)
  have "sd_targets cpu_mask (Suc core_id) = sd_targets cpu_mask core_id"
    using assms(2) skip(2) mask_test [of cpu_mask core_id] skip(4) by (simp add: sd_targets_Suc sd_inv_def)
  with assms(2) skip(1-3) show ?thesis by (simp add: sd_inv_def)
next
  case (sent core_id expected)
  then have "core_id = 4" using assms(2) by (simp add: sd_inv_def)
  with assms(2) sent show ?thesis by (simp add: sd_inv_def)
next
  case (complete expected)
  have "{k. sd_core s k = Acked} = sd_targets cpu_mask 4"
    using sd_inv_acked [OF assms(2)] assms(2) complete
    by (intro card_seteq) (simp_all add: sd_inv_def)
  with assms(2) complete show ?thesis unfolding sd_inv_def by auto
next
  case (send core_id expected)
  from sd_inv_send [OF assms(2) send(2-4)] send(1) show ?thesis by simp
qed (simp add: sd_inv_def, simp_all only: sd_inv_load sd_inv_flush sd_inv_ack)

lemma sd_reach_inv: "sd_reach vaddr cpu_mask deliverable s \<Longrightarrow> sd_inv vaddr cpu_mask s"
  by (induction rule: sd_reach.induct) (simp_all add: sd_inv_start sd_inv_step)

text \<open>Every step brings the protocol closer to its end.\<close>

fun pc_rank :: "sd_pc \<Rightarrow> nat" where
  "pc_rank Store_Addr = 7"
| "pc_rank Store_Ack = 6"
| "pc_rank (Sending core_id e) = 6 - core_id"
| "pc_rank (Waiting e) = 1"
| "pc_rank Complete = 0"

fun core_rank :: "sd_core \<Rightarrow> nat" where
  "core_rank Quiet = 4"
| "core_rank Ipi_Pending = 3"
| "core_rank (Loaded a) = 2"
| "core_rank (Flushed a) = 1"
| "core_rank Acked = 0"

definition sd_rank :: "shootdown \<Rightarrow> nat" where
  "sd_rank s = pc_rank (sd_pc s) + core_rank (sd_core s 1) + core_rank (sd_core s 2) + core_rank (sd_core s 3)"

lemma sd_inv_busy_core:
  assumes "sd_inv vaddr cpu_mask s" "sd_core s k \<noteq> Quiet"
  shows "k = 1 \<or> k = 2 \<or> k = 3"
  using assms by (auto simp: sd_inv_def sd_targets_def)

lemma sd_rank_step:
  assumes inv: "sd_inv vaddr cpu_mask s" and step: "sd_step vaddr cpu_mask deliverable s t"
  shows "sd_rank t < sd_rank s"
  using step
proof (cases rule: sd_step.cases)
  case (send core_id expected)
  have "1 \<le> core_id" using inv send by (simp add: sd_inv_def)
  then have "core_id = 1 \<or> core_id = 2 \<or> core_id = 3" using send(3) by auto
  with send sd_inv_quiet_loop [OF inv send(2)] show ?thesis by (auto simp: sd_rank_def)
next
  case (sent core_id expected)
  then have "core_id = 4" using inv by (simp add: sd_inv_def)
  with sent show ?thesis by (simp add: sd_rank_def)
next
  case (handler_load k)
  with sd_inv_busy_core [OF inv, of k] show ?thesis by (auto simp: sd_rank_def)
next
  case (handler_flush k a)
  with sd_inv_busy_core [OF inv, of k] show ?thesis by (auto simp: sd_rank_def)
next
  case (handler_ack k a)
  with sd_inv_busy_core [OF inv, of k] show ?thesis by (auto simp: sd_rank_def)
qed (auto simp: sd_rank_def)

lemma sd_waiting_all_acked:
  assumes inv: "sd_inv vaddr cpu_mask s" and pc: "sd_pc s = Waiting e"
    and all: "\<And>k. k \<in> sd_targets cpu_mask 4 \<Longrightarrow> sd_core s k = Acked"
  shows "\<not> sd_ack s < e"
proof -
  have "sd_targets cpu_mask 4 \<subseteq> {k. sd_core s k = Acked}" using all by auto
  then have "card (sd_targets cpu_mask 4) \<le> card {k. sd_core s k = Acked}"
    by (rule card_mono [OF sd_inv_acked(1) [OF inv]])
  moreover have "sd_ack s = card {k. sd_core s k = Acked}" "e = card (sd_targets cpu_mask 4)"
    using inv pc by (simp_all add: sd_inv_def)
  ultimately show ?thesis by simp
qed

lemma sd_busy_core_steps:
  assumes "sd_core s k \<noteq> Quiet" "sd_core s k \<noteq> Acked" "deliverable k"
  shows "\<exists>t. sd_step vaddr cpu_mask deliverable s t"
proof (cases "sd_core s k")
  case Ipi_Pending
  from sd_step.handler_load [of s k deliverable, OF this assms(3)] show ?thesis by (rule exI)
next
  case (Loaded a)
  from sd_step.handler_flush [of s k, OF this] show ?thesis by (rule exI)
next
  case (Flushed a)
  from sd_step.handler_ack [of s k, OF this] show ?thesis by (rule exI)
qed (use assms in simp_all)

lemma sd_progresses:
  assumes inv: "sd_inv vaddr cpu_mask s"
    and del: "\<And>k. k \<in> sd_targets cpu_mask 4 \<Longrightarrow> deliverable k" and nc: "sd_pc s \<noteq> Complete"
  shows "\<exists>t. sd_step vaddr cpu_mask deliverable s t"
proof (cases "sd_pc s")
  case Store_Addr
  from sd_step.store_addr [OF this] show ?thesis by (rule exI)
next
  case Store_Ack
  from sd_step.store_ack [OF this] show ?thesis by (rule exI)
next
  case (Sending core_id e)
  consider "\<not> core_id < 4" | "core_id < 4" "cpu_mask AND push_bit core_id 1 \<noteq> 0"
    | "core_id < 4" "cpu_mask AND push_bit core_id 1 = 0" by blast
  then show ?thesis
  proof cases
    case 1
    from sd_step.sent [OF Sending this] show ?thesis by (rule exI)
  next
    case 2
    from sd_step.send [OF Sending this] show ?thesis by (rule exI)
  next
    case 3
    from sd_step.skip [OF Sending this] show ?thesis by (rule exI)
  qed
next
  case (Waiting e)
  show ?thesis
  proof (cases "\<exists>k \<in> sd_targets cpu_mask 4. sd_core s k \<noteq> Acked")
    case True
    then obtain k where k: "k \<in> sd_targets cpu_mask 4" "sd_core s k \<noteq> Acked" by blast
    then have "sd_core s k \<noteq> Quiet" using inv Waiting by (simp add: sd_inv_def)
    then show ?thesis using sd_busy_core_steps [of s k deliverable] k(2) del [OF k(1)] by simp
  next
    case False
    then have "\<not> sd_ack s < e" using sd_waiting_all_acked [OF inv Waiting] by blast
    from sd_step.complete [OF Waiting this] show ?thesis by (rule exI)
  qed
qed (use nc in simp)

section \<open>Properties\<close>

definition apic_enabled :: "core \<Rightarrow> bool" where
  "apic_enabled c \<longleftrightarrow> bit (MSR c IA32_APIC_BASE) 11"


text \<open>A run for mask 2: core 1 is interrupted, flushes and acknowledges.\<close>

definition sd_at :: "sd_pc \<Rightarrow> nat \<Rightarrow> sd_core \<Rightarrow> (nat \<times> u64) list \<Rightarrow> shootdown" where
  "sd_at pc ack c fl =
     \<lparr>sd_pc = pc, sd_addr = 0x40001000, sd_ack = ack, sd_core = (\<lambda>_. Quiet)(1 := c), flushes = fl\<rparr>"

lemma sd_reach_to: "sd_reach v m d s \<Longrightarrow> sd_step v m d s t \<Longrightarrow> t = t' \<Longrightarrow> sd_reach v m d t'"
  using sd_reach.step by blast

lemma shootdown_run:
  "sd_reach 0x40001000 2 (\<lambda>_. True) (sd_at Complete 1 Acked [(1, 0x40001000)])"
proof -
  let ?r = "sd_reach 0x40001000 2 (\<lambda>_. True)"
  have "?r (sd_at Store_Ack 0 Quiet [])"
    by (rule sd_reach_to [OF sd_reach.start sd_step.store_addr]) (simp_all add: sd_start_def sd_at_def fun_upd_idem)
  then have "?r (sd_at (Sending 1 0) 0 Quiet [])"
    by (rule sd_reach_to [OF _ sd_step.store_ack]) (simp_all add: sd_at_def)
  then have "?r (sd_at (Sending 2 1) 0 Ipi_Pending [])"
    by (rule sd_reach_to [OF _ sd_step.send [where core_id = 1 and expected = 0]]) (simp_all add: sd_at_def)
  then have "?r (sd_at (Sending 3 1) 0 Ipi_Pending [])"
    by (rule sd_reach_to [OF _ sd_step.skip [where core_id = 2 and expected = 1]]) (simp_all add: sd_at_def)
  then have "?r (sd_at (Sending 4 1) 0 Ipi_Pending [])"
    by (rule sd_reach_to [OF _ sd_step.skip [where core_id = 3 and expected = 1]]) (simp_all add: sd_at_def)
  then have "?r (sd_at (Waiting 1) 0 Ipi_Pending [])"
    by (rule sd_reach_to [OF _ sd_step.sent [where core_id = 4 and expected = 1]]) (simp_all add: sd_at_def)
  then have "?r (sd_at (Waiting 1) 0 (Loaded 0x40001000) [])"
    by (rule sd_reach_to [OF _ sd_step.handler_load [where k = 1]]) (simp_all add: sd_at_def)
  then have "?r (sd_at (Waiting 1) 0 (Flushed 0x40001000) [(1, 0x40001000)])"
    by (rule sd_reach_to [OF _ sd_step.handler_flush [where k = 1]]) (simp_all add: sd_at_def)
  then have "?r (sd_at (Waiting 1) 1 Acked [(1, 0x40001000)])"
    by (rule sd_reach_to [OF _ sd_step.handler_ack [where k = 1]]) (simp_all add: sd_at_def)
  then show ?thesis
    by (rule sd_reach_to [OF _ sd_step.complete [where expected = 1]]) (simp_all add: sd_at_def)
qed


text \<open>
  C30. The shootdown terminates: if the selected cores accept interrupts, then in every reachable
  state it is complete or some core can take a step, and no run has more steps than the rank of its
  first state.
\<close>

theorem shootdown_terminates:
  assumes "sd_reach vaddr cpu_mask deliverable s"
    and "\<forall>k. 1 \<le> k \<and> k \<le> 3 \<and> bit cpu_mask k \<longrightarrow> deliverable k"
  shows "(sd_pc s = Complete \<or> (\<exists>t. sd_step vaddr cpu_mask deliverable s t)) \<and>
    (\<forall>t. sd_step vaddr cpu_mask deliverable s t \<longrightarrow> sd_rank t < sd_rank s)"
proof -
  have inv: "sd_inv vaddr cpu_mask s" by (rule sd_reach_inv [OF assms(1)])
  have "deliverable k" if "k \<in> sd_targets cpu_mask 4" for k
    using assms(2) that by (simp add: sd_targets_def)
  then show ?thesis using sd_progresses [OF inv] sd_rank_step [OF inv] by blast
qed

theorem shootdown_terminates_witness:
  "\<exists>t. sd_step 0x40001000 2 (\<lambda>_. True) sd_start t \<and> sd_rank t < sd_rank sd_start"
proof -
  have "sd_pc sd_start \<noteq> Complete" by (simp add: sd_start_def)
  then show ?thesis using shootdown_terminates [OF sd_reach.start, of 2 "\<lambda>_. True" "0x40001000"] by blast
qed

text \<open>
  C36. A worker core never acknowledges a shootdown: \<open>lock_ap_as_worker\<close> switches its local APIC
  off, and a broadcast that selects a core with its APIC off never completes.
\<close>

theorem shootdown_of_worker_never_completes:
  assumes "worker_setup img sel IDTR c = Inr c'" and "deliverable k = apic_enabled c'"
    and "1 \<le> k" "k \<le> 3" "bit cpu_mask k" and "sd_reach vaddr cpu_mask deliverable s"
  shows "\<not> bit (rflags c') IF_bit \<and> \<not> apic_enabled c' \<and> sd_pc s \<noteq> Complete"
proof -
  have off: "\<not> apic_enabled c'" "\<not> bit (rflags c') IF_bit"
    using assms(1) by (auto simp: worker_setup_def configure_msrs_def apic_enabled_def cli_def clear_bit_of_def
        write_msr_def clear_task_switched_def res_simps Let_def bit_simps)
  have stuck: "sd_core t k = Quiet \<or> sd_core t k = Ipi_Pending" if "sd_reach vaddr cpu_mask deliverable t" for t
    using that
  proof (induction rule: sd_reach.induct)
    case (step s t)
    from step(2,3) show ?case using off(1) assms(2) by (cases rule: sd_step.cases) auto
  qed (simp add: sd_start_def)
  have inv: "sd_inv vaddr cpu_mask s" by (rule sd_reach_inv [OF assms(6)])
  have "sd_core s k \<noteq> Quiet" if "sd_pc s = Complete"
    using inv that assms(3-5) by (simp add: sd_inv_def sd_targets_def)
  then show ?thesis using off stuck [OF assms(6)] sd_inv_complete [OF inv, of k] by auto
qed

theorem shootdown_of_worker_never_completes_witness:
  "\<exists>c'. worker_setup \<lparr>gdt_addr = 0, idt_image = [], syscall_entry_addr = 0x1000\<rparr> (snd (GDT example_gdt)) [] example_core = Inr c' \<and>
     (sd_reach 0x40001000 2 (\<lambda>_. apic_enabled c') sd_start \<and> \<not> apic_enabled c')"
proof -
  obtain c' where c': "worker_setup \<lparr>gdt_addr = 0, idt_image = [], syscall_entry_addr = 0x1000\<rparr>
      (snd (GDT example_gdt)) [] example_core = Inr c'"
    by (simp add: worker_setup_def configure_msrs_def GDT_selectors [OF example_gdt_laws] sub_chk_def Let_def)
  have b: "bit (2 :: u32) 1" by simp
  show ?thesis
    using c' shootdown_of_worker_never_completes [OF c', of "\<lambda>_. apic_enabled c'" 1 2 "0x40001000" sd_start]
      sd_reach.start b by auto
qed

definition example_machine :: "(flat_table, (u16 \<times> nat \<times> u32) list) machine" where
  "example_machine =
     \<lparr>kern = example_kernel, cpu = example_core\<lparr>MSR := (\<lambda>_. 0)(IA32_APIC_BASE := 0xFEE00900)\<rparr>, bus = []\<rparr>"

lemma example_apic_ok: "apic_ok example_machine"
  by (simp add: apic_ok_def example_machine_def example_kernel_def unat_page_floor)

text \<open>
  Keyboard notifications: in every sequence of keyboard interrupts and polls, a poll of vector 33
  returns 1 if an interrupt came since the previous such poll and 0 otherwise; polls of other vectors
  return 0 and do not disturb it.  Several interrupts between two polls are reported once.
\<close>

theorem keyboard_poll_reports_new_events:
  assumes "apic_ok m" and "IRQ_MAILBOXES (kern m) = replicate 256 0"
  shows "\<exists>m'. run_events P events m = Inr (reports False events, m')"
proof -
  have "only_key False (kern m)" using assms(2) by (simp add: only_key_def replicate_update_same)
  then show ?thesis by (rule run_events_reports [OF assms(1)])
qed

theorem keyboard_poll_reports_new_events_witness:
  "\<exists>m'. run_events example_hw [Check_Irq 33, Key_Interrupt, Key_Interrupt, Check_Irq 32, Check_Irq 33, Check_Irq 33] example_machine =
     Inr ([0, 0, 1, 0], m')"
proof -
  have "IRQ_MAILBOXES (kern example_machine) = replicate 256 0"
    by (simp add: example_machine_def example_kernel_def)
  from keyboard_poll_reports_new_events [OF example_apic_ok this, of example_hw
      "[Check_Irq 33, Key_Interrupt, Key_Interrupt, Check_Irq 32, Check_Irq 33, Check_Irq 33]"]
  show ?thesis by simp
qed

definition flow_state :: "'m flow \<Rightarrow> 'm" where
  "flow_state fl = (case fl of Resume m \<Rightarrow> m | Halted m \<Rightarrow> m)"

definition halts :: "'m flow \<Rightarrow> bool" where
  "halts fl = (case fl of Resume m \<Rightarrow> False | Halted m \<Rightarrow> True)"

lemma kernel_half_keptI:
  "CDT s' = CDT s \<Longrightarrow> HHDM_OFFSET s' = HHDM_OFFSET s \<Longrightarrow> phys_mem s' = phys_mem s \<Longrightarrow> MAPPER s' = MAPPER s \<Longrightarrow>
   kernel_half_kept P s s'"
  by (simp add: kernel_half_kept_def address_space_def)

lemma flow_simps [simp]:
  "flow_state (Resume m) = m" "flow_state (Halted m) = m" "\<not> halts (Resume m)" "halts (Halted m)"
  by (simp_all add: flow_state_def halts_def)

text \<open>
  Every handler of the table returns to the interrupted code or halts the core, and exactly the
  four faults halt it.  On a booted kernel the invariant and the kernel's half of the address space
  are kept, and each device interrupt but the spurious one is acknowledged by exactly one write to
  the end-of-interrupt register.
\<close>

theorem handlers_keep_kernel:
  assumes "kernel_inv entries (kern m)" and "apic_ok m" and "IDT vector = Some h"
    and "unat (ticks (SCHEDULER (kern m))) + 1 < 2 ^ 64"
    and "virt_addr P (SHOOTDOWN_ADDR (kern m)) \<noteq> None"
  shows "\<exists>fl. run_handler P cr2 user h m = Inr fl \<and> kernel_inv entries (kern (flow_state fl)) \<and>
    kernel_half_kept P (kern m) (kern (flow_state fl)) \<and>
    (halts fl \<longleftrightarrow> vector \<in> {6, 8, 13, 14}) \<and>
    bus (flow_state fl) = bus m @ (if vector \<in> {32, 33, 251} then [(lapic m + 0xB0, 0)] else [])"
proof -
  have eoi: "end_of_interrupt (on_kern f m) = Inr ((on_kern f m)\<lparr>bus := bus m @ [(lapic m + 0xB0, 0)]\<rparr>)"
    if "HHDM_OFFSET (f (kern m)) = HHDM_OFFSET (kern m)" for f
    using end_of_interrupt_ok [of "on_kern f m"] apic_ok_cong [of "on_kern f m" m] assms(2) that by simp
  have sched: "sched_inv (SCHEDULER (kern m))" using assms(1) by (simp add: kernel_inv_def)
  have tick: "tick (SCHEDULER (kern m)) = Inr ((SCHEDULER (kern m))\<lparr>ticks := ticks (SCHEDULER (kern m)) + 1\<rparr>)"
    using assms(4) by (simp add: tick_def add_chk_def)
  have sched': "sched_inv ((SCHEDULER (kern m))\<lparr>ticks := ticks (SCHEDULER (kern m)) + 1\<rparr>)"
    by (rule tick_inv [OF sched tick])
  obtain page where page: "virt_addr P (SHOOTDOWN_ADDR (kern m)) = Some page" using assms(5) by auto
  note defs = breakpoint_handler_def double_fault_handler_def gpf_handler_def page_fault_handler_def
    device_not_available_handler_def invalid_opcode_handler_def timer_interrupt_handler_def
    tlb_shootdown_handler_def generic_irq_handler_33_def spurious_handler_def
  from assms(3) have h: "vector \<in> {3, 6, 7, 8, 13, 14, 32, 33, 251, 255}"
    by (auto simp: IDT_def split: if_splits)
  have inv: "mem_inv entries (kern m)" "CDT (kern m) = genesis_cdt" "length (IRQ_MAILBOXES (kern m)) = 256"
    using assms(1) by (simp_all add: kernel_inv_def)
  show ?thesis
    using h assms(3) inv sched sched'
    by (elim insertE emptyE)
      (auto simp: IDT_def defs eoi tick page Let_def kernel_inv_def mem_inv_def say_def
        intro!: kernel_half_keptI)
qed

theorem handlers_keep_kernel_witness:
  "\<exists>fl. run_handler example_hw 0xDEAD True Page_Fault_Handler example_machine = Inr fl \<and> halts fl \<and>
     kernel_inv example_memmap (kern (flow_state fl))"
proof -
  have k: "kern example_machine = example_kernel" by (simp add: example_machine_def)
  have "IDT 14 = Some Page_Fault_Handler" by (simp add: IDT_def)
  moreover have "unat (ticks (SCHEDULER example_kernel)) + 1 < 2 ^ 64"
    by (simp add: example_kernel_def scheduler_new_def)
  moreover have "virt_addr example_hw (SHOOTDOWN_ADDR example_kernel) \<noteq> None" by (simp add: example_hw_def)
  ultimately show ?thesis
    using handlers_keep_kernel [of example_memmap example_machine 14 Page_Fault_Handler example_hw "0xDEAD" True]
      example_kernel_inv example_apic_ok unfolding k by auto
qed

end
