(* ===== verification/Smp.thy ===== *)
theory Smp
  imports Interrupts
begin

text \<open>
  Bringing up the cores and running threads on them: \<^verbatim>\<open>stardust/src/smp.rs\<close> and the two
  final loops of \<^verbatim>\<open>stardust/src/task/scheduler.rs\<close> (\<open>lock_core0_as_supervisor\<close>,
  \<open>lock_ap_as_worker\<close>).

  The cores run concurrently, so this is a step relation: each constructor is one atomic action of
  one core (an atomic read-modify-write, a critical section of the scheduler's lock, or code that
  touches only the core itself).  Core 0 is the boot processor; the others are numbered by their
  position in the table of the boot loader.
\<close>

section \<open>State\<close>

datatype bsp_pc =
    Waking nat              \<comment> \<open>index into \<open>cpus\<close> of the loop that writes \<open>goto_address\<close>\<close>
  | Barrier                 \<comment> \<open>spinning on \<open>AP_READY_COUNT\<close>\<close>
  | Loading                 \<comment> \<open>\<open>smp::init\<close> has returned; the loader runs\<close>
  | Idt_Saved               \<comment> \<open>after \<^verbatim>\<open>sidt\<close>\<close>
  | Supervising             \<comment> \<open>after the god process was spawned\<close>

datatype ap_pc =
    Parked                          \<comment> \<open>in the boot loader, \<open>goto_address\<close> not written\<close>
  | Entered                         \<comment> \<open>at \<open>ap_main\<close>\<close>
  | Numbered u32                    \<comment> \<open>has its logical id\<close>
  | Initialized u32 core            \<comment> \<open>hardware, features and APIC initialized\<close>
  | Announced u32 core              \<comment> \<open>has incremented \<open>AP_READY_COUNT\<close>\<close>
  | Working u32 core                \<comment> \<open>in the dispatch loop\<close>
  | Halted_Core u32 core
  | In_User u32 core u64 u64        \<comment> \<open>left to user mode with this entry and stack\<close>

record smp =
  bsp :: bsp_pc
  ap :: "nat \<Rightarrow> ap_pc"
  LOGICAL_CORE_COUNT :: u64
  AP_READY_COUNT :: u64
  GLOBAL_IDTR :: "u8 list"
  sched :: scheduler
  apic_bus :: "(nat \<times> u64 \<times> u32) list"   \<comment> \<open>the writes to local APIC registers, with their core\<close>

text \<open>
  What is fixed during a run: the image and the selectors of the kernel, the lapic ids reported by
  the boot loader with that of the boot processor, the state in which the loader hands over a core,
  the kernel's statics when \<open>smp::init\<close> is called (of which only \<open>HHDM_OFFSET\<close> is read here) and
  the entry point that the kernel's loader returned.
\<close>

record ('pt, 'dev) boot_info =
  image_of :: image
  sel_of :: selectors
  lapic_ids :: "u32 list"
  bsp_lapic_id :: u32
  reset_core :: core
  boot_kernel :: "('pt, 'dev) kernel"
  god_entry_point :: u64

definition smp_start :: smp where
  "smp_start =
     \<lparr>bsp = Waking 0, ap = (\<lambda>_. Parked), LOGICAL_CORE_COUNT = 1, AP_READY_COUNT = 0,
      GLOBAL_IDTR = replicate 10 0, sched = scheduler_new, apic_bus = []\<rparr>"

definition god_stack :: u64 where
  "god_stack = 0x00007FFFFFFF0000"

section \<open>Model: one core's code\<close>

text \<open>\<open>ap_main\<close> between the two counters: the core, and its writes to its local APIC.\<close>

definition ap_init :: "('pt, 'dev) boot_info \<Rightarrow> u32 \<Rightarrow> (core \<times> (u64 \<times> u32) list) res" where
  "ap_init B logical_id =
     bindE (arch_init_ap_hardware (image_of B) (sel_of B) logical_id (reset_core B)) (\<lambda>c.
     let c = arch_init_ap_features c in
     bindE (arch_init_ap_apic \<lparr>kern = boot_kernel B, cpu = c, bus = []\<rparr>) (\<lambda>m. Inr (cpu m, bus m)))"

text \<open>
  \<open>lock_ap_as_worker\<close> up to its loop, and one iteration of the loop: the critical section and, for
  a thread, the transition to user mode.  The serial messages of the workers are left out: the
  serial port has no lock, so that their bytes interleave arbitrarily with those of other cores.
\<close>

definition lock_ap_as_worker :: "('pt, 'dev) boot_info \<Rightarrow> u8 list \<Rightarrow> u32 \<Rightarrow> core \<Rightarrow> ap_pc res" where
  "lock_ap_as_worker B idt logical_core_id c =
     bindE (worker_setup (image_of B) (sel_of B) idt c) (\<lambda>c.
     Inr (if logical_core_id > 3 then Halted_Core logical_core_id c else Working logical_core_id c))"

definition worker_iteration :: "u32 \<Rightarrow> core \<Rightarrow> scheduler \<Rightarrow> ap_pc \<times> scheduler" where
  "worker_iteration logical_core_id c q =
     (case pop_ready_thread q of
        (Some (ep, sp), q) \<Rightarrow> (In_User logical_core_id (drop_to_user_mode ep sp c) ep sp, q)
      | (None, q) \<Rightarrow> (Working logical_core_id c, q))"

text \<open>One iteration of the supervisor loop: the shootdown it starts, if any.\<close>

definition supervisor_poll :: "('pt, 'dev) kernel \<Rightarrow> (u64 \<times> u32) option \<times> ('pt, 'dev) kernel" where
  "supervisor_poll s =
     (let msg = SUPERVISOR_MAILBOX s; s = s\<lparr>SUPERVISOR_MAILBOX := 0\<rparr> in
      if msg \<noteq> 0 then
        if msg = 1 then (None, say ''[+] CORE 0: Handshake acknowledged.\<newline>'' s)
        else if msg = 2 then (let target_mask = 0b0000 in (Some (0x40001000, target_mask), s))
        else (None, s)
      else (None, s))"

section \<open>Model: the steps\<close>

inductive smp_step :: "('pt, 'dev) boot_info \<Rightarrow> smp \<Rightarrow> smp \<Rightarrow> bool" for B where
  wake: "bsp s = Waking i \<Longrightarrow> i < length (lapic_ids B) \<Longrightarrow> lapic_ids B ! i \<noteq> bsp_lapic_id B \<Longrightarrow>
    smp_step B s (s\<lparr>bsp := Waking (i + 1), ap := (ap s)(i := Entered)\<rparr>)"
| wake_self: "bsp s = Waking i \<Longrightarrow> i < length (lapic_ids B) \<Longrightarrow> lapic_ids B ! i = bsp_lapic_id B \<Longrightarrow>
    smp_step B s (s\<lparr>bsp := Waking (i + 1)\<rparr>)"
| woken: "bsp s = Waking i \<Longrightarrow> \<not> i < length (lapic_ids B) \<Longrightarrow> 1 \<le> length (lapic_ids B) \<Longrightarrow>
    smp_step B s (s\<lparr>bsp := Barrier\<rparr>)"
| barrier: "bsp s = Barrier \<Longrightarrow> \<not> AP_READY_COUNT s < of_nat (length (lapic_ids B) - 1) \<Longrightarrow>
    smp_step B s (s\<lparr>bsp := Loading\<rparr>)"
| sidt: "bsp s = Loading \<Longrightarrow>
    smp_step B s (s\<lparr>GLOBAL_IDTR := idt_image (image_of B), bsp := Idt_Saved\<rparr>)"
| spawn_god: "bsp s = Idt_Saved \<Longrightarrow> spawn_thread 0 god_stack (god_entry_point B) (sched s) = Inr (r, q) \<Longrightarrow>
    smp_step B s (s\<lparr>sched := q, bsp := Supervising\<rparr>)"
| take_id: "ap s i = Entered \<Longrightarrow>
    smp_step B s (s\<lparr>ap := (ap s)(i := Numbered (ucast (LOGICAL_CORE_COUNT s))),
      LOGICAL_CORE_COUNT := LOGICAL_CORE_COUNT s + 1\<rparr>)"
| initialize: "ap s i = Numbered n \<Longrightarrow> ap_init B n = Inr (c, ws) \<Longrightarrow>
    smp_step B s (s\<lparr>ap := (ap s)(i := Initialized n c), apic_bus := apic_bus s @ map (Pair i) ws\<rparr>)"
| announce: "ap s i = Initialized n c \<Longrightarrow>
    smp_step B s (s\<lparr>ap := (ap s)(i := Announced n (cli c)), AP_READY_COUNT := AP_READY_COUNT s + 1\<rparr>)"
| become_worker: "ap s i = Announced n c \<Longrightarrow> lock_ap_as_worker B (GLOBAL_IDTR s) n c = Inr p \<Longrightarrow>
    smp_step B s (s\<lparr>ap := (ap s)(i := p)\<rparr>)"
| work: "ap s i = Working n c \<Longrightarrow> worker_iteration n c (sched s) = (p, q) \<Longrightarrow>
    smp_step B s (s\<lparr>ap := (ap s)(i := p), sched := q\<rparr>)"
| user_spawn: "ap s i = In_User n c ep sp \<Longrightarrow> global_spawn_thread entry stack (sched s) = Inr q \<Longrightarrow>
    smp_step B s (s\<lparr>sched := q\<rparr>)"

inductive smp_reach :: "('pt, 'dev) boot_info \<Rightarrow> smp \<Rightarrow> bool" for B where
  start: "smp_reach B smp_start"
| step: "smp_reach B s \<Longrightarrow> smp_step B s t \<Longrightarrow> smp_reach B t"

text \<open>What a worker becomes.\<close>

lemma lock_ap_as_workerE:
  assumes "lock_ap_as_worker B idt n c = Inr p"
  obtains c' where "worker_setup (image_of B) (sel_of B) idt c = Inr c'"
    "p = (if n > 3 then Halted_Core n c' else Working n c')"
  using assms by (auto simp: lock_ap_as_worker_def res_simps)

lemma worker_iterationE:
  assumes "worker_iteration n c q = (p, q')"
  obtains ep sp where "pop_ready_thread q = (Some (ep, sp), q')" "p = In_User n (drop_to_user_mode ep sp c) ep sp"
  | "pop_ready_thread q = (None, q')" "p = Working n c"
  using assms by (auto simp: worker_iteration_def split: prod.splits option.splits)

section \<open>Numbering and the barrier\<close>

text \<open>What the boot loader guarantees of its table: different ids, the boot processor among them.\<close>

definition good_table :: "('pt, 'dev) boot_info \<Rightarrow> bool" where
  "good_table B \<longleftrightarrow> distinct (lapic_ids B) \<and> bsp_lapic_id B \<in> set (lapic_ids B) \<and> length (lapic_ids B) < 2 ^ 32"

definition aps :: "('pt, 'dev) boot_info \<Rightarrow> nat set" where
  "aps B = {i. i < length (lapic_ids B) \<and> lapic_ids B ! i \<noteq> bsp_lapic_id B}"

fun id_of :: "ap_pc \<Rightarrow> u32 option" where
  "id_of Parked = None"
| "id_of Entered = None"
| "id_of (Numbered n) = Some n"
| "id_of (Initialized n c) = Some n"
| "id_of (Announced n c) = Some n"
| "id_of (Working n c) = Some n"
| "id_of (Halted_Core n c) = Some n"
| "id_of (In_User n c ep sp) = Some n"

fun ready :: "ap_pc \<Rightarrow> bool" where
  "ready (Announced n c) = True"
| "ready (Working n c) = True"
| "ready (Halted_Core n c) = True"
| "ready (In_User n c ep sp) = True"
| "ready _ = False"

lemma worker_pc:
  "lock_ap_as_worker B idt n c = Inr p \<Longrightarrow> id_of p = Some n \<and> ready p"
  "worker_iteration n c q = (p, q') \<Longrightarrow> id_of p = Some n \<and> ready p"
  by (auto elim: lock_ap_as_workerE worker_iterationE)

definition ids :: "smp \<Rightarrow> nat \<rightharpoonup> u32" where
  "ids s = (\<lambda>i. id_of (ap s i))"

fun reached :: "bsp_pc \<Rightarrow> nat \<Rightarrow> bool" where
  "reached (Waking j) i \<longleftrightarrow> i < j"
| "reached _ i \<longleftrightarrow> True"

lemma finite_aps [simp]: "finite (aps B)"
  by (simp add: aps_def)

lemma card_aps:
  assumes "good_table B"
  shows "card (aps B) = length (lapic_ids B) - 1"
proof -
  obtain k where k: "k < length (lapic_ids B)" "lapic_ids B ! k = bsp_lapic_id B"
    using assms by (auto simp: good_table_def in_set_conv_nth)
  have "aps B = {..<length (lapic_ids B)} - {k}"
    using assms k nth_eq_iff_index_eq [of "lapic_ids B" _ k] by (auto simp: aps_def good_table_def)
  with k(1) show ?thesis by simp
qed

lemma smp_parked:
  assumes "smp_reach B s"
  shows "ap s i = Parked \<or> i \<in> aps B \<and> reached (bsp s) i"
  using assms
proof (induction arbitrary: i rule: smp_reach.induct)
  case (step s t)
  have IH: "ap s j = Parked \<or> j \<in> aps B \<and> reached (bsp s) j" for j by (rule step.IH)
  from step.hyps(2) show ?case
  proof (cases rule: smp_step.cases)
    case (wake j)
    then show ?thesis using IH [of i] by (auto simp: aps_def less_Suc_eq)
  next
    case (wake_self j)
    then show ?thesis using IH [of i] by (auto simp: less_Suc_eq)
  qed (use IH [of i] in \<open>auto split: if_splits\<close>)
qed (simp add: smp_start_def)

lemma ids_dom: "smp_reach B s \<Longrightarrow> dom (ids s) \<subseteq> aps B"
  using smp_parked by (force simp: ids_def dom_def)

lemma ids_step:
  assumes "smp_reach B s" "smp_step B s t"
  shows "ids t = ids s \<and> LOGICAL_CORE_COUNT t = LOGICAL_CORE_COUNT s \<or>
    (\<exists>i. ids s i = None \<and> i \<in> aps B \<and> ids t = (ids s)(i \<mapsto> ucast (LOGICAL_CORE_COUNT s)) \<and>
       LOGICAL_CORE_COUNT t = LOGICAL_CORE_COUNT s + 1)"
  using assms(2)
proof (cases rule: smp_step.cases)
  case (wake i)
  then have "ap s i = Parked" using smp_parked [OF assms(1), of i] by auto
  with wake show ?thesis by (auto simp: ids_def)
next
  case (take_id i)
  then have "i \<in> aps B" using smp_parked [OF assms(1), of i] by auto
  with take_id show ?thesis by (intro disjI2 exI [of _ i]) (auto simp: ids_def)
qed (auto simp: ids_def fun_eq_iff dest: worker_pc)

definition ids_inv :: "smp \<Rightarrow> bool" where
  "ids_inv s \<longleftrightarrow>
     unat (LOGICAL_CORE_COUNT s) = Suc (card (dom (ids s))) \<and>
     (\<forall>i n. ids s i = Some n \<longrightarrow> 1 \<le> unat n \<and> unat n \<le> card (dom (ids s))) \<and>
     inj_on (ids s) (dom (ids s))"

text \<open>One more core with the value of the counter keeps the numbering injective and the counter ahead.\<close>

lemma ids_inv_insert:
  assumes "ids_inv s" "ids s i = None" "finite (dom (ids s))" "Suc (card (dom (ids s))) < 2 ^ 32"
    and t: "ids t = (ids s)(i \<mapsto> ucast (LOGICAL_CORE_COUNT s))" "LOGICAL_CORE_COUNT t = LOGICAL_CORE_COUNT s + 1"
  shows "ids_inv t"
proof -
  let ?n = "card (dom (ids s))" and ?m = "ucast (LOGICAL_CORE_COUNT s) :: u32"
  have lcc: "unat (LOGICAL_CORE_COUNT s) = Suc ?n" using assms(1) by (simp add: ids_inv_def)
  then have id: "unat ?m = Suc ?n"
    using assms(4) unat_ucast_small [of "LOGICAL_CORE_COUNT s", where 'b = 32] by simp
  have count: "unat (LOGICAL_CORE_COUNT s + 1) = Suc (Suc ?n)"
    using unat_add_no_overflow [of "LOGICAL_CORE_COUNT s" 1] lcc assms(4) by simp
  have new: "i \<notin> dom (ids s)" using assms(2) by auto
  have fresh: "ids s j \<noteq> Some ?m" for j
  proof
    assume "ids s j = Some ?m"
    then have "unat ?m \<le> ?n" using assms(1) unfolding ids_inv_def by blast
    with id show False by simp
  qed
  have dom: "dom (ids t) = insert i (dom (ids s))" "card (dom (ids t)) = Suc ?n"
    using t(1) assms(3) new by simp_all
  have "1 \<le> unat m \<and> unat m \<le> Suc ?n" if "ids t j = Some m" for j m
    using that t(1) id assms(1) by (cases "j = i") (auto simp: ids_inv_def intro: le_SucI)
  moreover have "inj_on (ids s) (dom (ids s))" using assms(1) by (simp add: ids_inv_def)
  then have "inj_on (ids t) (dom (ids t))"
    unfolding dom(1) t(1) using new fresh by (auto simp: inj_on_def)
  ultimately show ?thesis using count dom(2) t(2) by (simp add: ids_inv_def)
qed

lemma ids_inv_reach:
  assumes "good_table B" "smp_reach B s"
  shows "ids_inv s"
  using assms(2)
proof (induction rule: smp_reach.induct)
  case (step s t)
  have fin: "finite (dom (ids s))" by (rule finite_subset [OF ids_dom [OF step.hyps(1)]]) simp
  consider "ids t = ids s" "LOGICAL_CORE_COUNT t = LOGICAL_CORE_COUNT s" |
    i where "ids s i = None" "i \<in> aps B" "ids t = (ids s)(i \<mapsto> ucast (LOGICAL_CORE_COUNT s))"
      "LOGICAL_CORE_COUNT t = LOGICAL_CORE_COUNT s + 1"
    using ids_step [OF step.hyps] by blast
  then show ?case
  proof cases
    case 1
    with step.IH show ?thesis by (simp add: ids_inv_def)
  next
    case 2
    have "insert i (dom (ids s)) \<subseteq> aps B" using 2(2) ids_dom [OF step.hyps(1)] by simp
    then have "Suc (card (dom (ids s))) \<le> card (aps B)"
      using card_mono [of "aps B" "insert i (dom (ids s))"] fin 2(1) by (simp add: card_insert_if domIff)
    moreover have "card (aps B) < 2 ^ 32"
      using assms(1) unfolding card_aps [OF assms(1)] good_table_def by (metis less_imp_diff_less)
    ultimately have "Suc (card (dom (ids s))) < 2 ^ 32" by (rule le_less_trans)
    from ids_inv_insert [OF step.IH 2(1) fin this 2(3,4)] show ?thesis .
  qed
qed (simp add: ids_inv_def smp_start_def ids_def dom_def)

lemma ready_step:
  assumes "smp_step B s t"
  shows "{i. ready (ap t i)} = {i. ready (ap s i)} \<and> AP_READY_COUNT t = AP_READY_COUNT s \<or>
    (\<exists>i. \<not> ready (ap s i) \<and> ap s i \<noteq> Parked \<and> {j. ready (ap t j)} = insert i {j. ready (ap s j)} \<and>
       AP_READY_COUNT t = AP_READY_COUNT s + 1) \<or>
    (\<exists>i. ready (ap s i) \<and> bsp s = Waking i)"
  using assms
proof (cases rule: smp_step.cases)
  case (announce i n c)
  then show ?thesis by (intro disjI2 disjI1 exI [of _ i]) auto
qed (auto dest: worker_pc split: if_splits)

lemma ready_count:
  assumes "good_table B" "smp_reach B s"
  shows "unat (AP_READY_COUNT s) = card {i. ready (ap s i)} \<and> {i. ready (ap s i)} \<subseteq> aps B"
  using assms(2)
proof (induction rule: smp_reach.induct)
  case (step s t)
  have sub: "{i. ready (ap r i)} \<subseteq> aps B" if "smp_reach B r" for r
    using smp_parked [OF that] by force
  have fin: "finite {i. ready (ap s i)}" by (rule finite_subset [OF sub [OF step.hyps(1)]]) simp
  have bound: "card {i. ready (ap t i)} \<le> length (lapic_ids B) - 1"
    using card_mono [OF finite_aps sub [OF smp_reach.step [OF step.hyps]]] card_aps [OF assms(1)] by simp
  have "\<not> (\<exists>i. ready (ap s i) \<and> bsp s = Waking i)"
    using smp_parked [OF step.hyps(1)] by force
  then consider "{i. ready (ap t i)} = {i. ready (ap s i)}" "AP_READY_COUNT t = AP_READY_COUNT s" |
    i where "\<not> ready (ap s i)" "{j. ready (ap t j)} = insert i {j. ready (ap s j)}"
      "AP_READY_COUNT t = AP_READY_COUNT s + 1"
    using ready_step [OF step.hyps(2)] by blast
  then show ?case
  proof cases
    case 1
    then show ?thesis using step.IH by simp
  next
    case 2
    have len: "length (lapic_ids B) < 2 ^ 32" using assms(1) by (simp add: good_table_def)
    have card: "card {j. ready (ap t j)} = Suc (unat (AP_READY_COUNT s))"
      using 2(1,2) fin step.IH by simp
    then have "unat (AP_READY_COUNT s + 1) = Suc (unat (AP_READY_COUNT s))"
      using bound len unat_add_no_overflow [of "AP_READY_COUNT s" 1] by simp
    then show ?thesis using card 2(3) sub [OF smp_reach.step [OF step.hyps]] by simp
  qed
qed (simp add: smp_start_def)

text \<open>Past the barrier all application processors are ready, and stay so.\<close>

fun past_barrier :: "bsp_pc \<Rightarrow> bool" where
  "past_barrier (Waking j) = False"
| "past_barrier Barrier = False"
| "past_barrier _ = True"

lemma ready_mono:
  assumes "smp_step B s t" "smp_reach B s" "ready (ap s i)"
  shows "ready (ap t i)"
  using assms(1)
proof (cases rule: smp_step.cases)
  case (wake j)
  then have "i \<noteq> j" using smp_parked [OF assms(2), of i] assms(3) by auto
  then show ?thesis using wake assms(3) by simp
qed (use assms(3) in \<open>auto dest: worker_pc\<close>)

lemma barrier_step:
  assumes "smp_step B s t" "\<not> past_barrier (bsp s)" "past_barrier (bsp t)"
  shows "bsp s = Barrier \<and> \<not> AP_READY_COUNT s < of_nat (length (lapic_ids B) - 1) \<and> ap t = ap s"
  using assms by (cases rule: smp_step.cases) auto

lemma past_barrier_ready:
  assumes "good_table B" "smp_reach B s" "past_barrier (bsp s)" "i \<in> aps B"
  shows "ready (ap s i)"
  using assms(2,3)
proof (induction rule: smp_reach.induct)
  case (step s t)
  show ?case
  proof (cases "past_barrier (bsp s)")
    case True
    then show ?thesis using step.IH ready_mono [OF step.hyps(2,1)] by blast
  next
    case False
    then have b: "bsp s = Barrier" "\<not> AP_READY_COUNT s < of_nat (length (lapic_ids B) - 1)" "ap t = ap s"
      using barrier_step [OF step.hyps(2)] step.prems by auto
    have "length (lapic_ids B) < 2 ^ 64" using assms(1) by (simp add: good_table_def)
    then have "length (lapic_ids B) - 1 < 2 ^ 64" by (rule less_imp_diff_less)
    then have "length (lapic_ids B) - 1 \<le> unat (AP_READY_COUNT s)"
      using b(2) by (simp add: word_less_nat_alt unat_of_nat_small not_less)
    then have "{i. ready (ap s i)} = aps B"
      using ready_count [OF assms(1) step.hyps(1)] card_aps [OF assms(1)] by (intro card_seteq) auto
    then show ?thesis using b(3) assms(4) by auto
  qed
qed (simp add: smp_start_def)

section \<open>The first process\<close>

lemma spawn_appends:
  assumes "sched_inv q" "spawn_thread pid sp ip q = Inr (r, q')"
  shows "sched_inv q' \<and> (\<exists>xs. ready_queue q' = ready_queue q @ xs)"
proof (cases "unat (thread_count q) < MAX_THREADS")
  case True
  then show ?thesis
    using assms spawn_thread_room [OF assms(1) True, of pid sp ip] spawn_thread_inv [OF assms(1) True]
      spawn_thread_queue [OF assms(1) True] by auto
next
  case False
  then have "unat (thread_count q) = MAX_THREADS" using sched_inv_count [OF assms(1)] by simp
  then show ?thesis using assms spawn_thread_full [OF assms(1)] by simp
qed

lemma pop_effect:
  assumes "sched_inv q" "pop_ready_thread q = (r, q')"
  shows "sched_inv q' \<and> (case r of None \<Rightarrow> ready_queue q = [] \<and> q' = q | Some x \<Rightarrow> ready_queue q = x # ready_queue q')"
proof (cases "ready_queue q")
  case Nil
  then show ?thesis using assms pop_ready_thread_nil [OF assms(1) Nil] by simp
next
  case (Cons x xs)
  then show ?thesis using assms pop_ready_thread_cons [OF assms(1) Cons] by auto
qed

definition in_user :: "smp \<Rightarrow> nat \<Rightarrow> u64 \<Rightarrow> u64 \<Rightarrow> bool" where
  "in_user s i ep sp \<longleftrightarrow> (\<exists>n c. ap s i = In_User n c ep sp)"

definition god_inv :: "('pt, 'dev) boot_info \<Rightarrow> smp \<Rightarrow> bool" where
  "god_inv B s \<longleftrightarrow> sched_inv (sched s) \<and>
     (if bsp s \<noteq> Supervising then sched s = scheduler_new \<and> (\<forall>i ep sp. \<not> in_user s i ep sp)
      else (\<exists>i. in_user s i (god_entry_point B) god_stack) \<or>
        (\<forall>i ep sp. \<not> in_user s i ep sp) \<and> (\<exists>xs. ready_queue (sched s) = (god_entry_point B, god_stack) # xs))"

lemma in_user_upd:
  "in_user (s\<lparr>ap := (ap s)(i := p)\<rparr>) j ep sp \<longleftrightarrow>
     (if j = i then (\<exists>n c. p = In_User n c ep sp) else in_user s j ep sp)"
  by (simp add: in_user_def)

lemma god_inv_other:
  assumes "god_inv B s" "bsp t = Supervising \<longleftrightarrow> bsp s = Supervising" "sched t = sched s"
    "\<And>i ep sp. in_user t i ep sp = in_user s i ep sp"
  shows "god_inv B t"
  using assms by (simp add: god_inv_def)

text \<open>The two steps that change the run queue after the god process is there.\<close>

lemma god_inv_work:
  assumes god: "god_inv B s" and work: "ap s i = Working n c" "worker_iteration n c (sched s) = (p, q)"
  shows "god_inv B (s\<lparr>ap := (ap s)(i := p), sched := q\<rparr>)" (is "god_inv B ?t")
proof -
  have inv: "sched_inv (sched s)" using god by (simp add: god_inv_def)
  from work(2) show ?thesis
  proof (cases rule: worker_iterationE)
    case (1 ep sp)
    have q: "ready_queue (sched s) = (ep, sp) # ready_queue q" "sched_inv q"
      using pop_effect [OF inv 1(1)] by simp_all
    then have sup: "bsp s = Supervising" using god by (auto simp: god_inv_def ready_queue_new split: if_splits)
    have keep: "in_user ?t j e x" if "in_user s j e x" for j e x using that work(1) by (auto simp: in_user_def)
    have this_one: "in_user ?t i ep sp" using 1(2) by (simp add: in_user_def)
    have "\<exists>j. in_user ?t j (god_entry_point B) god_stack"
      using god sup q(1) keep this_one by (auto simp: god_inv_def)
    with sup q(2) show ?thesis by (simp add: god_inv_def)
  next
    case 2
    have "q = sched s" using pop_effect [OF inv 2(1)] by simp
    with work 2 show ?thesis by (intro god_inv_other [OF god]) (auto simp: in_user_def)
  qed
qed

lemma god_inv_user_spawn:
  assumes god: "god_inv B s" and spawn: "ap s i = In_User n c ep sp" "global_spawn_thread entry stack (sched s) = Inr q"
  shows "god_inv B (s\<lparr>sched := q\<rparr>)"
proof -
  have inv: "sched_inv (sched s)" using god by (simp add: god_inv_def)
  obtain r where "spawn_thread 1 stack entry (sched s) = Inr (r, q)"
    using spawn(2) by (auto simp: global_spawn_thread_def res_simps)
  then have q: "sched_inv q" using spawn_appends [OF inv] by blast
  have "in_user s i ep sp" using spawn(1) by (auto simp: in_user_def)
  then have "bsp s = Supervising" "\<exists>j. in_user s j (god_entry_point B) god_stack"
    using god by (auto simp: god_inv_def split: if_splits)
  with q show ?thesis by (simp add: god_inv_def in_user_def)
qed

lemma god_inv_step:
  assumes "smp_reach B s" "smp_step B s t" "god_inv B s"
  shows "god_inv B t"
  using assms(2)
proof (cases rule: smp_step.cases)
  case (wake i)
  have "\<not> in_user s i ep sp" for ep sp
    using smp_parked [OF assms(1), of i] wake(2) by (auto simp: in_user_def)
  then show ?thesis using wake by (intro god_inv_other [OF assms(3)]) (auto simp: in_user_def)
next
  case (spawn_god r q)
  have new: "sched s = scheduler_new" "\<forall>i ep sp. \<not> in_user s i ep sp"
    using assms(3) spawn_god(2) by (simp_all add: god_inv_def)
  have room: "unat (thread_count scheduler_new) < MAX_THREADS"
    by (simp add: scheduler_new_def MAX_THREADS_def)
  have "sched_inv q" "ready_queue q = [(god_entry_point B, god_stack)]"
    using spawn_god(3) spawn_thread_room [OF sched_inv_new room, of 0 god_stack "god_entry_point B"]
      spawn_thread_queue [OF sched_inv_new room, of 0 god_stack "god_entry_point B"]
      spawn_thread_inv [OF sched_inv_new room, of 0 god_stack "god_entry_point B"]
    by (auto simp: new ready_queue_new)
  with new(2) spawn_god(1) show ?thesis by (simp add: god_inv_def in_user_def)
next
  case (work i n c p q)
  from god_inv_work [OF assms(3) work(2,3)] work(1) show ?thesis by simp
next
  case (user_spawn i n c ep sp entry stack q)
  from god_inv_user_spawn [OF assms(3) user_spawn(2,3)] user_spawn(1) show ?thesis by simp
next
  case (become_worker i n c p)
  then show ?thesis
    by (elim lock_ap_as_workerE) (auto simp: in_user_def intro!: god_inv_other [OF assms(3)] split: if_splits)
qed (auto simp: in_user_def intro!: god_inv_other [OF assms(3)] split: if_splits)

lemma god_inv_reach: "smp_reach B s \<Longrightarrow> god_inv B s"
proof (induction rule: smp_reach.induct)
  case start
  show ?case by (simp add: god_inv_def smp_start_def sched_inv_new in_user_def)
next
  case (step s t)
  then show ?case by (blast intro: god_inv_step)
qed

section \<open>Workers\<close>

lemma worker_ids:
  "smp_reach B s \<Longrightarrow> (\<forall>i n c. ap s i = Working n c \<longrightarrow> n \<le> 3) \<and> (\<forall>i n c ep sp. ap s i = In_User n c ep sp \<longrightarrow> n \<le> 3)"
proof (induction rule: smp_reach.induct)
  case (step s t)
  from step.hyps(2) step.IH show ?case
    by (cases rule: smp_step.cases)
      (auto elim!: lock_ap_as_workerE worker_iterationE simp: not_less split: if_splits)
qed (simp add: smp_start_def)

text \<open>A run of a machine with two cores in which the worker is faster than core 0.\<close>

definition two_cores :: "bsp_pc \<Rightarrow> ap_pc \<Rightarrow> u64 \<Rightarrow> u64 \<Rightarrow> u8 list \<Rightarrow> scheduler \<Rightarrow> (nat \<times> u64 \<times> u32) list \<Rightarrow> smp" where
  "two_cores b p lcc rc idt q w =
     \<lparr>bsp = b, ap = (\<lambda>_. Parked)(1 := p), LOGICAL_CORE_COUNT = lcc, AP_READY_COUNT = rc, GLOBAL_IDTR = idt, sched = q, apic_bus = w\<rparr>"

lemma smp_reach_to: "smp_reach B s \<Longrightarrow> smp_step B s t \<Longrightarrow> t = t' \<Longrightarrow> smp_reach B t'"
  using smp_reach.step by blast

lemma configure_msrs_ok: "8 \<le> user_data sel \<Longrightarrow> \<exists>c'. configure_msrs img sel c = Inr c' \<and> idtr c' = idtr c"
  by (simp add: configure_msrs_def sub_chk_def Let_def write_msr_def)

text \<open>The local APIC of an application processor can be reached through the direct map.\<close>

definition lapic_ok :: "('pt, 'dev) boot_info \<Rightarrow> bool" where
  "lapic_ok B \<longleftrightarrow> apic_ok \<lparr>kern = boot_kernel B, cpu = reset_core B, bus = []\<rparr>"

lemma configure_msrs_apic_base: "configure_msrs img sel c = Inr c' \<Longrightarrow> MSR c' IA32_APIC_BASE = MSR c IA32_APIC_BASE"
  by (auto simp: configure_msrs_def sub_chk_def Let_def write_msr_def split: if_splits)

lemma ap_init_ok:
  assumes "8 \<le> user_data (sel_of B)" "lapic_ok B"
  shows "\<exists>c ws. ap_init B n = Inr (c, ws) \<and> idtr c = idt_image (image_of B)"
proof -
  let ?c = "idt_init (image_of B) (gdt_init_ap (image_of B) (sel_of B) n (reset_core B))"
  obtain c where c: "configure_msrs (image_of B) (sel_of B) ?c = Inr c" "idtr c = idtr ?c"
    using configure_msrs_ok [OF assms(1)] by blast
  let ?m = "\<lparr>kern = boot_kernel B, cpu = enable_pcid_ap c, bus = []\<rparr>"
  have "MSR (enable_pcid_ap c) IA32_APIC_BASE = MSR (reset_core B) IA32_APIC_BASE"
    using configure_msrs_apic_base [OF c(1)] by (simp add: enable_pcid_ap_def idt_init_def gdt_init_ap_def Let_def)
  then have "apic_ok ?m" using assms(2) by (simp add: lapic_ok_def apic_ok_def lapic_def)
  then obtain m where "setup_apic_registers ?m = Inr m" "cpu m = enable_pcid_ap c"
    using setup_apic_registers_ok by force
  then show ?thesis using c
    by (simp add: ap_init_def init_ap_hardware_def apic_init_ap_def Let_def) (simp add: enable_pcid_ap_def idt_init_def)
qed

lemma worker_setup_ok:
  assumes "8 \<le> user_data sel"
  shows "\<exists>c'. worker_setup img sel idt c = Inr c' \<and> idtr c' = idt"
proof -
  obtain c1 where c1: "configure_msrs img sel (c\<lparr>idtr := idt\<rparr>) = Inr c1" "idtr c1 = idt"
    using configure_msrs_ok [OF assms, of img "c\<lparr>idtr := idt\<rparr>"] by auto
  then show ?thesis
    by (simp add: worker_setup_def Let_def write_msr_def clear_task_switched_def cli_def)
qed

lemma drop_to_user_mode_idtr: "idtr (drop_to_user_mode e sp c) = idtr c"
  by (simp add: drop_to_user_mode_def iretq_def instr_simps cli_def set_task_switched_def)

lemma spawn_then_pop:
  "\<exists>r q q'. spawn_thread 0 god_stack entry scheduler_new = Inr (r, q) \<and> pop_ready_thread q = (Some (entry, god_stack), q')"
proof -
  have room: "unat (thread_count scheduler_new) < MAX_THREADS" by (simp add: scheduler_new_def MAX_THREADS_def)
  obtain r q where q: "spawn_thread 0 god_stack entry scheduler_new = Inr (r, q)" "sched_inv q"
    "ready_queue q = [(entry, god_stack)]"
    using spawn_thread_room [OF sched_inv_new room, of 0 god_stack entry]
      spawn_thread_queue [OF sched_inv_new room, of 0 god_stack entry]
      spawn_thread_inv [OF sched_inv_new room, of 0 god_stack entry]
    by (simp add: ready_queue_new)
  then show ?thesis using pop_ready_thread_cons [OF q(2,3)] by blast
qed

lemma two_core_race:
  assumes "lapic_ids B = [b, a]" "a \<noteq> b" "bsp_lapic_id B = b" "8 \<le> user_data (sel_of B)"
    "lapic_ok B"
  shows "\<exists>s c. smp_reach B s \<and> ap s 1 = In_User 1 c (god_entry_point B) god_stack \<and> idtr c = replicate 10 0"
proof -
  let ?z = "replicate 10 (0::u8)" and ?R = "smp_reach B"
  obtain c0 ws where c0: "ap_init B 1 = Inr (c0, ws)" using ap_init_ok [OF assms(4,5)] by blast
  let ?w = "map (Pair (1 :: nat)) ws"
  obtain c1 where c1: "worker_setup (image_of B) (sel_of B) ?z (cli c0) = Inr c1" "idtr c1 = ?z"
    using worker_setup_ok [OF assms(4)] by blast
  obtain r q q' where q: "spawn_thread 0 god_stack (god_entry_point B) scheduler_new = Inr (r, q)"
    and q': "pop_ready_thread q = (Some (god_entry_point B, god_stack), q')"
    using spawn_then_pop by blast
  have "?R (two_cores (Waking 1) Parked 1 0 ?z scheduler_new [])"
    by (rule smp_reach_to [OF smp_reach.start smp_step.wake_self [where i = 0]])
      (use assms in \<open>simp_all add: smp_start_def two_cores_def fun_upd_idem\<close>)
  then have "?R (two_cores (Waking 2) Entered 1 0 ?z scheduler_new [])"
    by (rule smp_reach_to [OF _ smp_step.wake [where i = 1]]) (use assms in \<open>simp_all add: two_cores_def\<close>)
  then have "?R (two_cores Barrier Entered 1 0 ?z scheduler_new [])"
    by (rule smp_reach_to [OF _ smp_step.woken [where i = 2]]) (use assms in \<open>simp_all add: two_cores_def\<close>)
  then have "?R (two_cores Barrier (Numbered 1) 2 0 ?z scheduler_new [])"
    by (rule smp_reach_to [OF _ smp_step.take_id [where i = 1]]) (simp_all add: two_cores_def)
  then have "?R (two_cores Barrier (Initialized 1 c0) 2 0 ?z scheduler_new ?w)"
    by (rule smp_reach_to [OF _ smp_step.initialize [where i = 1, OF _ c0]]) (simp_all add: two_cores_def)
  then have "?R (two_cores Barrier (Announced 1 (cli c0)) 2 1 ?z scheduler_new ?w)"
    by (rule smp_reach_to [OF _ smp_step.announce [where i = 1]]) (simp_all add: two_cores_def)
  then have "?R (two_cores Loading (Announced 1 (cli c0)) 2 1 ?z scheduler_new ?w)"
    by (rule smp_reach_to [OF _ smp_step.barrier]) (use assms in \<open>simp_all add: two_cores_def\<close>)
  then have "?R (two_cores Loading (Working 1 c1) 2 1 ?z scheduler_new ?w)"
    by (rule smp_reach_to [OF _ smp_step.become_worker [where i = 1 and n = 1 and c = "cli c0" and p = "Working 1 c1"]])
      (simp_all add: two_cores_def lock_ap_as_worker_def c1(1) word_less_nat_alt)
  then have "?R (two_cores Idt_Saved (Working 1 c1) 2 1 (idt_image (image_of B)) scheduler_new ?w)"
    by (rule smp_reach_to [OF _ smp_step.sidt]) (simp_all add: two_cores_def)
  then have "?R (two_cores Supervising (Working 1 c1) 2 1 (idt_image (image_of B)) q ?w)"
    by (rule smp_reach_to [OF _ smp_step.spawn_god]) (simp_all add: two_cores_def q)
  then have "?R (two_cores Supervising (In_User 1 (drop_to_user_mode (god_entry_point B) god_stack c1)
      (god_entry_point B) god_stack) 2 1 (idt_image (image_of B)) q' ?w)"
    by (rule smp_reach_to [OF _ smp_step.work [where i = 1 and n = 1 and c = c1 and q = q'
          and p = "In_User 1 (drop_to_user_mode (god_entry_point B) god_stack c1) (god_entry_point B) god_stack"]])
      (simp_all add: two_cores_def worker_iteration_def q')
  moreover have "idtr (drop_to_user_mode (god_entry_point B) god_stack c1) = ?z"
    using c1(2) by (simp add: drop_to_user_mode_idtr)
  ultimately show ?thesis by (force simp: two_cores_def)
qed

definition example_boot :: "(flat_table, (u16 \<times> nat \<times> u32) list) boot_info" where
  "example_boot =
     \<lparr>image_of = \<lparr>gdt_addr = 0x2000, idt_image = replicate 10 0xFF, syscall_entry_addr = 0x1000\<rparr>,
      sel_of = snd (GDT example_gdt), lapic_ids = [0, 1], bsp_lapic_id = 0, reset_core = example_core, boot_kernel = example_kernel,
      god_entry_point = 0x401000\<rparr>"

lemma example_boot_simps:
  "lapic_ids example_boot = [0, 1]" "bsp_lapic_id example_boot = 0" "8 \<le> user_data (sel_of example_boot)"
  "god_entry_point example_boot = 0x401000" "good_table example_boot" "lapic_ok example_boot"
  by (simp_all add: example_boot_def good_table_def GDT_selectors [OF example_gdt_laws] lapic_ok_def apic_ok_def
      example_kernel_def example_core_def unat_page_floor)

lemma example_user:
  "\<exists>s c. smp_reach example_boot s \<and> ap s 1 = In_User 1 c 0x401000 god_stack \<and> idtr c = replicate 10 0"
  using two_core_race [of example_boot 0 1] by (simp add: example_boot_simps)

section \<open>Properties\<close>

text \<open>
  C26. Logical core ids are unique: in every interleaving of the cores, two cores never have the same
  id, and ids are between 1 and the number of application processors.
\<close>

theorem logical_ids_unique:
  assumes "good_table B" and "smp_reach B s" and "id_of (ap s i) = Some n"
  shows "1 \<le> unat n \<and> unat n \<le> length (lapic_ids B) - 1 \<and> (id_of (ap s j) = Some n \<longrightarrow> j = i)"
proof -
  have inv: "ids_inv s" by (rule ids_inv_reach [OF assms(1,2)])
  have "card (dom (ids s)) \<le> length (lapic_ids B) - 1"
    using card_mono [OF finite_aps ids_dom [OF assms(2)]] card_aps [OF assms(1)] by simp
  moreover have "j = i" if "id_of (ap s j) = Some n"
    using inv that assms(3) inj_onD [of "ids s" "dom (ids s)" j i] by (auto simp: ids_inv_def ids_def)
  moreover have "1 \<le> unat n \<and> unat n \<le> card (dom (ids s))"
    using inv assms(3) unfolding ids_inv_def ids_def by blast
  ultimately show ?thesis by auto
qed

theorem logical_ids_unique_witness:
  "\<exists>s c. smp_reach example_boot s \<and> ap s 1 = In_User 1 c 0x401000 god_stack \<and>
     (\<forall>j. j \<noteq> 1 \<longrightarrow> id_of (ap s j) \<noteq> Some 1)"
proof -
  obtain s c where s: "smp_reach example_boot s" "ap s 1 = In_User 1 c 0x401000 god_stack"
    using example_user by blast
  then have "id_of (ap s 1) = Some 1" by simp
  from logical_ids_unique [OF example_boot_simps(5) s(1) this] s show ?thesis by blast
qed

text \<open>
  The boot barrier holds: once \<open>smp::init\<close> has returned on core 0, every application
  processor has been numbered and initialized and has announced itself, and this stays so.
\<close>

theorem smp_init_waits_for_all:
  assumes "good_table B" and "smp_reach B s" and "past_barrier (bsp s)"
    and "i < length (lapic_ids B)" and "lapic_ids B ! i \<noteq> bsp_lapic_id B"
  shows "ready (ap s i)"
  by (rule past_barrier_ready [OF assms(1-3)]) (simp add: assms(4,5) aps_def)

theorem smp_init_waits_for_all_witness:
  "\<exists>s. smp_reach example_boot s \<and> bsp s = Supervising \<and> ready (ap s 1)"
proof -
  obtain s c where s: "smp_reach example_boot s" "ap s 1 = In_User 1 c 0x401000 god_stack"
    using example_user by blast
  then have "in_user s 1 0x401000 god_stack" by (simp add: in_user_def)
  then have "bsp s = Supervising" using god_inv_reach [OF s(1)] by (auto simp: god_inv_def split: if_splits)
  then show ?thesis
    using s smp_init_waits_for_all [OF example_boot_simps(5) s(1), of 1] by (auto simp: example_boot_simps)
qed

text \<open>
  The god process runs first: whenever some core has left for user mode, core 0 has reached its
  supervisor loop and the god process, on its stack, was dispatched to some core; before that no core
  runs user code.
\<close>

theorem god_process_first:
  assumes "smp_reach B s" and "ap s i = In_User n c ep sp"
  shows "bsp s = Supervising \<and> (\<exists>j m d. ap s j = In_User m d (god_entry_point B) god_stack)"
proof -
  have "in_user s i ep sp" using assms(2) by (auto simp: in_user_def)
  then show ?thesis
    using god_inv_reach [OF assms(1)] by (auto simp: god_inv_def in_user_def split: if_splits)
qed

theorem god_process_first_witness:
  "\<exists>s. smp_reach example_boot s \<and> bsp s = Supervising"
proof -
  obtain s c where s: "smp_reach example_boot s" "ap s 1 = In_User 1 c 0x401000 god_stack"
    using example_user by blast
  from god_process_first [OF s] s(1) show ?thesis by blast
qed

text \<open>
  However many cores there are, at most three ever run user code: those with the logical ids 1
  to 3.
\<close>

theorem at_most_three_user_cores:
  assumes "good_table B" and "smp_reach B s"
  shows "card {i. \<exists>n c ep sp. ap s i = In_User n c ep sp} \<le> 3"
proof -
  let ?U = "{i. \<exists>n c ep sp. ap s i = In_User n c ep sp}"
  have inv: "ids_inv s" by (rule ids_inv_reach [OF assms])
  have "?U \<subseteq> dom (ids s)" by (auto simp: ids_def)
  then have "inj_on (ids s) ?U" using inv inj_on_subset unfolding ids_inv_def by blast
  moreover have "ids s ` ?U \<subseteq> Some ` {1, 2, 3}"
  proof
    fix x assume "x \<in> ids s ` ?U"
    then obtain i n c ep sp where i: "x = ids s i" "ap s i = In_User n c ep sp" by blast
    then have "n \<le> 3" using worker_ids [OF assms(2)] by blast
    with i have x: "x = Some n" "ids s i = Some n" "n \<le> 3" by (simp_all add: ids_def)
    then have "1 \<le> unat n" "unat n \<le> 3" using inv by (auto simp: ids_inv_def word_le_nat_alt)
    then have "unat n = unat (1::u32) \<or> unat n = unat (2::u32) \<or> unat n = unat (3::u32)" by auto
    then show "x \<in> Some ` {1, 2, 3}" using x(1) by (simp only: word_unat_eq_iff [symmetric]) auto
  qed
  ultimately have "card ?U \<le> card (Some ` {1, 2, 3 :: u32})" by (intro card_inj_on_le) auto
  also have "\<dots> \<le> 3" by (rule order_trans [OF card_image_le]) (auto simp: card_insert_if)
  finally show ?thesis .
qed

theorem at_most_three_user_cores_witness:
  "\<exists>s. smp_reach example_boot s \<and> (\<exists>c. ap s 1 = In_User 1 c 0x401000 god_stack) \<and>
     card {i. \<exists>n c ep sp. ap s i = In_User n c ep sp} \<le> 3"
  using example_user at_most_three_user_cores [OF example_boot_simps(5)] by blast

text \<open>
  The interrupt table of a worker depends on a race: with two cores there is a run in which the
  worker executes \<^verbatim>\<open>lidt\<close> before core 0 executes \<^verbatim>\<open>sidt\<close>, and the god process then runs on
  a core whose interrupt table register is all zero, although \<open>idt::init\<close> had loaded the real
  table on that core before.
\<close>

theorem worker_runs_without_idt:
  assumes "lapic_ids B = [b, a]" and "a \<noteq> b" and "bsp_lapic_id B = b" and "8 \<le> user_data (sel_of B)"
    and "lapic_ok B"
  shows "\<exists>s c. smp_reach B s \<and> ap s 1 = In_User 1 c (god_entry_point B) god_stack \<and> idtr c = replicate 10 0"
  using assms by (rule two_core_race)

theorem worker_runs_without_idt_witness:
  "\<exists>s c. smp_reach example_boot s \<and> ap s 1 = In_User 1 c (god_entry_point example_boot) god_stack \<and>
     idtr c = replicate 10 0 \<and> idt_image (image_of example_boot) \<noteq> replicate 10 0"
proof -
  have "\<exists>s c. smp_reach example_boot s \<and> ap s 1 = In_User 1 c (god_entry_point example_boot) god_stack \<and>
     idtr c = replicate 10 0"
    by (rule worker_runs_without_idt [where a = 1 and b = 0]) (simp_all add: example_boot_simps)
  moreover have "idt_image (image_of example_boot) \<noteq> replicate 10 0" by (simp add: example_boot_def)
  ultimately show ?thesis by blast
qed

text \<open>
  The only shootdown the supervisor ever starts has an empty mask, so whatever its completion
  message says, no core flushes anything.
\<close>

theorem supervisor_shootdown_flushes_nothing:
  assumes "supervisor_poll k = (Some (vaddr, cpu_mask), k')"
    and "sd_reach vaddr cpu_mask deliverable s"
  shows "cpu_mask = 0 \<and> flushes s = []"
proof -
  have mask: "cpu_mask = 0" using assms(1) by (auto simp: supervisor_poll_def Let_def split: if_splits)
  have inv: "sd_inv vaddr cpu_mask s" by (rule sd_reach_inv [OF assms(2)])
  have q: "sd_core s i = Quiet" for i using inv by (simp add: sd_inv_def mask sd_targets_def)
  have "(i, vaddr) \<notin> set (flushes s)" for i
    using sd_inv_core_ok [OF inv, of i] by (simp add: q)
  moreover have "snd ` set (flushes s) \<subseteq> {vaddr}" using inv by (simp add: sd_inv_def)
  ultimately have "x \<notin> set (flushes s)" for x by (cases x) auto
  then have "flushes s = []" by (cases "flushes s") (metis list.set_intros(1))+
  with mask show ?thesis by simp
qed

theorem supervisor_shootdown_flushes_nothing_witness:
  "supervisor_poll (example_kernel\<lparr>SUPERVISOR_MAILBOX := 2\<rparr>) = (Some (0x40001000, 0), example_kernel) \<and>
   flushes sd_start = []"
proof -
  have "supervisor_poll (example_kernel\<lparr>SUPERVISOR_MAILBOX := 2\<rparr>) = (Some (0x40001000, 0), example_kernel)"
    by (simp add: supervisor_poll_def example_kernel_def)
  with supervisor_shootdown_flushes_nothing [OF this sd_reach.start [of _ _ "\<lambda>_. True"]] show ?thesis by blast
qed

end
