(* ===== verification/Kernel_Elf.thy ===== *)
theory Kernel_Elf
  imports Syscall
begin

text \<open>
  Loading the first process: \<^verbatim>\<open>stardust/src/task/elf.rs\<close> (\<open>load_and_get_entry\<close>) and
  \<^verbatim>\<open>stardust/src/task/loader.rs\<close>.

  The image, the pages of the new process and the kernel live in one address space; the loader
  reads and writes them through the page table that it is extending.  All accesses below go through
  the MMU of the theory \<open>Memory\<close>, so an access to an unmapped page is a fault.
\<close>

section \<open>Raw memory accesses\<close>

text \<open>Reading the fields of a packed structure through a reference (checked for null).\<close>

definition read_le :: "('pt, 'p) platform_scheme \<Rightarrow> ('pt, 'm) mem_state_scheme \<Rightarrow> u64 \<Rightarrow> nat \<Rightarrow> u64 res" where
  "read_le P s va n = bindE (read_bytes P s va n) (\<lambda>bs. Inr (le_value bs))"

text \<open>\<open>core::ptr::write_bytes\<close> and \<open>core::ptr::copy_nonoverlapping\<close>, with the checks of the
  development profile.\<close>

definition fill_bytes :: "('pt, 'p) platform_scheme \<Rightarrow> u64 \<Rightarrow> u8 \<Rightarrow> nat \<Rightarrow> ('pt, 'm) mem_state_scheme \<Rightarrow>
    ('pt, 'm) mem_state_scheme res" where
  "fill_bytes P dst v n s = (if dst = 0 then Inl (Bad_Pointer dst) else write_bytes P dst (replicate n v) s)"

definition copy_nonoverlapping :: "('pt, 'p) platform_scheme \<Rightarrow> u64 \<Rightarrow> u64 \<Rightarrow> u64 \<Rightarrow> ('pt, 'm) mem_state_scheme \<Rightarrow>
    ('pt, 'm) mem_state_scheme res" where
  "copy_nonoverlapping P src dst n s =
     (if src = 0 then Inl (Bad_Pointer src)
      else if dst = 0 then Inl (Bad_Pointer dst)
      else if (if src \<le> dst then dst - src else src - dst) < n then Inl (Bad_Pointer dst)
      else bindE (read_bytes P s src (unat n)) (\<lambda>bs. write_bytes P dst bs s))"

section \<open>Model: ELF headers\<close>

record elf64_header =
  e_ident :: "u8 list"
  e_entry :: u64
  e_phoff :: u64
  e_phentsize :: u16
  e_phnum :: u16

record elf64_phdr =
  p_type :: u32
  p_offset :: u64
  p_vaddr :: u64
  p_filesz :: u64
  p_memsz :: u64

text \<open>The fields that the loader uses, at their offsets in the packed structures.\<close>

definition read_header :: "('pt, 'p) platform_scheme \<Rightarrow> ('pt, 'm) mem_state_scheme \<Rightarrow> u64 \<Rightarrow> elf64_header res" where
  "read_header P s a =
     (if a = 0 then Inl (Bad_Pointer a) else
      bindE (read_bytes P s a 16) (\<lambda>ident.
      bindE (read_le P s (a + 24) 8) (\<lambda>entry.
      bindE (read_le P s (a + 32) 8) (\<lambda>phoff.
      bindE (read_le P s (a + 54) 2) (\<lambda>phentsize.
      bindE (read_le P s (a + 56) 2) (\<lambda>phnum.
      Inr \<lparr>e_ident = ident, e_entry = entry, e_phoff = phoff, e_phentsize = ucast phentsize, e_phnum = ucast phnum\<rparr>))))))"

definition read_phdr :: "('pt, 'p) platform_scheme \<Rightarrow> ('pt, 'm) mem_state_scheme \<Rightarrow> u64 \<Rightarrow> elf64_phdr res" where
  "read_phdr P s a =
     (if a = 0 then Inl (Bad_Pointer a) else
      bindE (read_le P s a 4) (\<lambda>ty.
      bindE (read_le P s (a + 8) 8) (\<lambda>offset.
      bindE (read_le P s (a + 16) 8) (\<lambda>vaddr.
      bindE (read_le P s (a + 32) 8) (\<lambda>filesz.
      bindE (read_le P s (a + 40) 8) (\<lambda>memsz.
      Inr \<lparr>p_type = ucast ty, p_offset = offset, p_vaddr = vaddr, p_filesz = filesz, p_memsz = memsz\<rparr>))))))"

section \<open>Model: the loader\<close>

text \<open>The body of the page loop: a frame, its mapping and the zeroing through the new mapping.\<close>

definition map_zeroed_page :: "('pt, 'p) platform_scheme \<Rightarrow> u64 \<Rightarrow> ('pt, 'm) mem_state_scheme \<Rightarrow>
    ('pt, 'm) mem_state_scheme res" where
  "map_zeroed_page P mapped_vaddr s =
     bindE (allocate_expect P ''FATAL: OOM loading ELF!'' s) (\<lambda>(phys_frame, s).
     let flags = {PRESENT, WRITABLE, USER_ACCESSIBLE} in
     bindE (map_page P phys_frame mapped_vaddr flags s) (\<lambda>s.
     fill_bytes P mapped_vaddr 0 4096 s))"

function map_segment_loop :: "('pt, 'p) platform_scheme \<Rightarrow> u64 \<Rightarrow> u64 \<Rightarrow> u64 \<Rightarrow> ('pt, 'm) mem_state_scheme \<Rightarrow>
    ('pt, 'm) mem_state_scheme res" where
  "map_segment_loop P relocation_offset orig_vaddr end_vaddr s =
     (if orig_vaddr < end_vaddr then
        let mapped_vaddr = orig_vaddr - relocation_offset in
        bindE (map_zeroed_page P mapped_vaddr s) (\<lambda>s.
        bindE (add_chk orig_vaddr 4096) (\<lambda>orig_vaddr.
        map_segment_loop P relocation_offset orig_vaddr end_vaddr s))
      else Inr s)"
  by pat_completeness auto
termination
proof (relation "measure (\<lambda>(P, r, a, e, s). unat e - unat a)", goal_cases)
  case (2 P r a e s m s1 a')
  then have "unat a' = unat a + 4096" "unat a < unat e"
    using unat_add_no_overflow [of a 4096] by (auto simp: res_simps word_less_nat_alt)
  then show ?case by simp
qed simp

declare map_segment_loop.simps [simp del]

definition load_segment :: "('pt, 'p) platform_scheme \<Rightarrow> u64 \<Rightarrow> u64 \<Rightarrow> elf64_phdr \<Rightarrow> ('pt, 'm) mem_state_scheme \<Rightarrow>
    ('pt, 'm) mem_state_scheme res" where
  "load_segment P base_addr relocation_offset phdr s =
     (let orig_vaddr = page_floor (p_vaddr phdr) in
      bindE (add_chk (p_vaddr phdr) (p_memsz phdr)) (\<lambda>e.
      bindE (add_chk e 0xFFF) (\<lambda>e.
      let end_vaddr = page_floor e in
      bindE (map_segment_loop P relocation_offset orig_vaddr end_vaddr s) (\<lambda>s.
      if p_filesz phdr > 0 then
        bindE (add_chk base_addr (p_offset phdr)) (\<lambda>src.
        let dst = p_vaddr phdr - relocation_offset in
        copy_nonoverlapping P src dst (p_filesz phdr) s)
      else Inr s))))"

text \<open>\<open>for i in 0..header.e_phnum\<close>: the list holds the values of \<open>i\<close>.\<close>

fun phdr_loop :: "('pt, 'p) platform_scheme \<Rightarrow> u64 \<Rightarrow> u64 \<Rightarrow> u64 \<Rightarrow> u16 \<Rightarrow> u16 list \<Rightarrow> ('pt, 'm) mem_state_scheme \<Rightarrow>
    ('pt, 'm) mem_state_scheme res" where
  "phdr_loop P base_addr relocation_offset phdr_base phentsize [] s = Inr s"
| "phdr_loop P base_addr relocation_offset phdr_base phentsize (i # is) s =
     bindE (mul_chk (ucast i) (ucast phentsize)) (\<lambda>off.
     bindE (add_chk phdr_base off) (\<lambda>a.
     bindE (read_phdr P s a) (\<lambda>phdr.
     bindE (if p_type phdr = 1 then load_segment P base_addr relocation_offset phdr s else Inr s) (\<lambda>s.
     phdr_loop P base_addr relocation_offset phdr_base phentsize is s))))"

definition ELF_MAGIC :: "u8 list" where
  "ELF_MAGIC = [0x7F, 0x45, 0x4C, 0x46]"

definition relocation :: "u64 \<Rightarrow> u64" where
  "relocation entry = (if entry \<ge> 0xFFFFFFFF80000000 then 0xFFFFFFFF80200000 - 0x400000 else 0)"

definition load_and_get_entry :: "('pt, 'p) platform_scheme \<Rightarrow> u64 \<Rightarrow> ('pt, 'm) mem_state_scheme \<Rightarrow>
    (u64 \<times> ('pt, 'm) mem_state_scheme) res" where
  "load_and_get_entry P base_addr s =
     (let s = say ''[*] Dissecting ELF64 Binary Header...\<newline>'' s in
      bindE (read_header P s base_addr) (\<lambda>header.
      if take 4 (e_ident header) \<noteq> ELF_MAGIC then
        Inl (Explicit_Panic ''FATAL: God-Process is corrupted or not a valid ELF binary!'')
      else
        let s = say ''[*] Mapping ELF Segments into User Space...\<newline>'' s;
            entry_point = e_entry header;
            is_colliding = (e_entry header \<ge> 0xFFFFFFFF80000000);
            relocation_offset = relocation (e_entry header);
            (entry_point, s) =
              (if is_colliding then
                 (entry_point - relocation_offset,
                  say ''[!] Linker collision detected! Force-relocating to User Space...\<newline>'' s)
               else (entry_point, s))
        in bindE (add_chk base_addr (e_phoff header)) (\<lambda>phdr_base.
           bindE (phdr_loop P base_addr relocation_offset phdr_base (e_phentsize header)
               (map of_nat [0..<unat (e_phnum header)]) s) (\<lambda>s.
           Inr (entry_point, say ''[+] All ELF Segments mapped securely into Ring 3!\<newline>'' s)))))"

text \<open>The boot modules of the loader: base address and length of each.\<close>

fun stack_loop :: "('pt, 'p) platform_scheme \<Rightarrow> u64 list \<Rightarrow> ('pt, 'm) mem_state_scheme \<Rightarrow>
    ('pt, 'm) mem_state_scheme res" where
  "stack_loop P [] s = Inr s"
| "stack_loop P (i # is) s =
     bindE (allocate_expect P ''FATAL: Out of memory for User Stack!'' s) (\<lambda>(phys_frame, s).
     bindE (mul_chk i 4096) (\<lambda>off.
     bindE (sub_chk 0x00007FFFFFFF0000 off) (\<lambda>virt_page.
     bindE (map_page P phys_frame virt_page {PRESENT, WRITABLE, USER_ACCESSIBLE} s) (\<lambda>s.
     stack_loop P is s))))"

definition loader_init :: "('pt, 'p) platform_scheme \<Rightarrow> (u64 \<times> u64) list option \<Rightarrow> ('pt, 'm) mem_state_scheme \<Rightarrow>
    (u64 \<times> ('pt, 'm) mem_state_scheme) res" where
  "loader_init P module_response s =
     (let s = say ''[*] Scanning RAM for Boot Modules...\<newline>'' s in
      bindE (expectE ''FATAL: Bootloader did not provide modules!'' module_response) (\<lambda>modules.
      case modules of
        [] \<Rightarrow> Inl (Explicit_Panic ''FATAL: God-Process (Marshal) missing from RAM!'')
      | (base_address, len) # _ \<Rightarrow>
          let s = say ''[+] God-Process (Marshal) located safely in memory!\<newline>'' s;
              s = say ''    -> Base Address: 0x'' s
          in bindE (say_hex base_address s) (\<lambda>s.
             bindE (say_u64 len (say ''\<newline>    -> Size: '' s)) (\<lambda>s.
             bindE (load_and_get_entry P base_address (say '' bytes\<newline>'' s)) (\<lambda>(entry_point, s).
             let s = say ''[*] Constructing 128KB Ring 3 User Stack...\<newline>'' s in
             bindE (stack_loop P (map of_nat [1..<33]) s) (\<lambda>s.
             Inr (entry_point, say ''[+] Execution Environment completely constructed.\<newline>'' s)))))))"

section \<open>Memory accesses through a fixed translation\<close>

text \<open>The effect of writing bytes, given the translation in force.\<close>

fun poke :: "(u64 \<Rightarrow> u64 option) \<Rightarrow> u64 \<Rightarrow> u8 list \<Rightarrow> (u64 \<Rightarrow> u8) \<Rightarrow> u64 \<Rightarrow> u8" where
  "poke tr va [] m = m"
| "poke tr va (b # bs) m = poke tr (va + 1) bs (m(the (tr va) := b))"

lemma translate_phys_mem [simp]: "translate P (s\<lparr>phys_mem := m\<rparr>) = translate P s"
  by (simp add: translate_def fun_eq_iff)

lemma all_less_Suc_shift:
  "(\<forall>i < Suc n. Q (va + of_nat i)) \<longleftrightarrow> Q va \<and> (\<forall>i < n. Q (va + 1 + of_nat i :: u64))"
  by (auto simp: less_Suc_eq_0_disj add_ac)

lemma write_bytes_poke:
  assumes "\<forall>i < length bs. translate P s (va + of_nat i) \<noteq> None"
  shows "write_bytes P va bs s = Inr (s\<lparr>phys_mem := poke (translate P s) va bs (phys_mem s)\<rparr>)"
  using assms
proof (induction bs arbitrary: va s)
  case (Cons b bs)
  from Cons.prems have h: "translate P s va \<noteq> None" "\<forall>i < length bs. translate P s (va + 1 + of_nat i) \<noteq> None"
    using all_less_Suc_shift [of "length bs" "\<lambda>a. translate P s a \<noteq> None" va] by simp_all
  then obtain pa where pa: "translate P s va = Some pa" by auto
  let ?s = "s\<lparr>phys_mem := (phys_mem s)(pa := b)\<rparr>"
  have "write_bytes P (va + 1) bs ?s = Inr (?s\<lparr>phys_mem := poke (translate P ?s) (va + 1) bs (phys_mem ?s)\<rparr>)"
    by (rule Cons.IH) (use h(2) in simp)
  then show ?case by (simp add: write_byte_def pa)
qed simp

lemma read_bytes_map:
  assumes "\<forall>i < n. translate P s (va + of_nat i) \<noteq> None"
  shows "read_bytes P s va n = Inr (map (\<lambda>i. phys_mem s (the (translate P s (va + of_nat i)))) [0..<n])"
  using assms
proof (induction n arbitrary: va)
  case (Suc n)
  from Suc.prems have h: "translate P s va \<noteq> None" "\<forall>i < n. translate P s (va + 1 + of_nat i) \<noteq> None"
    using all_less_Suc_shift [of n "\<lambda>a. translate P s a \<noteq> None" va] by simp_all
  have "[0..<Suc n] = 0 # map Suc [0..<n]" by (simp add: map_Suc_upt upt_conv_Cons del: upt_Suc)
  then show ?case using h(1) Suc.IH [OF h(2)] by (auto simp: read_byte_def comp_def add_ac)
qed simp

lemma poke_other:
  "\<forall>i < length bs. the (tr (va + of_nat i)) \<noteq> x \<Longrightarrow> poke tr va bs m x = m x"
proof (induction bs arbitrary: va m)
  case (Cons b bs)
  then have "the (tr va) \<noteq> x" "\<forall>i < length bs. the (tr (va + 1 + of_nat i)) \<noteq> x"
    using all_less_Suc_shift [of "length bs" "\<lambda>a. the (tr a) \<noteq> x" va] by simp_all
  then show ?case using Cons.IH by simp
qed simp

lemma poke_at:
  assumes "inj_on (\<lambda>i. the (tr (va + of_nat i))) {..<length bs}" "i < length bs"
  shows "poke tr va bs m (the (tr (va + of_nat i))) = bs ! i"
  using assms
proof (induction bs arbitrary: va m i)
  case (Cons b bs)
  have inj: "inj_on (\<lambda>i. the (tr (va + 1 + of_nat i))) {..<length bs}"
  proof (rule inj_onI)
    fix x y assume "x \<in> {..<length bs}" "y \<in> {..<length bs}"
      "the (tr (va + 1 + of_nat x)) = the (tr (va + 1 + of_nat y))"
    then have "Suc x = Suc y"
      using inj_onD [OF Cons.prems(1), of "Suc x" "Suc y"] by (simp add: add_ac)
    then show "x = y" by simp
  qed
  show ?case
  proof (cases i)
    case 0
    have "the (tr (va + 1 + of_nat j)) \<noteq> the (tr va)" if "j < length bs" for j
      using inj_onD [OF Cons.prems(1), of "Suc j" 0] that by (auto simp: add_ac)
    then show ?thesis using 0 by (simp add: poke_other)
  next
    case (Suc k)
    then show ?thesis using Cons.IH [OF inj, of k] Cons.prems(2) by (simp add: add_ac)
  qed
qed simp

section \<open>Frames and offsets\<close>

lemma frame_plus_offset:
  assumes "page_floor f = f"
  shows "page_floor (f + page_offset a) = f" and "page_offset (f + page_offset a) = page_offset a"
proof -
  obtain q where q: "unat f = q * 4096" using assms unat_page_floor [of f] by metis
  have "q * 4096 < 2 ^ 52 * 4096" using u64_unat_lt [of f] q by simp
  then have "Suc q * 4096 \<le> 2 ^ 52 * 4096" by (intro mult_right_mono) auto
  then have sum: "unat (f + page_offset a) = q * 4096 + unat a mod 4096"
    using unat_add_no_overflow [of f "page_offset a"] by (simp add: unat_page_offset q)
  show "page_floor (f + page_offset a) = f"
    by (rule word_unat_eq_iff [THEN iffD2]) (simp add: unat_page_floor sum q)
  show "page_offset (f + page_offset a) = page_offset a"
    by (rule word_unat_eq_iff [THEN iffD2]) (simp add: unat_page_offset sum)
qed

text \<open>The \<open>j\<close>-th page of a range.\<close>

definition page_at :: "u64 \<Rightarrow> nat \<Rightarrow> u64" where
  "page_at lo j = lo + of_nat (4096 * j)"

lemma page_at_0 [simp]: "page_at lo 0 = lo"
  by (simp add: page_at_def)

lemma page_at_Suc: "page_at lo (Suc j) = page_at (lo + 4096) j"
  by (simp add: page_at_def add_ac)

lemma unat_page_at: "unat lo + 4096 * j < 2 ^ 64 \<Longrightarrow> unat (page_at lo j) = unat lo + 4096 * j"
  using unat_add_no_overflow [of lo "of_nat (4096 * j)"] unat_of_nat_small [of "4096 * j", where 'w = 64]
  by (simp add: page_at_def)

lemma page_floor_page_at:
  assumes "page_floor lo = lo" "unat lo + 4096 * j < 2 ^ 64"
  shows "page_floor (page_at lo j) = page_at lo j"
proof (rule page_floor_aligned)
  have "unat lo mod 4096 = 0" using assms(1) unat_page_floor [of lo] by (metis mod_mult_self2_is_0)
  then show "unat (page_at lo j) mod 4096 = 0" using unat_page_at [OF assms(2)] by (simp add: mod_add_left_eq [symmetric])
qed

text \<open>Zeroing one page through the MMU zeroes exactly its frame.\<close>

lemma poke_page_zero:
  assumes page: "page_floor va = va" and f: "page_floor f = f"
    and tr: "\<And>a. page_floor a = va \<Longrightarrow> tr a = Some (f + page_offset a)"
  shows "poke tr va (replicate 4096 0) m = (\<lambda>x. if page_floor x = f then 0 else m x)"
proof
  fix x
  have va: "unat va mod 4096 = 0" using page unat_page_floor [of va] by (metis mod_mult_self2_is_0)
  obtain q where q: "unat va = q * 4096" using va by auto
  have "q * 4096 < 2 ^ 52 * 4096" using u64_unat_lt [of va] q by simp
  then have top: "unat va + 4096 \<le> 2 ^ 64" using q by simp
  have u: "unat (va + of_nat i) = unat va + i" if "i < 4096" for i
    using unat_add_no_overflow [of va "of_nat i"] unat_of_nat_small [of i, where 'w = 64] that top by simp
  have fl: "page_floor (va + of_nat i) = va" "unat (page_offset (va + of_nat i)) = i" if "i < 4096" for i
    using u [OF that] that q by (simp_all add: word_unat_eq_iff unat_page_floor unat_page_offset)
  have at: "the (tr (va + of_nat i)) = f + page_offset (va + of_nat i)" if "i < 4096" for i
    using tr [OF fl(1) [OF that]] by simp
  have inj: "inj_on (\<lambda>i. the (tr (va + of_nat i))) {..<length (replicate 4096 (0::u8))}"
  proof (rule inj_onI)
    fix i j assume ij: "i \<in> {..<length (replicate 4096 (0::u8))}" "j \<in> {..<length (replicate 4096 (0::u8))}"
      "the (tr (va + of_nat i)) = the (tr (va + of_nat j))"
    then have "i < 4096" "j < 4096" by (simp_all only: lessThan_iff length_replicate)
    with ij(3) have "page_offset (va + of_nat i) = page_offset (va + of_nat j)" by (simp add: at)
    with fl(2) \<open>i < 4096\<close> \<open>j < 4096\<close> show "i = j" by metis
  qed
  show "poke tr va (replicate 4096 0) m x = (if page_floor x = f then 0 else m x)"
  proof (cases "page_floor x = f")
    case True
    let ?i = "unat (page_offset x)"
    have i: "?i < 4096" by (simp add: unat_page_offset)
    have "page_offset (va + of_nat ?i) = page_offset x" using fl(2) [OF i] by (simp add: word_unat_eq_iff)
    then have x: "the (tr (va + of_nat ?i)) = x" using at [OF i] True page_floor_plus_offset [of x] by simp
    have "poke tr va (replicate 4096 0) m (the (tr (va + of_nat ?i))) = replicate 4096 0 ! ?i"
      by (rule poke_at [OF inj]) (simp only: length_replicate i)
    then show ?thesis using True i x by simp
  next
    case False
    have "the (tr (va + of_nat i)) \<noteq> x" if "i < 4096" for i
      using at [OF that] False frame_plus_offset(1) [OF f] by metis
    then show ?thesis using False by (simp add: poke_other)
  qed
qed

section \<open>Mapping a segment\<close>

abbreviation user_flags :: page_flags where
  "user_flags \<equiv> {PRESENT, WRITABLE, USER_ACCESSIBLE}"

lemma map_zeroed_page_effect:
  assumes laws: "paging_laws P entries" and inv: "mem_inv entries s"
    and va: "page_floor va = va" "va \<noteq> 0" "unat va < 2 ^ 47" "address_space P s va = None"
    and left: "free_frames entries s = f # fs" "3 \<le> length fs"
  obtains s' k where "map_zeroed_page P va s = Inr s'" "mem_inv entries s'"
    "s' = s\<lparr>ALLOCATOR := ALLOCATOR s', MAPPER := MAPPER s', phys_mem := phys_mem s'\<rparr>"
    "k \<le> 3" "free_frames entries s' = drop k fs"
    "address_space P s' = (address_space P s)(va \<mapsto> (f, user_flags))"
    "phys_mem s' = (\<lambda>x. if page_floor x = f then 0 else phys_mem s x)" "page_floor f = f"
proof -
  let ?m = "''FATAL: OOM loading ELF!''"
  obtain fa where fa: "allocate_expect P ?m s = Inr (f, s\<lparr>ALLOCATOR := fa\<rparr>)"
    "fa_inv entries fa" "frames_left entries fa = fs"
    using allocate_expect_Cons [OF laws inv left(1)] by blast
  let ?s = "s\<lparr>ALLOCATOR := fa\<rparr>"
  have inv1: "mem_inv entries ?s" using inv fa(2) by (simp add: mem_inv_def)
  have as1: "address_space P ?s = address_space P s" by (simp add: address_space_def)
  have f: "unat f < 2 ^ 52" "page_floor f = f"
    using free_frame_below_2p52 [OF laws, of "ALLOCATOR s" f] inv left(1) by (auto simp: mem_inv_def)
  then have frame: "phys_frame P f = Some f" using laws by (auto simp: paging_laws_def address_laws_def)
  obtain t k where t: "map_page P f va user_flags ?s = Inr t" "mem_inv entries t"
    "t = ?s\<lparr>ALLOCATOR := ALLOCATOR t, MAPPER := MAPPER t\<rparr>" "k \<le> 3" "free_frames entries t = drop k fs"
    "address_space P t = (address_space P s)(va \<mapsto> (f, user_flags))"
    by (rule map_page_step [OF laws inv1 frame va(3), of user_flags])
      (use va(1,4) left(2) in \<open>simp_all add: as1 fa(3)\<close>)
  have tr: "translate P t a = Some (f + page_offset a)" if "page_floor a = va" for a
    using t(6) that by (simp add: translate_address_space)
  define m where "m = poke (translate P t) va (replicate 4096 0) (phys_mem t)"
  have "m = (\<lambda>x. if page_floor x = f then 0 else phys_mem t x)"
    unfolding m_def by (rule poke_page_zero [OF va(1) f(2)]) (rule tr)
  moreover have "phys_mem t = phys_mem s" using arg_cong [OF t(3), of phys_mem] by simp
  ultimately have m: "m = (\<lambda>x. if page_floor x = f then 0 else phys_mem s x)" by metis
  have "\<forall>i < length (replicate 4096 (0::u8)). translate P t (va + of_nat i) \<noteq> None"
  proof (intro allI impI)
    fix i assume "i < length (replicate 4096 (0::u8))"
    then have i: "i < 4096" by (simp only: length_replicate)
    obtain q where q: "unat va = q * 4096" using va(1) unat_page_floor [of va] by metis
    have "unat (va + of_nat i) = q * 4096 + i"
      using unat_add_no_overflow [of va "of_nat i"] unat_of_nat_small [of i, where 'w = 64] i va(3) q by simp
    then have "page_floor (va + of_nat i) = va" using i q by (simp add: word_unat_eq_iff unat_page_floor)
    then show "translate P t (va + of_nat i) \<noteq> None" by (simp add: tr)
  qed
  then have "map_zeroed_page P va s = Inr (t\<lparr>phys_mem := m\<rparr>)"
    using va(2) t(1) by (simp add: map_zeroed_page_def fa(1) fill_bytes_def write_bytes_poke m_def)
  moreover have "t\<lparr>phys_mem := m\<rparr> = s\<lparr>ALLOCATOR := ALLOCATOR t, MAPPER := MAPPER t, phys_mem := m\<rparr>"
    by (subst t(3)) simp
  moreover have "mem_inv entries (t\<lparr>phys_mem := m\<rparr>)" "address_space P (t\<lparr>phys_mem := m\<rparr>) = address_space P t"
    using t(2) by (simp_all add: mem_inv_def address_space_def)
  ultimately show ?thesis
    using that [of "t\<lparr>phys_mem := m\<rparr>" k] t(4-6) m f(2) by simp
qed

text \<open>
  What mapping the pages from \<open>lo\<close> to the fresh frames \<open>fs\<close> does: each page has a frame of its
  own, filled with zeros, and nothing else changes.
\<close>

definition fresh_mapping :: "('pt, 'p) platform_scheme \<Rightarrow> mem_entry list \<Rightarrow> u64 \<Rightarrow> u64 list \<Rightarrow>
    ('pt, 'm) mem_state_scheme \<Rightarrow> ('pt, 'm) mem_state_scheme \<Rightarrow> bool" where
  "fresh_mapping P entries lo fs s s' \<longleftrightarrow>
     mem_inv entries s' \<and>
     s' = s\<lparr>ALLOCATOR := ALLOCATOR s', MAPPER := MAPPER s', phys_mem := phys_mem s'\<rparr> \<and>
     distinct fs \<and> set fs \<subseteq> set (free_frames entries s) \<and>
     (\<exists>k. k \<le> 4 * length fs \<and> free_frames entries s' = drop k (free_frames entries s)) \<and>
     set fs \<inter> set (free_frames entries s') = {} \<and> list_all (\<lambda>f. page_floor f = f) fs \<and>
     (\<forall>j < length fs. address_space P s' (page_at lo j) = Some (fs ! j, user_flags)) \<and>
     (\<forall>pg. (\<forall>j < length fs. pg \<noteq> page_at lo j) \<longrightarrow> address_space P s' pg = address_space P s pg) \<and>
     phys_mem s' = (\<lambda>x. if page_floor x \<in> set fs then 0 else phys_mem s x)"

lemma fresh_mapping_Nil: "mem_inv entries s \<Longrightarrow> fresh_mapping P entries lo [] s s"
  by (simp add: fresh_mapping_def)

lemma fresh_mapping_Cons:
  assumes s1: "s1 = s\<lparr>ALLOCATOR := ALLOCATOR s1, MAPPER := MAPPER s1, phys_mem := phys_mem s1\<rparr>"
      "k \<le> 3" "free_frames entries s1 = drop k rest"
      "address_space P s1 = (address_space P s)(lo \<mapsto> (f, user_flags))"
      "phys_mem s1 = (\<lambda>x. if page_floor x = f then 0 else phys_mem s x)" "page_floor f = f"
    and left: "free_frames entries s = f # rest" "f \<notin> set rest"
    and neq: "\<And>j. j < length fs \<Longrightarrow> page_at (lo + 4096) j \<noteq> lo"
    and s2: "fresh_mapping P entries (lo + 4096) fs s1 s2"
  shows "fresh_mapping P entries lo (f # fs) s s2"
proof -
  have pg: "page_at lo (Suc j) = page_at (lo + 4096) j" for j by (simp add: page_at_Suc)
  have sub: "set (free_frames entries s1) \<subseteq> set rest" using s1(3) set_drop_subset by simp
  obtain k2 where k2: "k2 \<le> 4 * length fs" "free_frames entries s2 = drop k2 (free_frames entries s1)"
    using s2 unfolding fresh_mapping_def by blast
  have keep: "\<forall>q. (\<forall>j < length fs. q \<noteq> page_at (lo + 4096) j) \<longrightarrow> address_space P s2 q = address_space P s1 q"
    and at: "\<forall>j < length fs. address_space P s2 (page_at (lo + 4096) j) = Some (fs ! j, user_flags)"
    and fs: "set fs \<subseteq> set (free_frames entries s1)" "set fs \<inter> set (free_frames entries s2) = {}"
    and st: "s2 = s1\<lparr>ALLOCATOR := ALLOCATOR s2, MAPPER := MAPPER s2, phys_mem := phys_mem s2\<rparr>"
    and pm: "phys_mem s2 = (\<lambda>x. if page_floor x \<in> set fs then 0 else phys_mem s1 x)"
    and rest: "mem_inv entries s2" "distinct fs" "list_all (\<lambda>f. page_floor f = f) fs"
    using s2 unfolding fresh_mapping_def by blast+
  show ?thesis unfolding fresh_mapping_def
  proof (intro conjI)
    show "s2 = s\<lparr>ALLOCATOR := ALLOCATOR s2, MAPPER := MAPPER s2, phys_mem := phys_mem s2\<rparr>"
      by (subst st, subst s1(1)) simp
    show "\<exists>k. k \<le> 4 * length (f # fs) \<and> free_frames entries s2 = drop k (free_frames entries s)"
      using k2 s1(2,3) left(1) by (intro exI [of _ "Suc (k + k2)"]) (simp add: add.commute)
    show "set (f # fs) \<inter> set (free_frames entries s2) = {}"
      using fs k2(2) sub left(2) set_drop_subset [of k2 "free_frames entries s1"] by auto
    show "\<forall>j < length (f # fs). address_space P s2 (page_at lo j) = Some ((f # fs) ! j, user_flags)"
    proof (intro allI impI)
      fix j assume "j < length (f # fs)"
      moreover have "\<forall>i < length fs. lo \<noteq> page_at (lo + 4096) i" using neq by fastforce
      ultimately show "address_space P s2 (page_at lo j) = Some ((f # fs) ! j, user_flags)"
        using keep at s1(4) by (cases j) (simp_all add: pg)
    qed
    show "\<forall>q. (\<forall>j < length (f # fs). q \<noteq> page_at lo j) \<longrightarrow> address_space P s2 q = address_space P s q"
    proof (intro allI impI)
      fix q assume q: "\<forall>j < length (f # fs). q \<noteq> page_at lo j"
      then have "q \<noteq> lo" "\<forall>j < length fs. q \<noteq> page_at (lo + 4096) j"
        using q [rule_format, of 0] pg by auto
      then show "address_space P s2 q = address_space P s q" using keep s1(4) by simp
    qed
    show "phys_mem s2 = (\<lambda>x. if page_floor x \<in> set (f # fs) then 0 else phys_mem s x)"
      unfolding pm s1(5) by auto
  qed (use rest fs(1) sub left s1(6) in auto)
qed

text \<open>The page loop over \<open>n\<close> unmapped pages.\<close>

lemma map_segment_loop_effect:
  assumes "paging_laws P entries" and "mem_inv entries s"
    and "page_floor lo = lo" "lo \<noteq> 0" "unat lo + 4096 * n \<le> 2 ^ 47" "unat orig + 4096 * n < 2 ^ 64"
    and "lo = orig - r" "unat fin = unat orig + 4096 * n"
    and "\<And>j. j < n \<Longrightarrow> address_space P s (page_at lo j) = None"
    and "4 * n \<le> length (free_frames entries s)" "distinct (free_frames entries s)"
  shows "\<exists>s' fs. map_segment_loop P r orig fin s = Inr s' \<and> length fs = n \<and> fresh_mapping P entries lo fs s s'"
  using assms
proof (induction n arbitrary: s lo orig)
  case 0
  then have "\<not> orig < fin" by (simp add: word_less_nat_alt)
  then show ?case
    using fresh_mapping_Nil [OF "0.prems"(2)] by (intro exI [of _ s] exI [of _ "[]"]) (simp add: map_segment_loop.simps)
next
  case (Suc n)
  have "4 * Suc n \<le> length (free_frames entries s)" by fact
  then obtain f rest where left: "free_frames entries s = f # rest" "3 + 4 * n \<le> length rest"
    by (cases "free_frames entries s") auto
  have f: "f \<notin> set rest" "distinct rest" using Suc.prems(11) left(1) by simp_all
  have va: "unat lo < 2 ^ 47" "address_space P s lo = None"
    using Suc.prems(5) Suc.prems(9) [of 0] by simp_all
  obtain s1 k where s1: "map_zeroed_page P lo s = Inr s1" "mem_inv entries s1"
    "s1 = s\<lparr>ALLOCATOR := ALLOCATOR s1, MAPPER := MAPPER s1, phys_mem := phys_mem s1\<rparr>"
    "k \<le> 3" "free_frames entries s1 = drop k rest"
    "address_space P s1 = (address_space P s)(lo \<mapsto> (f, user_flags))"
    "phys_mem s1 = (\<lambda>x. if page_floor x = f then 0 else phys_mem s x)" "page_floor f = f"
    by (rule map_zeroed_page_effect [OF Suc.prems(1-4) va left(1)]) (use left(2) in auto)
  let ?lo = "lo + 4096" and ?orig = "orig + 4096"
  have lo: "unat ?lo = unat lo + 4096" "unat ?orig = unat orig + 4096"
    using unat_add_no_overflow [of lo 4096] unat_add_no_overflow [of orig 4096] Suc.prems(5,6) by simp_all
  have neq: "page_at ?lo j \<noteq> lo" if "j < n" for j
  proof -
    have "unat ?lo + 4096 * j < 2 ^ 64" using Suc.prems(5) that lo(1) by simp
    from unat_page_at [OF this] show ?thesis using lo(1) by (auto simp: word_unat_eq_iff)
  qed
  have "\<exists>s' fs. map_segment_loop P r ?orig fin s1 = Inr s' \<and> length fs = n \<and> fresh_mapping P entries ?lo fs s1 s'"
  proof (rule Suc.IH [OF Suc.prems(1) s1(2)])
    have "unat lo + 4096 * 1 < 2 ^ 64" using Suc.prems(5) by simp
    from page_floor_page_at [OF Suc.prems(3) this] show "page_floor ?lo = ?lo" by (simp add: page_at_def)
    show "?lo \<noteq> 0" using lo(1) by (auto simp: word_unat_eq_iff)
    show "address_space P s1 (page_at ?lo j) = None" if "j < n" for j
      using Suc.prems(9) [of "Suc j"] neq [OF that] that s1(6) by (simp add: page_at_Suc)
  qed (use Suc.prems(5-8) lo f(2) left(2) s1(4,5) in \<open>simp_all add: distinct_drop\<close>)
  then obtain s2 fs where s2: "map_segment_loop P r ?orig fin s1 = Inr s2" "length fs = n"
    "fresh_mapping P entries ?lo fs s1 s2" by blast
  have "orig < fin" using Suc.prems(8) by (simp add: word_less_nat_alt)
  moreover have "add_chk orig 4096 = Inr ?orig" using Suc.prems(6) by (simp add: add_chk_def)
  ultimately have "map_segment_loop P r orig fin s = Inr s2"
    using s1(1) s2(1) Suc.prems(7) by (subst map_segment_loop.simps) simp
  then show ?case
    using fresh_mapping_Cons [OF s1(3-8) left(1) f(1) _ s2(3)] neq s2(2)
    by (intro exI [of _ s2] exI [of _ "f # fs"]) simp
qed

section \<open>Loading a segment\<close>

text \<open>The pages that a range of \<open>len\<close> bytes at \<open>va\<close> touches, as the loader counts them.\<close>

definition pages_of :: "u64 \<Rightarrow> u64 \<Rightarrow> nat" where
  "pages_of va len = (unat va + unat len + 4095) div 4096 - unat va div 4096"

lemma range_page:
  assumes "unat va + unat len + 4095 < 2 ^ 64" "i < unat len"
  shows "\<exists>j < pages_of va len. page_floor (va + of_nat i) = page_at (page_floor va) j"
proof -
  let ?j = "(unat va + i) div 4096 - unat va div 4096"
  have le: "unat va div 4096 \<le> (unat va + i) div 4096" by (intro div_le_mono) simp
  have u: "unat (va + of_nat i) = unat va + i"
    using unat_add_no_overflow [of va "of_nat i"] unat_of_nat_small [of i, where 'w = 64] assms by simp
  have "(unat va + i) div 4096 * 4096 \<le> unat va + i" by simp
  then have "unat (page_floor va) + 4096 * ?j < 2 ^ 64"
    using assms le by (simp add: unat_page_floor algebra_simps)
  from unat_page_at [OF this] have "unat (page_at (page_floor va) ?j) = (unat va + i) div 4096 * 4096"
    using le by (simp add: unat_page_floor algebra_simps)
  then have "page_floor (va + of_nat i) = page_at (page_floor va) ?j"
    by (simp add: word_unat_eq_iff unat_page_floor u)
  moreover have "?j < pages_of va len"
  proof -
    have "(unat va + i) div 4096 < (unat va + i + 4096) div 4096" by simp
    also have "\<dots> \<le> (unat va + unat len + 4095) div 4096" using assms(2) by (intro div_le_mono) simp
    finally show ?thesis unfolding pages_of_def using le by (rule diff_less_mono)
  qed
  ultimately show ?thesis by blast
qed

text \<open>How the bytes of a freshly mapped range translate.\<close>

lemma fresh_translate:
  assumes fresh: "fresh_mapping P entries (page_floor va) fs s s'" and len: "length fs = pages_of va len"
    and top: "unat va + unat len + 4095 < 2 ^ 64" and i: "i < unat len"
  obtains f where "f \<in> set fs" "page_floor f = f" "translate P s' (va + of_nat i) = Some (f + page_offset (va + of_nat i))"
    "address_space P s' (page_floor (va + of_nat i)) = Some (f, user_flags)"
proof -
  obtain j where j: "j < length fs" "page_floor (va + of_nat i) = page_at (page_floor va) j"
    using range_page [OF top i] len by auto
  then have "address_space P s' (page_floor (va + of_nat i)) = Some (fs ! j, user_flags)"
    using fresh by (simp add: fresh_mapping_def)
  moreover have "page_floor (fs ! j) = fs ! j"
    using fresh j(1) by (simp add: fresh_mapping_def list_all_length)
  ultimately show ?thesis using that [of "fs ! j"] j(1) by (simp add: translate_address_space)
qed

lemma fresh_translate_inj:
  assumes fresh: "fresh_mapping P entries (page_floor va) fs s s'" and len: "length fs = pages_of va len"
    and top: "unat va + unat len + 4095 < 2 ^ 64"
  shows "inj_on (\<lambda>i. the (translate P s' (va + of_nat i))) {..<unat len}"
proof (rule inj_onI)
  fix a b assume ab: "a \<in> {..<unat len}" "b \<in> {..<unat len}"
    "the (translate P s' (va + of_nat a)) = the (translate P s' (va + of_nat b))"
  have dist: "distinct fs" and at: "\<forall>j < length fs. address_space P s' (page_at (page_floor va) j) = Some (fs ! j, user_flags)"
    and al: "list_all (\<lambda>f. page_floor f = f) fs"
    using fresh by (simp_all add: fresh_mapping_def)
  obtain j k where j: "j < length fs" "page_floor (va + of_nat a) = page_at (page_floor va) j"
    and k: "k < length fs" "page_floor (va + of_nat b) = page_at (page_floor va) k"
    using range_page [OF top, of a] range_page [OF top, of b] ab(1,2) len by auto
  have eq: "fs ! j + page_offset (va + of_nat a) = fs ! k + page_offset (va + of_nat b)"
    using ab(3) at j k by (simp add: translate_address_space)
  have "page_floor (fs ! j) = fs ! j" "page_floor (fs ! k) = fs ! k"
    using al j(1) k(1) by (simp_all add: list_all_length)
  then have "fs ! j = fs ! k" "page_offset (va + of_nat a) = page_offset (va + of_nat b)"
    using eq frame_plus_offset by metis+
  then have "va + of_nat a = va + of_nat b"
    using dist j k page_floor_plus_offset nth_eq_iff_index_eq by metis
  then have "(of_nat a :: u64) = of_nat b" by simp
  moreover have "unat (of_nat a :: u64) = a" "unat (of_nat b :: u64) = b"
    using ab(1,2) u64_unat_lt [of len] by (simp_all add: unat_of_nat_small)
  ultimately show "a = b" by metis
qed

text \<open>Copying into a freshly mapped range from bytes that lie outside of the free frames.\<close>

lemma fresh_copy:
  assumes fresh: "fresh_mapping P entries (page_floor dst) fs s s1" and len: "length fs = pages_of dst ms"
    and top: "unat dst + unat ms + 4095 < 2 ^ 64" and fz: "fz \<le> ms"
    and unmapped: "\<And>j. j < length fs \<Longrightarrow> address_space P s (page_at (page_floor dst) j) = None"
    and src: "\<And>i. i < unat fz \<Longrightarrow> \<exists>pa. translate P s (src + of_nat i) = Some pa \<and> page_floor pa \<notin> set fs"
  shows "\<exists>s'. bindE (read_bytes P s1 src (unat fz)) (\<lambda>bs. write_bytes P dst bs s1) = Inr s' \<and>
    s' = s1\<lparr>phys_mem := phys_mem s'\<rparr> \<and>
    (\<forall>i < unat fz. read_byte P s' (dst + of_nat i) = read_byte P s (src + of_nat i)) \<and>
    (\<forall>i. unat fz \<le> i \<longrightarrow> i < unat ms \<longrightarrow> read_byte P s' (dst + of_nat i) = Inr 0) \<and>
    (\<forall>x. page_floor x \<notin> set fs \<longrightarrow> phys_mem s' x = phys_mem s x)"
proof -
  let ?tr = "translate P s1" and ?n = "unat fz"
  have le: "?n \<le> unat ms" using fz by (simp add: word_le_nat_alt)
  have same: "?tr (src + of_nat i) = translate P s (src + of_nat i)" if "i < ?n" for i
  proof -
    have "\<forall>j < length fs. page_floor (src + of_nat i) \<noteq> page_at (page_floor dst) j"
      using src [OF that] unmapped by (auto simp: translate_address_space)
    then show ?thesis using fresh by (simp add: fresh_mapping_def translate_address_space)
  qed
  define bs where "bs = map (\<lambda>i. phys_mem s (the (translate P s (src + of_nat i)))) [0..<?n]"
  have pm: "phys_mem s1 x = (if page_floor x \<in> set fs then 0 else phys_mem s x)" for x
    using fresh by (simp add: fresh_mapping_def)
  have "\<forall>i < ?n. ?tr (src + of_nat i) \<noteq> None" using src same by fastforce
  from read_bytes_map [OF this] have read: "read_bytes P s1 src ?n = Inr bs"
    using src same by (force simp: bs_def pm)
  have tr: "\<exists>f. f \<in> set fs \<and> page_floor f = f \<and> ?tr (dst + of_nat i) = Some (f + page_offset (dst + of_nat i))"
    if "i < unat ms" for i
    using fresh_translate [OF fresh len top that] by metis
  have "?tr (dst + of_nat i) \<noteq> None" if "i < unat ms" for i using tr [OF that] by auto
  then have "\<forall>i < length bs. ?tr (dst + of_nat i) \<noteq> None" using le by (simp add: bs_def)
  from write_bytes_poke [OF this] have wr: "write_bytes P dst bs s1 = Inr (s1\<lparr>phys_mem := poke ?tr dst bs (phys_mem s1)\<rparr>)" .
  let ?s = "s1\<lparr>phys_mem := poke ?tr dst bs (phys_mem s1)\<rparr>"
  have inj: "inj_on (\<lambda>i. the (?tr (dst + of_nat i))) {..<unat ms}" by (rule fresh_translate_inj [OF fresh len top])
  have get: "read_byte P ?s (dst + of_nat i) = Inr (poke ?tr dst bs (phys_mem s1) (the (?tr (dst + of_nat i))))"
    if "i < unat ms" for i using tr [OF that] by (auto simp: read_byte_def)
  have "read_byte P ?s (dst + of_nat i) = read_byte P s (src + of_nat i)" if i: "i < ?n" for i
  proof -
    have "inj_on (\<lambda>i. the (?tr (dst + of_nat i))) {..<length bs}"
      by (rule inj_on_subset [OF inj]) (use le in \<open>auto simp: bs_def\<close>)
    then have "poke ?tr dst bs (phys_mem s1) (the (?tr (dst + of_nat i))) = bs ! i"
      by (rule poke_at) (simp add: bs_def i)
    then show ?thesis using get [of i] i le src [OF i] by (auto simp: bs_def read_byte_def)
  qed
  moreover have "read_byte P ?s (dst + of_nat i) = Inr 0" if i: "?n \<le> i" "i < unat ms" for i
  proof -
    have "\<forall>j < length bs. the (?tr (dst + of_nat j)) \<noteq> the (?tr (dst + of_nat i))"
      using inj_onD [OF inj, of _ i] i by (fastforce simp: bs_def)
    then have "poke ?tr dst bs (phys_mem s1) (the (?tr (dst + of_nat i))) = phys_mem s1 (the (?tr (dst + of_nat i)))"
      by (rule poke_other)
    then show ?thesis using get [OF i(2)] tr [OF i(2)] by (auto simp: pm frame_plus_offset(1))
  qed
  moreover have "phys_mem ?s x = phys_mem s x" if x: "page_floor x \<notin> set fs" for x
  proof -
    have "the (?tr (dst + of_nat j)) \<noteq> x" if "j < length bs" for j
      using tr [of j] that le x by (auto simp: bs_def frame_plus_offset(1))
    then show ?thesis using x by (simp add: poke_other pm)
  qed
  ultimately show ?thesis using read wr by (intro exI [of _ ?s]) simp
qed

text \<open>The destination range, whose pages are not mapped, cannot overlap a source that is.\<close>

lemma no_overlap:
  assumes top: "unat dst + unat ms + 4095 < 2 ^ 64" and fz: "fz \<le> ms" "0 < fz"
    and unmapped: "\<And>j. j < pages_of dst ms \<Longrightarrow> address_space P s (page_at (page_floor dst) j) = None"
    and src: "\<And>i. i < unat fz \<Longrightarrow> translate P s (src + of_nat i) \<noteq> None"
  shows "\<not> (if src \<le> dst then dst - src else src - dst) < fz"
proof
  assume over: "(if src \<le> dst then dst - src else src - dst) < fz"
  have le: "unat fz \<le> unat ms" "0 < unat fz" using fz by (simp_all add: word_le_nat_alt word_less_nat_alt)
  have dead: "translate P s (dst + of_nat i) = None" if "i < unat ms" for i
    using range_page [OF top that] unmapped by (auto simp: translate_address_space)
  show False
  proof (cases "src \<le> dst")
    case True
    let ?i = "unat (dst - src)"
    have "?i < unat fz" using over True by (simp add: word_less_nat_alt)
    moreover have "src + of_nat ?i = dst" by simp
    ultimately show False using src [of ?i] dead [of 0] le by simp
  next
    case False
    let ?i = "unat (src - dst)"
    have "?i < unat fz" using over False by (simp add: word_less_nat_alt)
    moreover have "dst + of_nat ?i = src" by simp
    ultimately show False using src [of 0] dead [of ?i] le by simp
  qed
qed

lemma relocated_floor:
  assumes "page_floor r = r" "r \<le> page_floor v"
  shows "page_floor (v - r) = page_floor v - r" "unat (v - r) = unat v - unat r" "pages_of (v - r) len = pages_of v len"
proof -
  obtain q where q: "unat r = q * 4096" using assms(1) unat_page_floor [of r] by metis
  have le: "unat r \<le> unat v div 4096 * 4096" using assms(2) by (simp add: word_le_nat_alt unat_page_floor)
  moreover have "unat v div 4096 * 4096 \<le> unat v" by simp
  ultimately have le': "unat r \<le> unat v" by linarith
  show u: "unat (v - r) = unat v - unat r" using le' by (simp add: unat_sub word_le_nat_alt)
  have qv: "q \<le> unat v div 4096" using le q by simp
  obtain k where k: "unat v = q * 4096 + k" using le' q le_Suc_ex by metis
  have "unat (page_floor v - r) = unat (page_floor v) - unat r"
    using le by (simp add: unat_sub word_le_nat_alt unat_page_floor)
  then show "page_floor (v - r) = page_floor v - r"
    by (simp add: word_unat_eq_iff unat_page_floor u q k)
  show "pages_of (v - r) len = pages_of v len"
    unfolding pages_of_def u q k by (simp add: add.assoc)
qed

lemma segment_end:
  assumes "unat v + unat ms + 4095 < 2 ^ 64"
  shows "add_chk v ms = Inr (v + ms)" "add_chk (v + ms) 0xFFF = Inr (v + ms + 0xFFF)"
    "unat (page_floor (v + ms + 0xFFF)) = unat (page_floor v) + 4096 * pages_of v ms"
proof -
  have u: "unat (v + ms) = unat v + unat ms" using assms by (intro unat_add_no_overflow) simp
  have "unat (v + ms + 0xFFF) = unat v + unat ms + 4095"
    using unat_add_no_overflow [of "v + ms" "0xFFF"] assms u by simp
  moreover have "unat v div 4096 \<le> (unat v + unat ms + 4095) div 4096" by (intro div_le_mono) simp
  ultimately show "unat (page_floor (v + ms + 0xFFF)) = unat (page_floor v) + 4096 * pages_of v ms"
    by (simp add: unat_page_floor pages_of_def algebra_simps)
qed (use assms unat_add_no_overflow [of v ms] in \<open>simp_all add: add_chk_def\<close>)

text \<open>The page loop of a segment whose pages lie in the lower half and are unmapped.\<close>

lemma load_segment_pages:
  assumes laws: "paging_laws P entries" and inv: "mem_inv entries s" and dist: "distinct (free_frames entries s)"
    and r: "page_floor r = r" "r \<le> page_floor v"
    and va: "4096 \<le> unat (v - r)" "unat v + unat ms + 4095 < 2 ^ 64" "unat (v - r) + unat ms + 4095 < 2 ^ 47"
    and left: "4 * pages_of v ms \<le> length (free_frames entries s)"
    and unmapped: "\<forall>j < pages_of v ms. address_space P s (page_at (page_floor (v - r)) j) = None"
  obtains s1 fs where "map_segment_loop P r (page_floor v) (page_floor (v + ms + 0xFFF)) s = Inr s1"
    "length fs = pages_of v ms" "fresh_mapping P entries (page_floor (v - r)) fs s s1"
proof -
  note rel = relocated_floor [OF r]
  have top: "unat (v - r) + unat ms + 4095 < 2 ^ 64" using va(3) by simp
  have hi: "unat (page_floor (v - r)) + 4096 * pages_of v ms \<le> 2 ^ 47"
  proof -
    have "unat (page_floor (v - r + ms + 0xFFF)) \<le> unat (v - r + ms + 0xFFF)"
      by (simp add: unat_page_floor)
    also have "\<dots> \<le> unat (v - r) + unat ms + 4095"
      using unat_add_no_overflow [of "v - r" ms] unat_add_no_overflow [of "v - r + ms" "0xFFF"] top by simp
    finally show ?thesis using segment_end(3) [OF top] va(3) by (simp add: rel(3))
  qed
  have lo: "page_floor (v - r) \<noteq> 0"
    using unat_page_floor [of "v - r"] div_le_mono [OF va(1), of 4096] by (auto simp: word_unat_eq_iff)
  have orig: "unat (page_floor v) + 4096 * pages_of v ms < 2 ^ 64"
    using segment_end(3) [OF va(2)] u64_unat_lt [of "page_floor (v + ms + 0xFFF)"] by simp
  show ?thesis
    using that map_segment_loop_effect [OF laws inv _ lo hi orig rel(1) segment_end(3) [OF va(2)] _ left dist] unmapped
    by auto
qed

text \<open>
  The effect of loading one segment.  \<open>fs\<close> are the frames of its pages; nothing outside of them
  and of the new mappings changes.
\<close>

definition segment_loaded :: "('pt, 'p) platform_scheme \<Rightarrow> mem_entry list \<Rightarrow> u64 \<Rightarrow> u64 \<Rightarrow> elf64_phdr \<Rightarrow> u64 list \<Rightarrow>
    ('pt, 'm) mem_state_scheme \<Rightarrow> ('pt, 'm) mem_state_scheme \<Rightarrow> bool" where
  "segment_loaded P entries base_addr r ph fs s s' \<longleftrightarrow>
     fresh_mapping P entries (page_floor (p_vaddr ph - r)) fs s (s'\<lparr>phys_mem := \<lambda>x. if page_floor x \<in> set fs then 0 else phys_mem s x\<rparr>) \<and>
     length fs = pages_of (p_vaddr ph) (p_memsz ph) \<and> mem_inv entries s' \<and>
     (\<forall>i < unat (p_filesz ph). read_byte P s' (p_vaddr ph - r + of_nat i) = read_byte P s (base_addr + p_offset ph + of_nat i)) \<and>
     (\<forall>i. unat (p_filesz ph) \<le> i \<longrightarrow> i < unat (p_memsz ph) \<longrightarrow> read_byte P s' (p_vaddr ph - r + of_nat i) = Inr 0) \<and>
     (\<forall>x. page_floor x \<notin> set fs \<longrightarrow> phys_mem s' x = phys_mem s x)"

lemma load_segment_effect:
  assumes laws: "paging_laws P entries" and inv: "mem_inv entries s" and dist: "distinct (free_frames entries s)"
    and r: "page_floor r = r" "r \<le> page_floor (p_vaddr ph)"
    and va: "4096 \<le> unat (p_vaddr ph - r)" "unat (p_vaddr ph) + unat (p_memsz ph) + 4095 < 2 ^ 64"
      "unat (p_vaddr ph - r) + unat (p_memsz ph) + 4095 < 2 ^ 47" "p_filesz ph \<le> p_memsz ph"
    and left: "4 * pages_of (p_vaddr ph) (p_memsz ph) \<le> length (free_frames entries s)"
    and unmapped: "\<forall>j < pages_of (p_vaddr ph) (p_memsz ph). address_space P s (page_at (page_floor (p_vaddr ph - r)) j) = None"
    and src: "unat base_addr + unat (p_offset ph) < 2 ^ 64" "base_addr + p_offset ph \<noteq> 0"
      "\<forall>i < unat (p_filesz ph). \<exists>pa. translate P s (base_addr + p_offset ph + of_nat i) = Some pa \<and>
         page_floor pa \<notin> set (free_frames entries s)"
  shows "\<exists>s' fs. load_segment P base_addr r ph s = Inr s' \<and> segment_loaded P entries base_addr r ph fs s s'"
proof -
  let ?v = "p_vaddr ph" and ?ms = "p_memsz ph" and ?fz = "p_filesz ph"
  let ?dst = "?v - r" and ?src = "base_addr + p_offset ph" and ?n = "pages_of ?v ?ms"
  have n: "pages_of ?dst ?ms = ?n" by (rule relocated_floor(3) [OF r])
  have top: "unat ?dst + unat ?ms + 4095 < 2 ^ 64" using va(3) by simp
  obtain s1 fs where s1: "map_segment_loop P r (page_floor ?v) (page_floor (?v + ?ms + 0xFFF)) s = Inr s1"
    "length fs = ?n" "fresh_mapping P entries (page_floor ?dst) fs s s1"
    by (rule load_segment_pages [OF laws inv dist r va(1-3) left unmapped])
  have s1_inv: "mem_inv entries s1" and pm1: "phys_mem s1 = (\<lambda>x. if page_floor x \<in> set fs then 0 else phys_mem s x)"
    using s1(3) by (simp_all add: fresh_mapping_def)
  have fs: "set fs \<subseteq> set (free_frames entries s)"
    using s1(3) by (simp add: fresh_mapping_def)
  have srcs: "\<exists>pa. translate P s (?src + of_nat i) = Some pa \<and> page_floor pa \<notin> set fs" if "i < unat ?fz" for i
    using src(3) that fs by blast
  obtain s2 where s2: "bindE (read_bytes P s1 ?src (unat ?fz)) (\<lambda>bs. write_bytes P ?dst bs s1) = Inr s2"
    "s2 = s1\<lparr>phys_mem := phys_mem s2\<rparr>"
    "\<forall>i < unat ?fz. read_byte P s2 (?dst + of_nat i) = read_byte P s (?src + of_nat i)"
    "\<forall>i. unat ?fz \<le> i \<longrightarrow> i < unat ?ms \<longrightarrow> read_byte P s2 (?dst + of_nat i) = Inr 0"
    "\<forall>x. page_floor x \<notin> set fs \<longrightarrow> phys_mem s2 x = phys_mem s x"
    using fresh_copy [OF s1(3) _ top va(4) _ srcs] s1(2) n unmapped by auto
  have "load_segment P base_addr r ph s = Inr s2"
  proof (cases "0 < ?fz")
    case True
    have "\<not> (if ?src \<le> ?dst then ?dst - ?src else ?src - ?dst) < ?fz"
      by (rule no_overlap [OF top va(4) True]) (use unmapped srcs n in fastforce)+
    moreover have "?dst \<noteq> 0" using va(1) by auto
    moreover have "add_chk base_addr (p_offset ph) = Inr ?src" using src(1) by (simp add: add_chk_def)
    ultimately show ?thesis
      using True src(2) s1(1) s2(1)
      by (simp add: load_segment_def segment_end [OF va(2)] copy_nonoverlapping_def Let_def)
  next
    case False
    then have "?fz = 0" by (simp add: word_less_nat_alt unat_eq_zero)
    then show ?thesis
      using s1(1) s2(1) by (simp add: load_segment_def segment_end [OF va(2)] Let_def)
  qed
  moreover have "mem_inv entries s2" using s1_inv by (subst s2(2)) (simp add: mem_inv_def)
  moreover have "s2\<lparr>phys_mem := \<lambda>x. if page_floor x \<in> set fs then 0 else phys_mem s x\<rparr> = s1"
    using arg_cong [OF s2(2), of "\<lambda>t. t\<lparr>phys_mem := phys_mem s1\<rparr>"] pm1 by simp
  ultimately show ?thesis using s1(2,3) s2(3-5) by (auto simp: segment_loaded_def)
qed

section \<open>Properties\<close>

text \<open>
  Loading a segment is correct: on a booted memory subsystem, if the pages of the (relocated)
  segment lie in the lower half and are unmapped, frames suffice and the image lies outside of the
  free frames, then the load succeeds; afterwards the segment holds the bytes of the file, followed
  by zeros up to its memory size, and no other page has changed its mapping.
\<close>

theorem load_segment_correct:
  assumes laws: "paging_laws P entries" and inv: "mem_inv entries s" and dist: "distinct (free_frames entries s)"
    and r: "page_floor r = r" "r \<le> page_floor (p_vaddr ph)"
    and va: "4096 \<le> unat (p_vaddr ph - r)" "unat (p_vaddr ph) + unat (p_memsz ph) + 4095 < 2 ^ 64"
      "unat (p_vaddr ph - r) + unat (p_memsz ph) + 4095 < 2 ^ 47" "p_filesz ph \<le> p_memsz ph"
    and left: "4 * pages_of (p_vaddr ph) (p_memsz ph) \<le> length (free_frames entries s)"
    and unmapped: "\<forall>j < pages_of (p_vaddr ph) (p_memsz ph). address_space P s (page_at (page_floor (p_vaddr ph - r)) j) = None"
    and src: "unat base_addr + unat (p_offset ph) < 2 ^ 64" "base_addr + p_offset ph \<noteq> 0"
      "\<forall>i < unat (p_filesz ph). \<exists>pa. translate P s (base_addr + p_offset ph + of_nat i) = Some pa \<and>
         page_floor pa \<notin> set (free_frames entries s)"
  shows "\<exists>s'. load_segment P base_addr r ph s = Inr s' \<and> mem_inv entries s' \<and>
    (\<forall>i < unat (p_filesz ph). read_byte P s' (p_vaddr ph - r + of_nat i) = read_byte P s (base_addr + p_offset ph + of_nat i)) \<and>
    (\<forall>i. unat (p_filesz ph) \<le> i \<longrightarrow> i < unat (p_memsz ph) \<longrightarrow> read_byte P s' (p_vaddr ph - r + of_nat i) = Inr 0) \<and>
    (\<forall>pg. (\<forall>j < pages_of (p_vaddr ph) (p_memsz ph). pg \<noteq> page_at (page_floor (p_vaddr ph - r)) j) \<longrightarrow>
       address_space P s' pg = address_space P s pg)"
proof -
  obtain s' fs where s': "load_segment P base_addr r ph s = Inr s'" "segment_loaded P entries base_addr r ph fs s s'"
    using load_segment_effect [OF assms] by blast
  let ?m = "\<lambda>x. if page_floor x \<in> set fs then 0 else phys_mem s x"
  have "address_space P (s'\<lparr>phys_mem := ?m\<rparr>) = address_space P s'" by (simp add: address_space_def)
  with s' show ?thesis by (auto simp: segment_loaded_def fresh_mapping_def)
qed

text \<open>A one-page segment: a module page at 0x300000 is loaded to 0x400010.\<close>

definition example_segment :: elf64_phdr where
  "example_segment = \<lparr>p_type = 1, p_offset = 0x20, p_vaddr = 0x400010, p_filesz = 0x10, p_memsz = 0x40\<rparr>"

definition example_module_state :: "flat_table mem_state" where
  "example_module_state =
     example_state\<lparr>MAPPER := Some [0xFFFF800000300000 \<mapsto> (0x300000, {PRESENT})], phys_mem := (\<lambda>x. ucast x)\<rparr>"

lemma example_module_space:
  "address_space example_platform example_module_state = [0xFFFF800000300000 \<mapsto> (0x300000, {PRESENT})]"
  by (simp add: address_space_def example_module_state_def example_platform_def)

lemma example_module_translate:
  assumes "i < 16"
  shows "translate example_platform example_module_state (0xFFFF800000300020 + of_nat i) = Some (0x300020 + of_nat i)"
    and "page_floor (0x300020 + of_nat i :: u64) = 0x300000"
proof -
  have "unat (of_nat i :: u64) = i" using assms by (intro unat_of_nat_small) simp
  then have u: "unat (0xFFFF800000300020 + of_nat i :: u64) = 0xFFFF800000300020 + i"
    "unat (0x300020 + of_nat i :: u64) = 0x300020 + i"
    using assms unat_add_no_overflow [of "0xFFFF800000300020 :: u64" "of_nat i"]
      unat_add_no_overflow [of "0x300020 :: u64" "of_nat i"] by simp_all
  then show "page_floor (0x300020 + of_nat i :: u64) = 0x300000"
    using assms by (simp add: word_unat_eq_iff unat_page_floor)
  have fl: "page_floor (0xFFFF800000300020 + of_nat i :: u64) = 0xFFFF800000300000"
    using assms u by (simp add: word_unat_eq_iff unat_page_floor)
  moreover have "page_offset (0xFFFF800000300020 + of_nat i :: u64) = 0x20 + of_nat i"
    using page_floor_plus_offset [of "0xFFFF800000300020 + of_nat i"] unfolding fl by (simp add: algebra_simps)
  ultimately show "translate example_platform example_module_state (0xFFFF800000300020 + of_nat i) = Some (0x300020 + of_nat i)"
    by (simp add: translate_address_space example_module_space add.assoc [symmetric])
qed

theorem load_segment_correct_witness:
  "\<exists>s'. load_segment example_platform 0xFFFF800000300000 0 example_segment example_module_state = Inr s' \<and>
     read_byte example_platform s' 0x400013 = Inr 0x23 \<and> read_byte example_platform s' 0x400030 = Inr 0"
proof -
  let ?s = example_module_state and ?b = "0xFFFF800000300000 :: u64" and ?P = example_platform
  have seg: "p_vaddr example_segment = 0x400010" "p_memsz example_segment = 0x40" "p_filesz example_segment = 0x10"
    "p_offset example_segment = 0x20" by (simp_all add: example_segment_def)
  have inv: "mem_inv example_memmap ?s"
    using example_mem_inv by (simp add: mem_inv_def example_module_state_def)
  have free: "free_frames example_memmap ?s = [0x101000, 0x102000, 0x200000, 0x201000]"
    using example_free_frames by (simp add: example_module_state_def)
  note as = example_module_space and tr = example_module_translate
  have src: "\<exists>pa. translate ?P ?s (0xFFFF800000300020 + of_nat i) = Some pa \<and>
      page_floor pa \<notin> set [0x101000, 0x102000, 0x200000, 0x201000]" if "i < 16" for i :: nat
    using tr [OF that] by simp
  have pf: "page_floor 0x400010 = 0x400000" "page_floor 0 = 0" by (simp_all add: page_floor_def)
  have "\<exists>s'. load_segment ?P ?b 0 example_segment ?s = Inr s' \<and> mem_inv example_memmap s' \<and>
      (\<forall>i < unat (p_filesz example_segment). read_byte ?P s' (p_vaddr example_segment - 0 + of_nat i) =
         read_byte ?P ?s (?b + p_offset example_segment + of_nat i)) \<and>
      (\<forall>i. unat (p_filesz example_segment) \<le> i \<longrightarrow> i < unat (p_memsz example_segment) \<longrightarrow>
         read_byte ?P s' (p_vaddr example_segment - 0 + of_nat i) = Inr 0) \<and>
      (\<forall>pg. (\<forall>j < pages_of (p_vaddr example_segment) (p_memsz example_segment).
           pg \<noteq> page_at (page_floor (p_vaddr example_segment - 0)) j) \<longrightarrow>
         address_space ?P s' pg = address_space ?P ?s pg)"
    by (rule load_segment_correct [OF example_paging_laws inv])
      (use src in \<open>simp_all add: seg free pages_of_def pf as\<close>)
  then obtain s' where s': "load_segment ?P ?b 0 example_segment ?s = Inr s'"
    "\<forall>i < 16. read_byte ?P s' (0x400010 + of_nat i) = read_byte ?P ?s (0xFFFF800000300020 + of_nat i)"
    "\<forall>i. 16 \<le> i \<longrightarrow> i < 64 \<longrightarrow> read_byte ?P s' (0x400010 + of_nat i) = Inr 0"
    by (auto simp: seg)
  have "read_byte ?P s' 0x400013 = Inr 0x23"
    using s'(2) [rule_format, of 3] tr(1) [of 3] by (simp add: read_byte_def example_module_state_def)
  moreover have "read_byte ?P s' 0x400030 = Inr 0" using s'(3) [rule_format, of 32] by simp
  ultimately show ?thesis using s'(1) by blast
qed

text \<open>A page that is mapped already keeps its frame and its mapping, but its contents are zeroed.\<close>

lemma map_zeroed_page_mapped:
  assumes laws: "paging_laws P entries" and inv: "mem_inv entries s"
    and va: "page_floor va = va" "va \<noteq> 0" "unat va < 2 ^ 47"
    and mapped: "address_space P s va = Some (f, flags)" "page_floor f = f"
    and left: "free_frames entries s = g # fs"
  obtains s' k where "map_zeroed_page P va s = Inr s'" "address_space P s' = address_space P s"
    "phys_mem s' = (\<lambda>x. if page_floor x = f then 0 else phys_mem s x)" "free_frames entries s' = drop k fs"
proof -
  obtain fa where fa: "allocate_expect P ''FATAL: OOM loading ELF!'' s = Inr (g, s\<lparr>ALLOCATOR := fa\<rparr>)"
    "fa_inv entries fa" "frames_left entries fa = fs"
    using allocate_expect_Cons [OF laws inv left] by blast
  let ?s = "s\<lparr>ALLOCATOR := fa\<rparr>"
  have inv1: "mem_inv entries ?s" using inv fa(2) by (simp add: mem_inv_def)
  have as1: "address_space P ?s = address_space P s" by (simp add: address_space_def)
  have "unat g < 2 ^ 52" "page_floor g = g"
    using free_frame_below_2p52 [OF laws, of "ALLOCATOR s" g] inv left by (auto simp: mem_inv_def)
  then have frame: "phys_frame P g = Some g" using laws by (auto simp: paging_laws_def address_laws_def)
  obtain t k where t: "map_page P g va user_flags ?s = Inr t" "free_frames entries t = drop k fs"
    "t = ?s\<lparr>ALLOCATOR := ALLOCATOR t, MAPPER := MAPPER t\<rparr>" "address_space P t = address_space P s"
    by (rule map_page_step [OF laws inv1 frame va(3), of user_flags])
      (use va(1) mapped(1) in \<open>auto simp: as1 fa(3)\<close>)
  have tr: "translate P t a = Some (f + page_offset a)" if "page_floor a = va" for a
    using t(4) mapped(1) that by (simp add: translate_address_space)
  obtain q where q: "unat va = q * 4096" using va(1) unat_page_floor [of va] by metis
  have in_page: "page_floor (va + of_nat i) = va" if "i < 4096" for i
    using unat_add_no_overflow [of va "of_nat i"] unat_of_nat_small [of i, where 'w = 64] that va(3) q
    by (simp add: word_unat_eq_iff unat_page_floor)
  let ?m = "poke (translate P t) va (replicate 4096 0) (phys_mem t)"
  have "?m = (\<lambda>x. if page_floor x = f then 0 else phys_mem t x)"
    by (rule poke_page_zero [OF va(1) mapped(2)]) (rule tr)
  moreover have "phys_mem t = phys_mem s" using arg_cong [OF t(3), of phys_mem] by simp
  ultimately have m: "?m = (\<lambda>x. if page_floor x = f then 0 else phys_mem s x)" by metis
  have "translate P t (va + of_nat i) \<noteq> None" if "i < 4096" for i using tr in_page [OF that] by simp
  then have "\<forall>i < length (replicate 4096 (0::u8)). translate P t (va + of_nat i) \<noteq> None"
    unfolding length_replicate by blast
  then have "map_zeroed_page P va s = Inr (t\<lparr>phys_mem := ?m\<rparr>)"
    using va(2) t(1) by (simp add: map_zeroed_page_def fa(1) fill_bytes_def write_bytes_poke)
  moreover have "address_space P (t\<lparr>phys_mem := ?m\<rparr>) = address_space P s"
    using t(4) by (simp add: address_space_def)
  ultimately show ?thesis using that [of "t\<lparr>phys_mem := ?m\<rparr>" k] m t(2) by simp
qed

text \<open>
  Two segments must not share a page: when the page loop reaches a page that an earlier segment
  has mapped, the error of the mapper is dropped, the new frame is lost, and the zeroing erases all
  4096 bytes that the earlier segment put there.
\<close>

theorem shared_page_is_erased:
  assumes "paging_laws P entries" and "mem_inv entries s"
    and "page_floor va = va" and "va \<noteq> 0" and "unat va < 2 ^ 47"
    and "address_space P s va = Some (f, flags)" and "page_floor f = f"
    and "free_frames entries s = g # fs"
  shows "\<exists>s'. map_zeroed_page P va s = Inr s' \<and> address_space P s' = address_space P s \<and>
    (\<forall>a. page_floor a = va \<longrightarrow> read_byte P s' a = Inr 0) \<and> (\<exists>k. free_frames entries s' = drop k fs)"
proof -
  obtain s' k where s': "map_zeroed_page P va s = Inr s'" "address_space P s' = address_space P s"
    "phys_mem s' = (\<lambda>x. if page_floor x = f then 0 else phys_mem s x)" "free_frames entries s' = drop k fs"
    by (rule map_zeroed_page_mapped [OF assms])
  have "read_byte P s' a = Inr 0" if "page_floor a = va" for a
    using that assms(6,7) s'(2,3) by (simp add: read_byte_def translate_address_space frame_plus_offset(1))
  then show ?thesis using s'(1,2,4) by blast
qed

theorem shared_page_is_erased_witness:
  "\<exists>s'. map_zeroed_page example_platform 0x400000
       (example_state\<lparr>MAPPER := Some [0x400000 \<mapsto> (0x300000, user_flags)], phys_mem := (\<lambda>_. 7)\<rparr>) = Inr s' \<and>
     read_byte example_platform s' 0x400123 = Inr 0"
proof -
  let ?s = "example_state\<lparr>MAPPER := Some [0x400000 \<mapsto> (0x300000, user_flags)], phys_mem := (\<lambda>_. 7)\<rparr>"
  have inv: "mem_inv example_memmap ?s" using example_mem_inv by (simp add: mem_inv_def)
  have as: "address_space example_platform ?s 0x400000 = Some (0x300000, user_flags)"
    by (simp add: address_space_def example_platform_def)
  have pf: "page_floor 0x400000 = 0x400000" "page_floor 0x300000 = 0x300000" "page_floor 0x400123 = 0x400000"
    by (simp_all add: page_floor_def)
  have "free_frames example_memmap ?s = [0x101000, 0x102000, 0x200000, 0x201000]"
    using example_free_frames by simp
  from shared_page_is_erased [OF example_paging_laws inv pf(1) _ _ as pf(2) this] pf(3) show ?thesis by auto
qed

text \<open>The relocation moves the upper 2 GiB of the address space below 0x80200000.\<close>

lemma relocated_range:
  assumes "0xFFFFFFFF80000000 \<le> entry"
  shows "0x200000 \<le> unat (entry - relocation entry) \<and> unat (entry - relocation entry) < 0x80200000"
proof -
  have "unat (entry - 0xFFFFFFFF7FE00000) = unat entry - 0xFFFFFFFF7FE00000"
    using assms by (simp add: unat_sub word_le_nat_alt)
  then show ?thesis
    using assms u64_unat_lt [of entry] by (simp add: relocation_def word_le_nat_alt) linarith
qed

end
