(* ===== verification/Elf_Image.thy ===== *)
theory Elf_Image
  imports Kernel_Elf
begin

text \<open>
  Loading a whole executable: \<open>load_and_get_entry\<close> of \<^verbatim>\<open>stardust/src/task/elf.rs\<close> over all
  program headers.  Theory \<open>Kernel_Elf\<close> treats one segment; here the segments follow each other and
  the point is that a segment, once loaded, and the image itself are not disturbed by the later ones.
\<close>

section \<open>Settled bytes\<close>

text \<open>
  A byte is settled when it is mapped to a frame that is not free.  Loading segments does not change
  settled bytes.
\<close>

definition settled :: "('pt, 'p) platform_scheme \<Rightarrow> mem_entry list \<Rightarrow> ('pt, 'm) mem_state_scheme \<Rightarrow> u64 \<Rightarrow> bool" where
  "settled P entries s a \<longleftrightarrow> (\<exists>pa. translate P s a = Some pa \<and> page_floor pa \<notin> set (free_frames entries s))"

definition undisturbed :: "('pt, 'p) platform_scheme \<Rightarrow> mem_entry list \<Rightarrow> ('pt, 'm) mem_state_scheme \<Rightarrow>
    ('pt, 'm) mem_state_scheme \<Rightarrow> bool" where
  "undisturbed P entries s s' \<longleftrightarrow>
     set (free_frames entries s') \<subseteq> set (free_frames entries s) \<and>
     (\<forall>a. settled P entries s a \<longrightarrow> settled P entries s' a \<and> translate P s' a = translate P s a \<and>
        read_byte P s' a = read_byte P s a)"

lemma undisturbed_refl [simp]: "undisturbed P entries s s"
  by (simp add: undisturbed_def)

lemma undisturbed_trans:
  "undisturbed P entries s t \<Longrightarrow> undisturbed P entries t u \<Longrightarrow> undisturbed P entries s u"
  by (auto simp: undisturbed_def)

lemma undisturbed_read:
  "undisturbed P entries s s' \<Longrightarrow> settled P entries s a \<Longrightarrow> read_byte P s' a = read_byte P s a"
  by (simp add: undisturbed_def)

lemma undisturbed_settled:
  "undisturbed P entries s s' \<Longrightarrow> settled P entries s a \<Longrightarrow> settled P entries s' a"
  by (simp add: undisturbed_def)

lemma read_bytes_cong:
  "\<forall>i < n. read_byte P s' (a + of_nat i) = read_byte P s (a + of_nat i) \<Longrightarrow> read_bytes P s' a n = read_bytes P s a n"
proof (induction n arbitrary: a)
  case (Suc n)
  then have "read_byte P s' a = read_byte P s a" "\<forall>i < n. read_byte P s' (a + 1 + of_nat i) = read_byte P s (a + 1 + of_nat i)"
    using all_less_Suc_shift [of n "\<lambda>x. read_byte P s' x = read_byte P s x" a] by simp_all
  then show ?case using Suc.IH by simp
qed simp

text \<open>A structure of \<open>n\<close> bytes at \<open>a\<close> that is settled.\<close>

abbreviation settled_range :: "('pt, 'p) platform_scheme \<Rightarrow> mem_entry list \<Rightarrow> ('pt, 'm) mem_state_scheme \<Rightarrow> u64 \<Rightarrow> nat \<Rightarrow> bool" where
  "settled_range P entries s a n \<equiv> \<forall>i < n. settled P entries s (a + of_nat i)"

lemma read_le_undisturbed:
  assumes "undisturbed P entries s s'" "settled_range P entries s a m" "k + n \<le> m"
  shows "read_le P s' (a + of_nat k) n = read_le P s (a + of_nat k) n"
proof -
  have "settled P entries s (a + of_nat k + of_nat i)" if "i < n" for i
    using assms(2,3) that by (simp add: add.assoc of_nat_add [symmetric] del: of_nat_add)
  then have "read_bytes P s' (a + of_nat k) n = read_bytes P s (a + of_nat k) n"
    using undisturbed_read [OF assms(1)] by (intro read_bytes_cong) blast
  then show ?thesis by (simp add: read_le_def)
qed

lemma read_phdr_undisturbed:
  assumes "undisturbed P entries s s'" "settled_range P entries s a 48"
  shows "read_phdr P s' a = read_phdr P s a"
  using read_le_undisturbed [OF assms, of 0 4] read_le_undisturbed [OF assms, of 8 8]
    read_le_undisturbed [OF assms, of 16 8] read_le_undisturbed [OF assms, of 32 8]
    read_le_undisturbed [OF assms, of 40 8]
  by (simp add: read_phdr_def)

lemma read_header_undisturbed:
  assumes "undisturbed P entries s s'" "settled_range P entries s a 64"
  shows "read_header P s' a = read_header P s a"
proof -
  have "read_bytes P s' a 16 = read_bytes P s a 16"
    using undisturbed_read [OF assms(1)] assms(2) by (intro read_bytes_cong) auto
  then show ?thesis
    using read_le_undisturbed [OF assms, of 24 8] read_le_undisturbed [OF assms, of 32 8]
      read_le_undisturbed [OF assms, of 54 2] read_le_undisturbed [OF assms, of 56 2]
    by (simp add: read_header_def)
qed

text \<open>New mappings of unmapped pages, with memory as it was.\<close>

lemma undisturbed_map:
  assumes "address_space P s \<subseteq>\<^sub>m address_space P s'" "phys_mem s' = phys_mem s"
    and "set (free_frames entries s') \<subseteq> set (free_frames entries s)"
  shows "undisturbed P entries s s'"
proof -
  have "translate P s' a = translate P s a" if "settled P entries s a" for a
    using that assms(1) by (auto simp: settled_def translate_address_space map_le_def dom_def)
  then show ?thesis using assms(2,3) by (auto simp: undisturbed_def settled_def read_byte_def)
qed

section \<open>One segment\<close>

definition seg_pages :: "u64 \<Rightarrow> elf64_phdr \<Rightarrow> u64 set" where
  "seg_pages r ph = {page_at (page_floor (p_vaddr ph - r)) j | j. j < pages_of (p_vaddr ph) (p_memsz ph)}"

text \<open>What a loadable segment needs of the image and of the address space.\<close>

definition segment_ok :: "('pt, 'p) platform_scheme \<Rightarrow> mem_entry list \<Rightarrow> u64 \<Rightarrow> u64 \<Rightarrow> ('pt, 'm) mem_state_scheme \<Rightarrow>
    elf64_phdr \<Rightarrow> bool" where
  "segment_ok P entries base_addr r s ph \<longleftrightarrow>
     r \<le> page_floor (p_vaddr ph) \<and> 4096 \<le> unat (p_vaddr ph - r) \<and>
     unat (p_vaddr ph) + unat (p_memsz ph) + 4095 < 2 ^ 64 \<and> unat (p_vaddr ph - r) + unat (p_memsz ph) + 4095 < 2 ^ 47 \<and>
     p_filesz ph \<le> p_memsz ph \<and> unat base_addr + unat (p_offset ph) < 2 ^ 64 \<and> base_addr + p_offset ph \<noteq> 0 \<and>
     (\<forall>pg \<in> seg_pages r ph. address_space P s pg = None) \<and>
     settled_range P entries s (base_addr + p_offset ph) (unat (p_filesz ph))"

text \<open>What holds of a segment after it was loaded, in terms of the state before.\<close>

definition segment_in_place :: "('pt, 'p) platform_scheme \<Rightarrow> mem_entry list \<Rightarrow> u64 \<Rightarrow> u64 \<Rightarrow> elf64_phdr \<Rightarrow>
    ('pt, 'm) mem_state_scheme \<Rightarrow> ('pt, 'm) mem_state_scheme \<Rightarrow> bool" where
  "segment_in_place P entries base_addr r ph s s' \<longleftrightarrow>
     (\<forall>i < unat (p_filesz ph). read_byte P s' (p_vaddr ph - r + of_nat i) = read_byte P s (base_addr + p_offset ph + of_nat i)) \<and>
     (\<forall>i. unat (p_filesz ph) \<le> i \<longrightarrow> i < unat (p_memsz ph) \<longrightarrow> read_byte P s' (p_vaddr ph - r + of_nat i) = Inr 0) \<and>
     settled_range P entries s' (p_vaddr ph - r) (unat (p_memsz ph))"

lemma segment_in_place_later:
  assumes "segment_in_place P entries base_addr r ph s s'" "p_filesz ph \<le> p_memsz ph" "undisturbed P entries s' s''"
  shows "segment_in_place P entries base_addr r ph s s''"
proof -
  have "unat (p_filesz ph) \<le> unat (p_memsz ph)" using assms(2) by (simp add: word_le_nat_alt)
  then show ?thesis
    using assms(1) undisturbed_read [OF assms(3)] undisturbed_settled [OF assms(3)]
    by (simp add: segment_in_place_def)
qed

lemma settled_outside: "mem_inv entries s \<Longrightarrow> translate P s a = Some pa \<Longrightarrow> page_floor pa \<notin> set (all_frames entries) \<Longrightarrow>
    settled P entries s a"
  using frames_left_subset [of entries "ALLOCATOR s"] by (auto simp: settled_def mem_inv_def)

text \<open>Loading a segment puts it in place, disturbs nothing and maps only its pages.\<close>

lemma segment_loaded_step:
  assumes ld: "segment_loaded P entries base_addr r ph fs s s'" and ok: "segment_ok P entries base_addr r s ph"
    and r: "page_floor r = r"
  shows "segment_in_place P entries base_addr r ph s s'" "undisturbed P entries s s'"
    "\<forall>pg. pg \<notin> seg_pages r ph \<longrightarrow> address_space P s' pg = address_space P s pg"
    "\<exists>k \<le> 4 * pages_of (p_vaddr ph) (p_memsz ph). free_frames entries s' = drop k (free_frames entries s)"
    "s' = s\<lparr>ALLOCATOR := ALLOCATOR s', MAPPER := MAPPER s', phys_mem := phys_mem s'\<rparr>"
proof -
  let ?dst = "p_vaddr ph - r" and ?m = "\<lambda>x. if page_floor x \<in> set fs then 0 else phys_mem s x"
  let ?t = "s'\<lparr>phys_mem := ?m\<rparr>"
  have fr: "fresh_mapping P entries (page_floor ?dst) fs s ?t" and len: "length fs = pages_of (p_vaddr ph) (p_memsz ph)"
    and pm: "\<And>x. page_floor x \<notin> set fs \<Longrightarrow> phys_mem s' x = phys_mem s x"
    using ld by (simp_all add: segment_loaded_def)
  have as: "address_space P ?t = address_space P s'" by (simp add: address_space_def)
  have free: "set fs \<subseteq> set (free_frames entries s)" "set fs \<inter> set (free_frames entries s') = {}"
    and kfree: "\<exists>k \<le> 4 * length fs. free_frames entries s' = drop k (free_frames entries s)"
    and other: "\<forall>pg. (\<forall>j < length fs. pg \<noteq> page_at (page_floor ?dst) j) \<longrightarrow> address_space P s' pg = address_space P s pg"
    using fr by (auto simp: fresh_mapping_def as)
  show out: "\<forall>pg. pg \<notin> seg_pages r ph \<longrightarrow> address_space P s' pg = address_space P s pg"
    using other len by (auto simp: seg_pages_def)
  show "\<exists>k \<le> 4 * pages_of (p_vaddr ph) (p_memsz ph). free_frames entries s' = drop k (free_frames entries s)"
    using kfree len by simp
  have t: "?t = s\<lparr>ALLOCATOR := ALLOCATOR ?t, MAPPER := MAPPER ?t, phys_mem := phys_mem ?t\<rparr>"
    using fr unfolding fresh_mapping_def by blast
  show "s' = s\<lparr>ALLOCATOR := ALLOCATOR s', MAPPER := MAPPER s', phys_mem := phys_mem s'\<rparr>"
    using arg_cong [OF t, of "\<lambda>u. u\<lparr>phys_mem := phys_mem s'\<rparr>"] by simp
  have sub: "set (free_frames entries s') \<subseteq> set (free_frames entries s)" using kfree set_drop_subset by force
  show "undisturbed P entries s s'"
    unfolding undisturbed_def
  proof (intro conjI allI impI sub)
    fix a assume "settled P entries s a"
    then obtain pa where pa: "translate P s a = Some pa" "page_floor pa \<notin> set (free_frames entries s)"
      by (auto simp: settled_def)
    have "page_floor a \<notin> seg_pages r ph" using pa(1) ok by (auto simp: segment_ok_def translate_address_space)
    then show tr: "translate P s' a = translate P s a" using out by (simp add: translate_address_space)
    show "settled P entries s' a" using pa sub tr by (auto simp: settled_def)
    have "phys_mem s' pa = phys_mem s pa" using pm pa(2) free(1) by blast
    then show "read_byte P s' a = read_byte P s a" using tr pa(1) by (simp add: read_byte_def)
  qed
  have top: "unat ?dst + unat (p_memsz ph) + 4095 < 2 ^ 64" using ok by (simp add: segment_ok_def)
  have "length fs = pages_of ?dst (p_memsz ph)" using len relocated_floor(3) [OF r] ok by (simp add: segment_ok_def)
  note ft = fresh_translate [OF fr this top]
  have "settled P entries s' (?dst + of_nat i)" if i: "i < unat (p_memsz ph)" for i
  proof -
    obtain f where "f \<in> set fs" "page_floor f = f" "translate P s' (?dst + of_nat i) = Some (f + page_offset (?dst + of_nat i))"
      by (rule ft [OF i]) simp
    then show ?thesis using free(2) by (auto simp: settled_def frame_plus_offset(1))
  qed
  then show "segment_in_place P entries base_addr r ph s s'"
    using ld by (simp add: segment_in_place_def segment_loaded_def)
qed

section \<open>All segments\<close>

abbreviation loadable :: "elf64_phdr \<Rightarrow> bool" where
  "loadable ph \<equiv> p_type ph = 1"

definition phdr_at :: "u64 \<Rightarrow> u16 \<Rightarrow> nat \<Rightarrow> u64" where
  "phdr_at phdr_base es i = phdr_base + of_nat (i * unat es)"

definition pages_needed :: "elf64_phdr list \<Rightarrow> nat" where
  "pages_needed phs = (\<Sum>ph\<leftarrow>filter loadable phs. pages_of (p_vaddr ph) (p_memsz ph))"

fun disjoint_segments :: "u64 \<Rightarrow> elf64_phdr list \<Rightarrow> bool" where
  "disjoint_segments r [] \<longleftrightarrow> True"
| "disjoint_segments r (ph # phs) \<longleftrightarrow>
     list_all (\<lambda>q. loadable ph \<longrightarrow> loadable q \<longrightarrow> seg_pages r ph \<inter> seg_pages r q = {}) phs \<and> disjoint_segments r phs"

text \<open>The program header table holds \<open>phs\<close> from index \<open>i\<close> on.\<close>

definition table_holds :: "('pt, 'p) platform_scheme \<Rightarrow> mem_entry list \<Rightarrow> u64 \<Rightarrow> u16 \<Rightarrow> nat \<Rightarrow> elf64_phdr list \<Rightarrow>
    ('pt, 'm) mem_state_scheme \<Rightarrow> bool" where
  "table_holds P entries phdr_base es i phs s \<longleftrightarrow>
     i + length phs \<le> 2 ^ 16 \<and>
     (\<forall>j < length phs. unat phdr_base + (i + j) * unat es < 2 ^ 64 \<and>
        read_phdr P s (phdr_at phdr_base es (i + j)) = Inr (phs ! j) \<and>
        settled_range P entries s (phdr_at phdr_base es (i + j)) 48)"

lemma table_holds_later:
  assumes "table_holds P entries pb es i phs s" "undisturbed P entries s s'"
  shows "table_holds P entries pb es i phs s'"
  using assms(1) read_phdr_undisturbed [OF assms(2)] undisturbed_settled [OF assms(2)]
  by (simp add: table_holds_def)

lemma segment_ok_later:
  assumes "segment_ok P entries b r s q" "undisturbed P entries s s'"
    and "\<forall>pg \<in> seg_pages r q. address_space P s' pg = address_space P s pg"
  shows "segment_ok P entries b r s' q"
  using assms undisturbed_settled [OF assms(2)] by (simp add: segment_ok_def)

lemma segment_in_place_earlier:
  assumes "segment_in_place P entries b r q s1 s'" "segment_ok P entries b r s q" "undisturbed P entries s s1"
  shows "segment_in_place P entries b r q s s'"
  using assms undisturbed_read [OF assms(3)] by (simp add: segment_in_place_def segment_ok_def)

text \<open>The loop over the program headers, and what it leaves behind.\<close>

definition segments_placed :: "('pt, 'p) platform_scheme \<Rightarrow> mem_entry list \<Rightarrow> u64 \<Rightarrow> u64 \<Rightarrow> elf64_phdr list \<Rightarrow>
    ('pt, 'm) mem_state_scheme \<Rightarrow> ('pt, 'm) mem_state_scheme \<Rightarrow> bool" where
  "segments_placed P entries b r phs s s' \<longleftrightarrow>
     mem_inv entries s' \<and> undisturbed P entries s s' \<and>
     (\<forall>ph \<in> set phs. loadable ph \<longrightarrow> segment_in_place P entries b r ph s s') \<and>
     (\<forall>pg. (\<forall>ph \<in> set phs. loadable ph \<longrightarrow> pg \<notin> seg_pages r ph) \<longrightarrow> address_space P s' pg = address_space P s pg) \<and>
     (\<exists>k \<le> 4 * pages_needed phs. free_frames entries s' = drop k (free_frames entries s)) \<and>
     s' = s\<lparr>ALLOCATOR := ALLOCATOR s', MAPPER := MAPPER s', phys_mem := phys_mem s'\<rparr>"

lemma segments_placed_Cons:
  assumes ph: "loadable ph" "segment_ok P entries b r s ph" and inv: "mem_inv entries s"
    and s1: "segment_loaded P entries b r ph fs s s1" and r: "page_floor r = r"
    and oks: "\<forall>q \<in> set phs. loadable q \<longrightarrow> segment_ok P entries b r s q"
    and s2: "segments_placed P entries b r phs s1 s2"
  shows "segments_placed P entries b r (ph # phs) s s2"
proof -
  note st = segment_loaded_step [OF s1 ph(2) r]
  have u: "undisturbed P entries s1 s2" using s2 by (simp add: segments_placed_def)
  obtain i j where k: "i \<le> 4 * pages_of (p_vaddr ph) (p_memsz ph)" "free_frames entries s1 = drop i (free_frames entries s)"
    "j \<le> 4 * pages_needed phs" "free_frames entries s2 = drop j (free_frames entries s1)"
    using st(4) s2 by (auto simp: segments_placed_def)
  have fz: "p_filesz ph \<le> p_memsz ph" using ph(2) by (simp add: segment_ok_def)
  have "segment_in_place P entries b r q s s2" if "q \<in> set (ph # phs)" "loadable q" for q
  proof (cases "q = ph")
    case True
    then show ?thesis using segment_in_place_later [OF st(1) fz u] by simp
  next
    case False
    then have "segment_in_place P entries b r q s1 s2" "segment_ok P entries b r s q"
      using that s2 oks by (simp_all add: segments_placed_def)
    then show ?thesis by (rule segment_in_place_earlier [OF _ _ st(2)])
  qed
  moreover have "free_frames entries s2 = drop (i + j) (free_frames entries s)" "i + j \<le> 4 * pages_needed (ph # phs)"
    using k ph(1) by (simp_all add: pages_needed_def add.commute)
  moreover have "s2 = s\<lparr>ALLOCATOR := ALLOCATOR s2, MAPPER := MAPPER s2, phys_mem := phys_mem s2\<rparr>"
  proof -
    have e: "s2 = s1\<lparr>ALLOCATOR := ALLOCATOR s2, MAPPER := MAPPER s2, phys_mem := phys_mem s2\<rparr>"
      using s2 unfolding segments_placed_def by blast
    show ?thesis by (subst e, subst st(5)) simp
  qed
  moreover have "address_space P s2 pg = address_space P s pg"
    if "\<forall>q \<in> set (ph # phs). loadable q \<longrightarrow> pg \<notin> seg_pages r q" for pg
    using that st(3) s2 ph(1) by (simp add: segments_placed_def)
  ultimately show ?thesis
    using undisturbed_trans [OF st(2) u] s2 unfolding segments_placed_def by blast
qed

lemma segments_placed_skip:
  assumes "\<not> loadable ph" "segments_placed P entries b r phs s s'"
  shows "segments_placed P entries b r (ph # phs) s s'"
  using assms by (simp add: segments_placed_def pages_needed_def)

text \<open>
  The loop over the program headers, for any way of reading the header with a given index and of
  loading one segment.  The kernel's loader and the one of the user library are instances.
\<close>

fun segment_loop :: "(nat \<Rightarrow> 's \<Rightarrow> elf64_phdr res) \<Rightarrow> (elf64_phdr \<Rightarrow> 's \<Rightarrow> 's res) \<Rightarrow> nat list \<Rightarrow> 's \<Rightarrow> 's res" where
  "segment_loop fetch load [] s = Inr s"
| "segment_loop fetch load (i # is) s =
     bindE (fetch i s) (\<lambda>ph. bindE (if loadable ph then load ph s else Inr s) (\<lambda>s. segment_loop fetch load is s))"

text \<open>What a segment loader promises; \<open>fits\<close> and \<open>ready\<close> are what it needs beyond \<open>segment_ok\<close>.\<close>

locale segment_loader =
  fixes load :: "('pt, 'p) platform_scheme \<Rightarrow> u64 \<Rightarrow> u64 \<Rightarrow> elf64_phdr \<Rightarrow> ('pt, 'm) mem_state_scheme \<Rightarrow>
      ('pt, 'm) mem_state_scheme res"
    and fits :: "u64 \<Rightarrow> elf64_phdr \<Rightarrow> bool"
    and ready :: "('pt, 'm) mem_state_scheme \<Rightarrow> bool"
  assumes load_places: "paging_laws P entries \<Longrightarrow> mem_inv entries s \<Longrightarrow> distinct (free_frames entries s) \<Longrightarrow>
      page_floor r = r \<Longrightarrow> ready s \<Longrightarrow> fits r ph \<Longrightarrow> segment_ok P entries b r s ph \<Longrightarrow>
      4 * pages_of (p_vaddr ph) (p_memsz ph) \<le> length (free_frames entries s) \<Longrightarrow>
      \<exists>s' fs. load P b r ph s = Inr s' \<and> segment_loaded P entries b r ph fs s s'"
    and ready_kept: "ready s \<Longrightarrow> ready (s\<lparr>ALLOCATOR := alloc, MAPPER := mapper, phys_mem := ram\<rparr>)"
begin

lemma loop_places:
  assumes laws: "paging_laws P entries" and r: "page_floor r = r"
  shows "mem_inv entries s \<Longrightarrow> distinct (free_frames entries s) \<Longrightarrow> ready s \<Longrightarrow>
    (\<forall>j < length phs. \<forall>s'. undisturbed P entries s s' \<longrightarrow> fetch (i + j) s' = Inr (phs ! j)) \<Longrightarrow>
    (\<forall>ph \<in> set phs. loadable ph \<longrightarrow> fits r ph \<and> segment_ok P entries b r s ph) \<Longrightarrow> disjoint_segments r phs \<Longrightarrow>
    4 * pages_needed phs \<le> length (free_frames entries s) \<Longrightarrow>
    \<exists>s'. segment_loop fetch (load P b r) [i..<i + length phs] s = Inr s' \<and> segments_placed P entries b r phs s s'"
proof (induction phs arbitrary: i s)
  case Nil
  then show ?case by (simp add: segments_placed_def pages_needed_def)
next
  case (Cons ph phs)
  have fetch: "fetch i s = Inr ph" using Cons.prems(4) [rule_format, of 0 s] by simp
  have fetch': "\<forall>j < length phs. \<forall>s'. undisturbed P entries s s' \<longrightarrow> fetch (Suc i + j) s' = Inr (phs ! j)"
    using Cons.prems(4) by fastforce
  have idx: "[i..<i + length (ph # phs)] = i # [Suc i..<Suc i + length phs]"
    by (simp add: upt_conv_Cons del: upt_Suc)
  have oks: "\<forall>q \<in> set phs. loadable q \<longrightarrow> fits r q \<and> segment_ok P entries b r s q" using Cons.prems(5) by simp
  then have oks': "\<forall>q \<in> set phs. loadable q \<longrightarrow> segment_ok P entries b r s q" by blast
  show ?case
  proof (cases "loadable ph")
    case True
    have ok: "fits r ph" "segment_ok P entries b r s ph" using Cons.prems(5) True by simp_all
    have left: "4 * pages_of (p_vaddr ph) (p_memsz ph) \<le> length (free_frames entries s)"
      using Cons.prems(7) True by (simp add: pages_needed_def)
    obtain s1 fs where s1: "load P b r ph s = Inr s1" "segment_loaded P entries b r ph fs s s1"
      using load_places [OF laws Cons.prems(1,2) r Cons.prems(3) ok left] by blast
    note st = segment_loaded_step [OF s1(2) ok(2) r]
    obtain k where k: "k \<le> 4 * pages_of (p_vaddr ph) (p_memsz ph)" "free_frames entries s1 = drop k (free_frames entries s)"
      using st(4) by blast
    have s1_ok: "mem_inv entries s1" "ready s1"
      using s1(2) ready_kept [OF Cons.prems(3)] st(5) by (simp_all add: segment_loaded_def) metis
    have ok1: "\<forall>q \<in> set phs. loadable q \<longrightarrow> fits r q \<and> segment_ok P entries b r s1 q"
    proof (intro ballI impI)
      fix q assume q: "q \<in> set phs" "loadable q"
      then have "seg_pages r ph \<inter> seg_pages r q = {}" using Cons.prems(6) True by (simp add: list_all_iff)
      then have "\<forall>pg \<in> seg_pages r q. address_space P s1 pg = address_space P s pg" using st(3) by blast
      with oks q segment_ok_later [OF _ st(2)] show "fits r q \<and> segment_ok P entries b r s1 q" by blast
    qed
    have "\<exists>s'. segment_loop fetch (load P b r) [Suc i..<Suc i + length phs] s1 = Inr s' \<and> segments_placed P entries b r phs s1 s'"
      by (rule Cons.IH [OF s1_ok(1) _ s1_ok(2) _ ok1])
        (use Cons.prems(2,6,7) k True fetch' undisturbed_trans [OF st(2)] in \<open>auto simp: distinct_drop pages_needed_def\<close>)
    then show ?thesis
      using fetch True s1(1) segments_placed_Cons [OF True ok(2) Cons.prems(1) s1(2) r oks'] unfolding idx by auto
  next
    case False
    have "\<exists>s'. segment_loop fetch (load P b r) [Suc i..<Suc i + length phs] s = Inr s' \<and> segments_placed P entries b r phs s s'"
      by (rule Cons.IH [OF Cons.prems(1-3) fetch' oks]) (use Cons.prems(6,7) False in \<open>simp_all add: pages_needed_def\<close>)
    then show ?thesis using fetch False segments_placed_skip [OF False] unfolding idx by auto
  qed
qed

end

text \<open>The kernel's loader.\<close>

interpretation kernel_loader: segment_loader load_segment "\<lambda>_ _. True" "\<lambda>_. True"
proof
  fix P :: "('pt, 'p) platform_scheme" and entries and s :: "('pt, 'm) mem_state_scheme" and r b ph
  assume a: "paging_laws P entries" "mem_inv entries s" "distinct (free_frames entries s)" "page_floor r = r"
    "segment_ok P entries b r s ph" "4 * pages_of (p_vaddr ph) (p_memsz ph) \<le> length (free_frames entries s)"
  show "\<exists>s' fs. load_segment P b r ph s = Inr s' \<and> segment_loaded P entries b r ph fs s s'"
    using load_segment_effect [OF a(1-4) _ _ _ _ _ a(6), where base_addr = b] a(5)
    by (auto simp: segment_ok_def seg_pages_def settled_def)
qed simp

lemma u16_unat_lt: "unat (x :: u16) < 2 ^ 16"
  using unsigned_less [of x] by simp

definition kernel_fetch_phdr :: "('pt, 'p) platform_scheme \<Rightarrow> u64 \<Rightarrow> u16 \<Rightarrow> nat \<Rightarrow> ('pt, 'm) mem_state_scheme \<Rightarrow> elf64_phdr res" where
  "kernel_fetch_phdr P pb es i s =
     bindE (mul_chk (ucast (of_nat i :: u16)) (ucast es)) (\<lambda>off. bindE (add_chk pb off) (\<lambda>a. read_phdr P s a))"

lemma phdr_loop_segment_loop:
  fixes s :: "('pt, 'm) mem_state_scheme"
  shows "phdr_loop P b r pb es (map of_nat is) s = segment_loop (kernel_fetch_phdr P pb es) (load_segment P b r) is s"
proof (induction "is" arbitrary: s)
  case (Cons i "is")
  have "phdr_loop P b r pb es (map of_nat is) =
      (segment_loop (kernel_fetch_phdr P pb es) (load_segment P b r) is :: ('pt, 'm) mem_state_scheme \<Rightarrow> _)"
    by (rule ext) (rule Cons.IH)
  then show ?case by (simp add: kernel_fetch_phdr_def [of P pb es i s] bindE_assoc)
qed simp

lemma kernel_fetch_table:
  assumes "table_holds P entries pb es i phs s" "j < length phs"
  shows "kernel_fetch_phdr P pb es (i + j) s = Inr (phs ! j)"
proof -
  let ?i = "i + j"
  have t: "?i < 2 ^ 16" "unat pb + ?i * unat es < 2 ^ 64" "read_phdr P s (phdr_at pb es ?i) = Inr (phs ! j)"
    using assms by (simp_all add: table_holds_def)
  have u: "unat (of_nat ?i :: u16) = ?i" using t(1) by (intro unat_of_nat_small) simp
  have small: "?i * unat es < 2 ^ 64" using t(2) by simp
  have es: "unat (ucast es :: u64) = unat es" "unat (ucast (of_nat ?i :: u16) :: u64) = unat (of_nat ?i :: u16)"
    using u16_unat_lt by (intro unat_ucast_small order_less_le_trans [OF u16_unat_lt], simp)+
  have ui: "unat (of_nat ?i :: u64) = ?i" using t(1) by (intro unat_of_nat_small) simp
  have e: "(ucast (of_nat ?i :: u16) :: u64) = of_nat ?i" unfolding word_unat_eq_iff es(2) u ui ..
  have "of_nat ?i * ucast es = (of_nat (?i * unat es) :: u64)" by simp
  then have "mul_chk (of_nat ?i) (ucast es) = Inr (of_nat (?i * unat es) :: u64)"
    using small ui es(1) by (simp only: mul_chk_def) simp
  moreover have "add_chk pb (of_nat (?i * unat es)) = Inr (phdr_at pb es ?i)"
    using t(2) unat_of_nat_small [of "(i + j) * unat es", where 'w = 64] small by (simp add: add_chk_def phdr_at_def)
  ultimately show ?thesis using t(3) unfolding kernel_fetch_phdr_def e by simp
qed

lemma phdr_loop_places:
  assumes "paging_laws P entries" "page_floor r = r" "mem_inv entries s" "distinct (free_frames entries s)"
    "table_holds P entries pb es 0 phs s" "\<forall>ph \<in> set phs. loadable ph \<longrightarrow> segment_ok P entries b r s ph"
    "disjoint_segments r phs" "4 * pages_needed phs \<le> length (free_frames entries s)"
  shows "\<exists>s'. phdr_loop P b r pb es (map of_nat [0..<length phs]) s = Inr s' \<and> segments_placed P entries b r phs s s'"
  using kernel_loader.loop_places [OF assms(1-4) TrueI, of phs "kernel_fetch_phdr P pb es" 0 b] assms(6-8)
    kernel_fetch_table [OF table_holds_later [OF assms(5)]]
  by (simp add: phdr_loop_segment_loop)

section \<open>The whole image\<close>

text \<open>Serial output does not touch memory.\<close>

lemma translate_say [simp]: "translate P (say msg s) = translate P s"
  by (simp add: translate_def fun_eq_iff)

lemma read_byte_say [simp]: "read_byte P (say msg s) = read_byte P s"
  by (simp add: read_byte_def fun_eq_iff split: option.split)

lemma read_bytes_say [simp]: "read_bytes P (say msg s) a n = read_bytes P s a n"
  by (induction n arbitrary: a) simp_all

lemma read_le_say [simp]: "read_le P (say msg s) = read_le P s"
  by (simp add: read_le_def fun_eq_iff)

lemma read_structs_say [simp]: "read_header P (say msg s) = read_header P s" "read_phdr P (say msg s) = read_phdr P s"
  by (simp_all add: read_header_def read_phdr_def fun_eq_iff)

lemma settled_say [simp]: "settled P entries (say msg s) = settled P entries s"
  by (simp add: settled_def fun_eq_iff)

lemma image_say [simp]:
  "table_holds P entries pb es i phs (say msg s) = table_holds P entries pb es i phs s"
  "segment_ok P entries b r (say msg s) = segment_ok P entries b r s"
  "mem_inv entries (say msg s) = mem_inv entries s"
  "segment_in_place P entries b r ph (say msg s) s' = segment_in_place P entries b r ph s s'"
  "segment_in_place P entries b r ph s (say msg s') = segment_in_place P entries b r ph s s'"
  "undisturbed P entries (say msg s) s' = undisturbed P entries s s'"
  "undisturbed P entries s (say msg s') = undisturbed P entries s s'"
  by (simp_all add: table_holds_def segment_ok_def fun_eq_iff mem_inv_def segment_in_place_def undisturbed_def)

lemma page_floor_relocation: "page_floor (relocation e) = relocation e"
  by (simp add: relocation_def page_floor_def)

text \<open>
  An executable image at \<open>b\<close>: its header, its program headers \<open>phs\<close>, loadable segments with
  pages of their own, and enough frames.
\<close>

definition image_ok :: "('pt, 'p) platform_scheme \<Rightarrow> mem_entry list \<Rightarrow> u64 \<Rightarrow> elf64_header \<Rightarrow> elf64_phdr list \<Rightarrow>
    ('pt, 'm) mem_state_scheme \<Rightarrow> bool" where
  "image_ok P entries b hdr phs s \<longleftrightarrow>
     read_header P s b = Inr hdr \<and> settled_range P entries s b 64 \<and> take 4 (e_ident hdr) = ELF_MAGIC \<and> unat b + unat (e_phoff hdr) < 2 ^ 64 \<and>
     length phs = unat (e_phnum hdr) \<and> table_holds P entries (b + e_phoff hdr) (e_phentsize hdr) 0 phs s \<and>
     (\<forall>ph \<in> set phs. loadable ph \<longrightarrow> segment_ok P entries b (relocation (e_entry hdr)) s ph) \<and>
     disjoint_segments (relocation (e_entry hdr)) phs \<and> 4 * pages_needed phs \<le> length (free_frames entries s)"

lemma image_ok_later:
  assumes img: "image_ok P entries b hdr phs s" and inv: "mem_inv entries s" and und: "undisturbed P entries s s'"
    and pages: "\<forall>ph \<in> set phs. loadable ph \<longrightarrow> (\<forall>pg \<in> seg_pages (relocation (e_entry hdr)) ph. address_space P s' pg = address_space P s pg)"
    and left: "4 * pages_needed phs \<le> length (free_frames entries s')"
  shows "image_ok P entries b hdr phs s'"
proof -
  note i = img [unfolded image_ok_def]
  have "read_header P s' b = Inr hdr" using i read_header_undisturbed [OF und] by auto
  moreover have "settled_range P entries s' b 64" using i undisturbed_settled [OF und] by blast
  moreover have "table_holds P entries (b + e_phoff hdr) (e_phentsize hdr) 0 phs s'" using i table_holds_later [OF _ und] by blast
  moreover have "segment_ok P entries b (relocation (e_entry hdr)) s' ph" if "ph \<in> set phs" "loadable ph" for ph
    using i that pages by (intro segment_ok_later [OF _ und]) auto
  ultimately show ?thesis using i left by (simp add: image_ok_def)
qed

text \<open>The pages of a segment end where the segment does.\<close>

lemma seg_pages_below:
  assumes ok: "segment_ok P entries b r s ph" and r: "page_floor r = r" and pg: "pg \<in> seg_pages r ph"
  shows "unat pg + 4096 \<le> unat (p_vaddr ph - r) + unat (p_memsz ph) + 4095"
proof -
  let ?v = "p_vaddr ph - r"
  have top: "unat ?v + unat (p_memsz ph) + 4095 < 2 ^ 64" and le: "r \<le> page_floor (p_vaddr ph)"
    using ok by (simp_all add: segment_ok_def)
  note n = relocated_floor(3) [OF r le, of "p_memsz ph"]
  obtain j where j: "j < pages_of ?v (p_memsz ph)" "pg = page_at (page_floor ?v) j"
    using pg n by (auto simp: seg_pages_def)
  have "unat (page_floor ?v) + 4096 * pages_of ?v (p_memsz ph) = unat (page_floor (?v + p_memsz ph + 0xFFF))"
    using segment_end(3) [OF top] by simp
  also have "\<dots> \<le> unat (?v + p_memsz ph + 0xFFF)" by (simp add: unat_page_floor)
  also have "\<dots> \<le> unat ?v + unat (p_memsz ph) + 4095"
    using unat_add_no_overflow [of ?v "p_memsz ph"] unat_add_no_overflow [of "?v + p_memsz ph" "0xFFF"] top by simp
  finally have "unat (page_floor ?v) + 4096 * pages_of ?v (p_memsz ph) \<le> unat ?v + unat (p_memsz ph) + 4095" .
  moreover have "unat (page_floor ?v) + 4096 * j + 4096 \<le> unat (page_floor ?v) + 4096 * pages_of ?v (p_memsz ph)"
    using j(1) by simp
  ultimately show ?thesis using unat_page_at [of "page_floor ?v" j] j(2) top by simp
qed

abbreviation image_entry :: "elf64_header \<Rightarrow> u64" where
  "image_entry hdr \<equiv> e_entry hdr - relocation (e_entry hdr)"

text \<open>What loading the image achieves.\<close>

definition image_loaded :: "('pt, 'p) platform_scheme \<Rightarrow> mem_entry list \<Rightarrow> u64 \<Rightarrow> elf64_header \<Rightarrow> elf64_phdr list \<Rightarrow>
    ('pt, 'm) mem_state_scheme \<Rightarrow> ('pt, 'm) mem_state_scheme \<Rightarrow> bool" where
  "image_loaded P entries b hdr phs s s' \<longleftrightarrow>
     mem_inv entries s' \<and> undisturbed P entries s s' \<and>
     (\<forall>ph \<in> set phs. loadable ph \<longrightarrow> segment_in_place P entries b (relocation (e_entry hdr)) ph s s') \<and>
     (\<forall>pg. (\<forall>ph \<in> set phs. loadable ph \<longrightarrow> pg \<notin> seg_pages (relocation (e_entry hdr)) ph) \<longrightarrow>
        address_space P s' pg = address_space P s pg) \<and>
     (\<exists>k \<le> 4 * pages_needed phs. free_frames entries s' = drop k (free_frames entries s))"

lemma segments_placed_loaded:
  assumes "segments_placed P entries b (relocation (e_entry hdr)) phs s s'"
  shows "image_loaded P entries b hdr phs s s'"
  using assms by (simp add: segments_placed_def image_loaded_def)

lemma image_loaded_say [simp]:
  "image_loaded P entries b hdr phs (say msg s) s' = image_loaded P entries b hdr phs s s'"
  "image_loaded P entries b hdr phs s (say msg s') = image_loaded P entries b hdr phs s s'"
  by (simp_all add: image_loaded_def)

lemma load_image:
  assumes laws: "paging_laws P entries" and inv: "mem_inv entries s" and dist: "distinct (free_frames entries s)"
    and img: "image_ok P entries b hdr phs s"
  shows "\<exists>s'. load_and_get_entry P b s = Inr (image_entry hdr, s') \<and> image_loaded P entries b hdr phs s s'"
proof -
  let ?r = "relocation (e_entry hdr)" and ?pb = "b + e_phoff hdr"
  define t where "t = (if e_entry hdr \<ge> 0xFFFFFFFF80000000
    then say ''[!] Linker collision detected! Force-relocating to User Space...\<newline>'' else (\<lambda>s. s))
    (say ''[*] Mapping ELF Segments into User Space...\<newline>'' (say ''[*] Dissecting ELF64 Binary Header...\<newline>'' s))"
  have t: "mem_inv entries t" "distinct (free_frames entries t)" "table_holds P entries ?pb (e_phentsize hdr) 0 phs t"
    "\<forall>ph \<in> set phs. loadable ph \<longrightarrow> segment_ok P entries b ?r t ph" "4 * pages_needed phs \<le> length (free_frames entries t)"
    using inv dist img by (simp_all add: t_def image_ok_def)
  have "disjoint_segments ?r phs" using img by (simp add: image_ok_def)
  from phdr_loop_places [OF laws page_floor_relocation t(1-4) this t(5)]
  obtain s' where s': "phdr_loop P b ?r ?pb (e_phentsize hdr) (map of_nat [0..<length phs]) t = Inr s'"
    "segments_placed P entries b ?r phs t s'" by auto
  have "image_loaded P entries b hdr phs t s'" by (rule segments_placed_loaded [OF s'(2)])
  then have "image_loaded P entries b hdr phs s s'" by (simp add: t_def split: if_splits)
  moreover have "add_chk b (e_phoff hdr) = Inr ?pb" using img by (simp add: image_ok_def add_chk_def)
  ultimately show ?thesis
    using img s'(1)
    by (cases "e_entry hdr \<ge> 0xFFFFFFFF80000000") (auto simp: load_and_get_entry_def Let_def image_ok_def t_def relocation_def)
qed

section \<open>A concrete image\<close>

text \<open>
  An image with one loadable segment, in the module page at physical address 0x300000: four bytes of
  data at file offset 120 are loaded to 0x400010, followed by 28 zeros.
\<close>

definition image_bytes :: "u8 list" where
  "image_bytes =
     ELF_MAGIC @ replicate 20 0 @ [0x10, 0, 0x40, 0, 0, 0, 0, 0] @ [64, 0, 0, 0, 0, 0, 0, 0] @ replicate 14 0 @
     [56, 0] @ [1, 0] @ replicate 6 0 @
     [1, 0, 0, 0] @ [0, 0, 0, 0] @ [120, 0, 0, 0, 0, 0, 0, 0] @ [0x10, 0, 0x40, 0, 0, 0, 0, 0] @ replicate 8 0 @
     [4, 0, 0, 0, 0, 0, 0, 0] @ [32, 0, 0, 0, 0, 0, 0, 0] @ replicate 8 0 @
     [0xDE, 0xAD, 0xBE, 0xEF]"

definition image_ram :: "u64 \<Rightarrow> u8" where
  "image_ram x = (let i = unat x - 0x300000 in if 0x300000 \<le> unat x \<and> i < length image_bytes then image_bytes ! i else 0)"

definition image_header :: elf64_header where
  "image_header = \<lparr>e_ident = ELF_MAGIC @ replicate 12 0, e_entry = 0x400010, e_phoff = 64, e_phentsize = 56, e_phnum = 1\<rparr>"

definition image_phdr :: elf64_phdr where
  "image_phdr = \<lparr>p_type = 1, p_offset = 120, p_vaddr = 0x400010, p_filesz = 4, p_memsz = 32\<rparr>"

abbreviation image_base :: u64 where "image_base \<equiv> 0xFFFF800000300000"

lemma length_image_bytes: "length image_bytes = 124"
  by (simp add: image_bytes_def ELF_MAGIC_def)

lemma image_translate:
  assumes "address_space P s image_base = Some (0x300000, fl)" "i < 4096"
  shows "translate P s (image_base + of_nat i) = Some (0x300000 + of_nat i)"
    "unat (0x300000 + of_nat i :: u64) = 0x300000 + i" "page_floor (0x300000 + of_nat i :: u64) = 0x300000"
proof -
  have "unat (of_nat i :: u64) = i" using assms(2) by (intro unat_of_nat_small) simp
  then have u: "unat (image_base + of_nat i) = 0xFFFF800000300000 + i" "unat (0x300000 + of_nat i :: u64) = 0x300000 + i"
    using assms(2) unat_add_no_overflow [of image_base "of_nat i"] unat_add_no_overflow [of "0x300000 :: u64" "of_nat i"]
    by simp_all
  then show "unat (0x300000 + of_nat i :: u64) = 0x300000 + i" "page_floor (0x300000 + of_nat i :: u64) = 0x300000"
    using assms(2) by (simp_all add: word_unat_eq_iff unat_page_floor)
  have fl: "page_floor (image_base + of_nat i) = image_base"
    using assms(2) u by (simp add: word_unat_eq_iff unat_page_floor)
  moreover have "page_offset (image_base + of_nat i) = of_nat i"
    using page_floor_plus_offset [of "image_base + of_nat i"] unfolding fl by simp
  ultimately show "translate P s (image_base + of_nat i) = Some (0x300000 + of_nat i)"
    using assms(1) by (simp add: translate_address_space)
qed

lemma image_read_byte:
  assumes "address_space P s image_base = Some (0x300000, fl)" "phys_mem s = image_ram" "i < 124"
  shows "read_byte P s (image_base + of_nat i) = Inr (image_bytes ! i)"
  using image_translate [OF assms(1), of i] assms(2,3) by (simp add: read_byte_def image_ram_def length_image_bytes)

lemma image_read_bytes:
  assumes img: "address_space P s image_base = Some (0x300000, fl)" "phys_mem s = image_ram" and "k + n \<le> 124"
  shows "read_bytes P s (image_base + of_nat k) n = Inr (take n (drop k image_bytes))"
  using assms(3)
proof (induction n arbitrary: k)
  case (Suc n)
  then have "read_byte P s (image_base + of_nat k) = Inr (image_bytes ! k)" by (intro image_read_byte [OF img]) simp
  moreover have "read_bytes P s (image_base + of_nat k + 1) n = Inr (take n (drop (Suc k) image_bytes))"
    using Suc.IH [of "Suc k"] Suc.prems by (simp add: add_ac)
  ultimately show ?case using Suc.prems by (simp add: Cons_nth_drop_Suc [symmetric] length_image_bytes)
qed simp

lemma image_structs:
  assumes img: "address_space P s image_base = Some (0x300000, fl)" "phys_mem s = image_ram"
  shows "read_header P s image_base = Inr image_header" "read_phdr P s (image_base + 64) = Inr image_phdr"
proof -
  note r = image_read_bytes [OF img]
  show "read_header P s image_base = Inr image_header"
    using r [of 0 16] r [of 24 8] r [of 32 8] r [of 54 2] r [of 56 2]
    by (simp add: read_header_def read_le_def image_bytes_def ELF_MAGIC_def image_header_def)
  show "read_phdr P s (image_base + 64) = Inr image_phdr"
    using r [of 64 4] r [of 72 8] r [of 80 8] r [of 96 8] r [of 104 8]
    by (simp add: read_phdr_def read_le_def image_bytes_def ELF_MAGIC_def image_phdr_def)
qed

lemma image_seg_pages: "seg_pages (relocation (e_entry image_header)) image_phdr = {0x400000}"
  "relocation (e_entry image_header) = 0" "pages_needed [image_phdr] = 1"
proof -
  show r: "relocation (e_entry image_header) = 0" by (simp add: relocation_def image_header_def)
  have "pages_of 0x400010 32 = 1" by (simp add: pages_of_def)
  then show "seg_pages (relocation (e_entry image_header)) image_phdr = {0x400000}" "pages_needed [image_phdr] = 1"
    by (simp_all add: seg_pages_def r image_phdr_def page_floor_def pages_needed_def)
qed

lemma example_image_ok:
  assumes img: "address_space P s image_base = Some (0x300000, fl)" "phys_mem s = image_ram"
    and inv: "mem_inv entries s" and out: "0x300000 \<notin> set (all_frames entries)"
    and pg: "address_space P s 0x400000 = None" and left: "4 \<le> length (free_frames entries s)"
  shows "image_ok P entries image_base image_header [image_phdr] s"
proof -
  have st: "\<exists>pa. translate P s (image_base + of_nat i) = Some pa \<and> page_floor pa \<notin> set (all_frames entries)"
    "settled P entries s (image_base + of_nat i)" if "i < 4096" for i
    using image_translate [OF img(1) that] out settled_outside [OF inv, of P "image_base + of_nat i"] by auto
  have rng: "settled_range P entries s (image_base + 64) 48"
    using st(2) [of "64 + _"] by (simp add: add.assoc [symmetric])
  have hd: "settled_range P entries s image_base 64" using st(2) by simp
  have src: "settled_range P entries s (image_base + 120) 4"
    using st(2) [of "120 + _"] by (simp add: add.assoc [symmetric])
  have h: "e_phoff image_header = 64" "e_phentsize image_header = 56" "e_phnum image_header = 1"
    "take 4 (e_ident image_header) = ELF_MAGIC" by (simp_all add: image_header_def ELF_MAGIC_def)
  have "table_holds P entries (image_base + 64) 56 0 [image_phdr] s"
    using rng image_structs(2) [OF img] by (simp add: table_holds_def phdr_at_def)
  moreover have "segment_ok P entries image_base 0 s image_phdr"
    using src pg image_seg_pages(1,2) by (simp add: segment_ok_def) (simp add: image_phdr_def page_floor_def)
  ultimately show ?thesis
    using image_structs(1) [OF img] hd h left image_seg_pages by (simp add: image_ok_def image_phdr_def)
qed

section \<open>Properties\<close>

text \<open>
  C4. Loading an executable is correct: for an image with a valid header whose loadable segments lie
  in pages of their own, with enough frames, the loader returns the (relocated) entry point;
  afterwards every loadable segment holds its bytes of the file followed by zeros (also the segments
  that were loaded first), the image and all other memory in use is unchanged, and no page outside of
  the segments is mapped differently.
\<close>

theorem load_image_correct:
  assumes "paging_laws P entries" and "mem_inv entries s" and "distinct (free_frames entries s)"
    and "image_ok P entries b hdr phs s"
  shows "\<exists>s'. load_and_get_entry P b s = Inr (image_entry hdr, s') \<and> image_loaded P entries b hdr phs s s'"
  using assms by (rule load_image)

definition image_state :: "flat_table mem_state" where
  "image_state = example_state\<lparr>MAPPER := Some [image_base \<mapsto> (0x300000, {PRESENT})], phys_mem := image_ram\<rparr>"

theorem load_image_correct_witness:
  "\<exists>s'. load_and_get_entry example_platform image_base image_state = Inr (0x400010, s') \<and>
     read_byte example_platform s' 0x400012 = Inr 0xBE \<and> read_byte example_platform s' 0x400020 = Inr 0"
proof -
  let ?P = example_platform and ?s = image_state
  have inv: "mem_inv example_memmap ?s" using example_mem_inv by (simp add: mem_inv_def image_state_def)
  have free: "free_frames example_memmap ?s = [0x101000, 0x102000, 0x200000, 0x201000]"
    using example_free_frames by (simp add: image_state_def)
  have as: "address_space ?P ?s = [image_base \<mapsto> (0x300000, {PRESENT})]" "phys_mem ?s = image_ram"
    by (simp_all add: address_space_def image_state_def example_platform_def)
  have ok: "image_ok ?P example_memmap image_base image_header [image_phdr] ?s"
    by (rule example_image_ok [OF _ as(2) inv]) (simp_all add: as free all_frames_example)
  obtain s' where s': "load_and_get_entry ?P image_base ?s = Inr (image_entry image_header, s')"
    "image_loaded ?P example_memmap image_base image_header [image_phdr] ?s s'"
    using load_image_correct [OF example_paging_laws inv _ ok] free by auto
  then have pl: "segment_in_place ?P example_memmap image_base 0 image_phdr ?s s'"
    using image_seg_pages(2) by (simp add: image_loaded_def image_phdr_def)
  have ph: "p_filesz image_phdr = 4" "p_memsz image_phdr = 32" "p_vaddr image_phdr = 0x400010" "p_offset image_phdr = 120"
    by (simp_all add: image_phdr_def)
  have byte: "image_bytes ! 122 = 0xBE" by (simp add: image_bytes_def ELF_MAGIC_def nth_append)
  have "read_byte ?P ?s (image_base + of_nat 122) = Inr (image_bytes ! 122)"
    by (rule image_read_byte [where fl = "{PRESENT}"]) (simp_all add: as)
  then have "read_byte ?P s' 0x400012 = Inr 0xBE"
    using pl [unfolded segment_in_place_def ph, THEN conjunct1, rule_format, of 2]
    by (simp add: byte)
  moreover have "read_byte ?P s' 0x400020 = Inr 0"
    using pl [unfolded segment_in_place_def ph, THEN conjunct2, THEN conjunct1, rule_format, of 16] by simp
  moreover have "image_entry image_header = 0x400010"
    using image_seg_pages(2) by (simp add: image_header_def)
  ultimately show ?thesis using s'(1) by auto
qed

end
