(* ===== verification/Boot.thy ===== *)
theory Boot
  imports Smp Elf_Image
begin

text \<open>
  The boot sequence of core 0: \<^verbatim>\<open>stardust/src/main.rs\<close>, with the initialization functions it
  calls that are not in an earlier theory (\<^verbatim>\<open>arch/x86_64/mod.rs\<close>, \<^verbatim>\<open>arch/x86_64/cpu.rs\<close>,
  \<^verbatim>\<open>task/scheduler.rs\<close>).

  The state is the record \<open>machine\<close> of core 0.  The application processors are the subject of
  theory \<open>Smp\<close>: what they do during \<open>smp::init\<close> (numbering, their own registers) does not touch
  the statics used here, and before the god process is spawned their dispatch loop finds an empty
  run queue.  The wait of \<open>smp::init\<close> is the barrier of that theory.
\<close>

section \<open>Model: answers of the boot loader\<close>

record limine =
  base_revision_supported :: bool
  mp_response :: "(u32 list \<times> u32) option"
  module_response :: "(u64 \<times> u64) list option"

text \<open>The statics as the compiler initialized them, and the machine that the boot loader hands over.\<close>

definition statics :: "'dev \<Rightarrow> (u64 \<Rightarrow> u8) \<Rightarrow> ('pt, 'dev) kernel" where
  "statics dev ram =
     \<lparr>ALLOCATOR = frame_allocator_new, MAPPER = None, HHDM_OFFSET = 0, CDT = cdt_new, serial = [], phys_mem = ram,
      SCHEDULER = scheduler_new, GLOBAL_IPC_MAILBOX = 0, IRQ_MAILBOXES = replicate 256 0, SHOOTDOWN_ADDR = 0,
      SHOOTDOWN_ACK = 0, SUPERVISOR_MAILBOX = 0, devices = dev\<rparr>"

definition power_on :: "'dev \<Rightarrow> (u64 \<Rightarrow> u8) \<Rightarrow> core \<Rightarrow> ('pt, 'dev) machine" where
  "power_on dev ram c = \<lparr>kern = statics dev ram, cpu = c, bus = []\<rparr>"

section \<open>Model: the initialization functions\<close>

text \<open>A function on the kernel's statics, or on the serial log, run on the machine.\<close>

definition run_kern :: "(('pt, 'dev) kernel \<Rightarrow> ('pt, 'dev) kernel res) \<Rightarrow> ('pt, 'dev) machine \<Rightarrow> ('pt, 'dev) machine res" where
  "run_kern f m = bindE (f (kern m)) (\<lambda>s. Inr (m\<lparr>kern := s\<rparr>))"

definition memory_init :: "('pt, 'dev) hw_platform \<Rightarrow> ('pt, 'dev) kernel \<Rightarrow> ('pt, 'dev) kernel res" where
  "memory_init P s =
     bindE (physical_init (memmap_response P) (serial s)) (\<lambda>log.
     bindE (frame_init (memmap_response P) (ALLOCATOR s) log) (\<lambda>(alloc, log).
     bindE (paging_init P (s\<lparr>ALLOCATOR := alloc, serial := log\<rparr>)) (\<lambda>s.
     mapper_init P s)))"

definition security_init :: "('pt, 'dev) kernel \<Rightarrow> ('pt, 'dev) kernel res" where
  "security_init s = bindE (cdt_init (CDT s) (serial s)) (\<lambda>(tree, log). Inr (s\<lparr>CDT := tree, serial := log\<rparr>))"

definition enable_pcid :: "('pt, 'dev) machine \<Rightarrow> ('pt, 'dev) machine" where
  "enable_pcid m =
     (let m = on_kern (say ''[*] Checking for PCID hardware support...\<newline>'') m;
          flags = CR4 (cpu m);
          flags = set_bit_of 17 flags;
          flags = set_bit_of 9 flags;
          flags = set_bit_of 10 flags;
          m = m\<lparr>cpu := (cpu m)\<lparr>CR4 := flags\<rparr>\<rparr>;
          m = on_kern (say ''[+] PCID Memory Acceleration enabled in CR4.\<newline>'') m
      in on_kern (say ''[+] SSE Hardware Instructions Unlocked in CR4.\<newline>'') m)"

definition init_features :: "('pt, 'dev) machine \<Rightarrow> ('pt, 'dev) machine" where
  "init_features m = on_kern iommu_init (enable_pcid m)"

text \<open>\<open>smp::init\<close> on core 0, up to and after the barrier.\<close>

definition smp_init :: "limine \<Rightarrow> ('pt, 'dev) kernel \<Rightarrow> ('pt, 'dev) kernel res" where
  "smp_init L s =
     (let s = say ''[*] Interrogating Limine for CPU Core Topology...\<newline>'' s in
      bindE (expectE ''FATAL: MP not supported!'' (mp_response L)) (\<lambda>(cpus, bsp_id).
      let s = say ''[+] SMP topology retrieved.\<newline>'' s;
          s = say ''[+] Total CPU Cores detected: '' s
      in bindE (say_u64 (of_nat (length cpus)) s) (\<lambda>s.
         bindE (say_u64 (ucast bsp_id) (say ''\<newline>[+] Boot Processor (BSP) APIC ID: '' s)) (\<lambda>s.
         let s = say ''\<newline>'' s;
             s = say ''[*] Awakening Application Processors (APs)...\<newline>'' s
         in bindE (if cpus = [] then Inl Arith_Overflow else Inr (length cpus - 1)) (\<lambda>expected_aps.
            Inr (say ''[+] All CPU Cores are now online and synchronized!\<newline>'' s))))))"

definition scheduler_init :: "('pt, 'dev) kernel \<Rightarrow> ('pt, 'dev) kernel" where
  "scheduler_init s = say ''[*] Booting the Round-Robin Process Scheduler...\<newline>'' s"

text \<open>\<open>lock_core0_as_supervisor\<close> before its loop.\<close>

definition enter_supervisor :: "u64 \<Rightarrow> ('pt, 'dev) machine \<Rightarrow> ('pt, 'dev) machine res" where
  "enter_supervisor god_entry m =
     (let m = on_kern (say ''\<newline>[*] CORE 0: Boot sequence complete. Locking into Supervisor Mode...\<newline>'') m in
      bindE (spawn_thread 0 god_stack god_entry (SCHEDULER (kern m))) (\<lambda>(tid, q).
      Inr (m\<lparr>kern := (kern m)\<lparr>SCHEDULER := q\<rparr>, cpu := sti (cpu m)\<rparr>)))"

section \<open>Model: the entry point of the kernel\<close>

text \<open>Steps 1 to 6 of \<open>_start\<close> up to the loader.\<close>

definition boot_engine :: "('pt, 'dev) hw_platform \<Rightarrow> limine \<Rightarrow> image \<Rightarrow> selectors \<Rightarrow> ('pt, 'dev) machine \<Rightarrow>
    ('pt, 'dev) machine res" where
  "boot_engine P L img sel m =
     (let m = on_kern (say ''\<newline>========================================\<newline>'') m;
          m = on_kern (say ''         STARDUST IS ALIVE!             \<newline>'') m;
          m = on_kern (say ''========================================\<newline>'') m;
          m = m\<lparr>cpu := cli (cpu m)\<rparr>
      in bindE (arch_init_hardware img sel (cpu m)) (\<lambda>c.
         let m = m\<lparr>cpu := c\<rparr> in
         bindE (run_kern (memory_init P) m) (\<lambda>m.
         bindE (run_kern security_init m) (\<lambda>m.
         let m = init_features m in
         bindE (arch_init_apic P m) (\<lambda>m.
         bindE (run_kern (smp_init L) m) (\<lambda>m.
         Inr (on_kern scheduler_init m)))))))"

text \<open>\<open>None\<close>: the boot loader is not supported and core 0 halts.\<close>

definition start :: "('pt, 'dev) hw_platform \<Rightarrow> limine \<Rightarrow> image \<Rightarrow> selectors \<Rightarrow> ('pt, 'dev) machine \<Rightarrow>
    (u64 \<times> ('pt, 'dev) machine) option res" where
  "start P L img sel m =
     (if \<not> base_revision_supported L then Inr None
      else
        bindE (boot_engine P L img sel m) (\<lambda>m.
        bindE (loader_init P (module_response L) (kern m)) (\<lambda>(god_entry, s).
        let m = m\<lparr>kern := s\<rparr>;
            m = on_kern (say ''[*] Engine Completion Block Finished.\<newline>'') m;
            m = on_kern (say ''[+] Activating Hardware Heartbeat...\<newline>'') m
        in bindE (enter_supervisor god_entry m) (\<lambda>m. Inr (Some (god_entry, m))))))"

section \<open>The loader\<close>

text \<open>What the loader may change, and what it keeps.\<close>

definition loader_kept :: "('pt, 'p) platform_scheme \<Rightarrow> mem_entry list \<Rightarrow> ('pt, 'm) mem_state_scheme \<Rightarrow>
    ('pt, 'm) mem_state_scheme \<Rightarrow> bool" where
  "loader_kept P entries s s' \<longleftrightarrow>
     mem_inv entries s' \<and> exclusive_frames P entries s' \<and>
     s' = s\<lparr>ALLOCATOR := ALLOCATOR s', MAPPER := MAPPER s', serial := serial s', phys_mem := phys_mem s'\<rparr>"

abbreviation boot_ok :: "('pt, 'p) platform_scheme \<Rightarrow> mem_entry list \<Rightarrow> ('pt, 'm) mem_state_scheme \<Rightarrow> bool" where
  "boot_ok P entries s \<equiv> mem_inv entries s \<and> exclusive_frames P entries s"

lemma loader_kept_trans:
  assumes "loader_kept P entries s t" "loader_kept P entries t u"
  shows "loader_kept P entries s u"
proof -
  have t: "t = s\<lparr>ALLOCATOR := ALLOCATOR t, MAPPER := MAPPER t, serial := serial t, phys_mem := phys_mem t\<rparr>"
    and u: "u = t\<lparr>ALLOCATOR := ALLOCATOR u, MAPPER := MAPPER u, serial := serial u, phys_mem := phys_mem u\<rparr>"
    using assms by (simp_all add: loader_kept_def)
  have "u = s\<lparr>ALLOCATOR := ALLOCATOR u, MAPPER := MAPPER u, serial := serial u, phys_mem := phys_mem u\<rparr>"
    by (subst u, subst t) simp
  with assms(2) show ?thesis by (simp add: loader_kept_def)
qed

lemma boot_ok_cong:
  "ALLOCATOR s' = ALLOCATOR s \<Longrightarrow> MAPPER s' = MAPPER s \<Longrightarrow> boot_ok P entries s \<Longrightarrow> boot_ok P entries s'"
  by (simp add: mem_inv_def exclusive_frames_def user_page_def address_space_def)

lemma loader_kept_say: "boot_ok P entries s \<Longrightarrow> loader_kept P entries s (say msg s)"
  using boot_ok_cong [where s = s and s' = "say msg s" and P = P and entries = entries]
  by (simp add: loader_kept_def say_def)

lemma loader_kept_serial: "boot_ok P entries s \<Longrightarrow> loader_kept P entries s (s\<lparr>serial := x\<rparr>)"
  using boot_ok_cong [where s = s and s' = "s\<lparr>serial := x\<rparr>"] by (simp add: loader_kept_def)

lemma loader_kept_ok: "loader_kept P entries s s' \<Longrightarrow> boot_ok P entries s'"
  by (simp add: loader_kept_def)

lemma write_bytes_kept:
  "write_bytes P va bs s = Inr s' \<Longrightarrow> s' = s\<lparr>phys_mem := phys_mem s'\<rparr>"
proof (induction bs arbitrary: va s)
  case (Cons b bs)
  then obtain pa where "write_bytes P (va + 1) bs (s\<lparr>phys_mem := (phys_mem s)(pa := b)\<rparr>) = Inr s'"
    by (auto simp: write_byte_def res_simps split: option.splits)
  from Cons.IH [OF this] show ?case by simp
qed simp

lemma loader_kept_write:
  assumes "boot_ok P entries s" "write_bytes P va bs s = Inr s'"
  shows "loader_kept P entries s s'"
proof -
  have s': "s' = s\<lparr>phys_mem := phys_mem s'\<rparr>" by (rule write_bytes_kept [OF assms(2)])
  have "ALLOCATOR s' = ALLOCATOR s" "MAPPER s' = MAPPER s" "serial s' = serial s" by (subst s', simp)+
  with boot_ok_cong [OF this(1,2) assms(1)] s' show ?thesis by (simp add: loader_kept_def)
qed

lemma loader_kept_map:
  assumes "paging_laws P entries" "boot_ok P entries s"
    and "allocate_expect P msg s = Inr (f, s1)" "map_page P f virt flags s1 = Inr s'"
  shows "loader_kept P entries s s'"
proof -
  have s': "mem_inv entries s'" "exclusive_frames P entries s'" "s' = s\<lparr>ALLOCATOR := ALLOCATOR s', MAPPER := MAPPER s'\<rparr>"
    using allocate_map_exclusive [OF assms(1) _ _ assms(3,4)] assms(2) by blast+
  have "serial s' = serial s" "phys_mem s' = phys_mem s" by (subst s'(3), simp)+
  with s' show ?thesis by (simp add: loader_kept_def)
qed

lemma map_zeroed_page_kept:
  assumes "paging_laws P entries" "boot_ok P entries s" "map_zeroed_page P va s = Inr s'"
  shows "loader_kept P entries s s'"
proof -
  obtain f s1 s2 where run: "allocate_expect P ''FATAL: OOM loading ELF!'' s = Inr (f, s1)"
    "map_page P f va user_flags s1 = Inr s2" "fill_bytes P va 0 4096 s2 = Inr s'"
    using assms(3) by (auto simp: map_zeroed_page_def res_simps)
  note k = loader_kept_map [OF assms(1,2) run(1,2)]
  have "loader_kept P entries s2 s'"
    using loader_kept_write [OF loader_kept_ok [OF k]] run(3) by (auto simp: fill_bytes_def split: if_splits)
  with k show ?thesis by (rule loader_kept_trans)
qed

lemma map_segment_loop_kept:
  "paging_laws P entries \<Longrightarrow> boot_ok P entries s \<Longrightarrow> map_segment_loop P r a e s = Inr s' \<Longrightarrow>
   loader_kept P entries s s'"
proof (induction P r a e s rule: map_segment_loop.induct)
  case (1 P r a e s)
  show ?case
  proof (cases "a < e")
    case True
    then obtain s1 where s1: "map_zeroed_page P (a - r) s = Inr s1"
      "add_chk a 4096 = Inr (a + 4096)" "map_segment_loop P r (a + 4096) e s1 = Inr s'"
      using 1(4) by (auto simp: map_segment_loop.simps [of P r a e s] res_simps)
    note k = map_zeroed_page_kept [OF 1(2,3) s1(1)]
    show ?thesis
      by (rule loader_kept_trans [OF k 1(1) [OF True refl s1(1,2) 1(2) loader_kept_ok [OF k] s1(3)]])
  next
    case False
    then show ?thesis using 1 by (simp add: map_segment_loop.simps [of P r a e s] loader_kept_def)
  qed
qed

lemma load_segment_kept:
  assumes "paging_laws P entries" "boot_ok P entries s" "load_segment P base_addr r ph s = Inr s'"
  shows "loader_kept P entries s s'"
proof -
  obtain e s1 where run: "map_segment_loop P r (page_floor (p_vaddr ph)) e s = Inr s1"
    "s' = s1 \<or> (\<exists>src dst. copy_nonoverlapping P src dst (p_filesz ph) s1 = Inr s')"
    using assms(3) by (auto simp: load_segment_def res_simps Let_def split: if_splits)
  note k = map_segment_loop_kept [OF assms(1,2) run(1)]
  show ?thesis
    using run(2)
  proof
    assume "\<exists>src dst. copy_nonoverlapping P src dst (p_filesz ph) s1 = Inr s'"
    then obtain dst bs where "write_bytes P dst bs s1 = Inr s'"
      by (auto simp: copy_nonoverlapping_def res_simps split: if_splits)
    from loader_kept_trans [OF k loader_kept_write [OF loader_kept_ok [OF k] this]] show ?thesis .
  qed (use k in simp)
qed

lemma phdr_loop_kept:
  "paging_laws P entries \<Longrightarrow> boot_ok P entries s \<Longrightarrow> phdr_loop P b r pb es is s = Inr s' \<Longrightarrow>
   loader_kept P entries s s'"
proof (induction "is" arbitrary: s)
  case (Cons i "is")
  obtain ph s1 where s1: "(if p_type ph = 1 then load_segment P b r ph s else Inr s) = Inr s1"
    "phdr_loop P b r pb es is s1 = Inr s'"
    using Cons.prems(3) by (auto simp: res_simps)
  have k: "loader_kept P entries s s1"
    using s1(1) load_segment_kept [OF Cons.prems(1,2)] Cons.prems(2)
    by (auto simp: loader_kept_def split: if_splits)
  show ?case by (rule loader_kept_trans [OF k Cons.IH [OF Cons.prems(1) loader_kept_ok [OF k] s1(2)]])
qed (simp add: loader_kept_def)

lemma load_and_get_entry_kept:
  assumes "paging_laws P entries" "boot_ok P entries s" "load_and_get_entry P b s = Inr (e, s')"
  shows "loader_kept P entries s s'"
proof -
  obtain s1 r pb es "is" s2 where run: "loader_kept P entries s s1" "phdr_loop P b r pb es is s1 = Inr s2"
    "s' = say ''[+] All ELF Segments mapped securely into Ring 3!\<newline>'' s2"
  proof -
    let ?s1 = "say ''[*] Dissecting ELF64 Binary Header...\<newline>'' s"
    let ?s2 = "say ''[*] Mapping ELF Segments into User Space...\<newline>'' ?s1"
    let ?s3 = "say ''[!] Linker collision detected! Force-relocating to User Space...\<newline>'' ?s2"
    note k1 = loader_kept_say [OF assms(2), of "''[*] Dissecting ELF64 Binary Header...\<newline>''"]
    note k2 = loader_kept_trans [OF k1 loader_kept_say [OF loader_kept_ok [OF k1]]]
    note k3 = loader_kept_trans [OF k2 loader_kept_say [OF loader_kept_ok [OF k2]]]
    show ?thesis
      using assms(3) that [OF k2] that [OF k3]
      by (auto simp: load_and_get_entry_def res_simps Let_def split: if_splits)
  qed
  note k = loader_kept_trans [OF run(1) phdr_loop_kept [OF assms(1) loader_kept_ok [OF run(1)] run(2)]]
  show ?thesis unfolding run(3) by (rule loader_kept_trans [OF k loader_kept_say [OF loader_kept_ok [OF k]]])
qed

lemma stack_loop_kept:
  "paging_laws P entries \<Longrightarrow> boot_ok P entries s \<Longrightarrow> stack_loop P is s = Inr s' \<Longrightarrow> loader_kept P entries s s'"
proof (induction "is" arbitrary: s)
  case (Cons i "is")
  obtain f s1 va s2 where s2: "allocate_expect P ''FATAL: Out of memory for User Stack!'' s = Inr (f, s1)"
    "map_page P f va user_flags s1 = Inr s2" "stack_loop P is s2 = Inr s'"
    using Cons.prems(3) by (auto simp: res_simps)
  note k = loader_kept_map [OF Cons.prems(1,2) s2(1,2)]
  show ?case by (rule loader_kept_trans [OF k Cons.IH [OF Cons.prems(1) loader_kept_ok [OF k] s2(3)]])
qed (simp add: loader_kept_def)

lemma loader_init_kept:
  assumes "paging_laws P entries" "boot_ok P entries s" "loader_init P modules s = Inr (e, s')"
  shows "loader_kept P entries s s'"
proof -
  obtain b len rest where mods: "modules = Some ((b, len) # rest)"
  proof (cases modules)
    case (Some ms)
    then show ?thesis using assms(3) that by (cases ms) (auto simp: loader_init_def Let_def)
  qed (use assms(3) in \<open>simp add: loader_init_def\<close>)
  let ?m1 = "''[*] Constructing 128KB Ring 3 User Stack...\<newline>''"
    and ?m2 = "''[+] Execution Environment completely constructed.\<newline>''"
  obtain log s2 s3 where run: "load_and_get_entry P b (s\<lparr>serial := log\<rparr>) = Inr (e, s2)"
    "stack_loop P (map of_nat [1..<33]) (say ?m1 s2) = Inr s3" "s' = say ?m2 s3"
    using assms(3) by (auto simp: loader_init_def mods res_simps Let_def say_def)
  note k1 = loader_kept_serial [OF assms(2), of log]
  note k2 = loader_kept_trans [OF k1 load_and_get_entry_kept [OF assms(1) loader_kept_ok [OF k1] run(1)]]
  note k3 = loader_kept_trans [OF k2 loader_kept_say [OF loader_kept_ok [OF k2], of ?m1]]
  note k4 = loader_kept_trans [OF k3 stack_loop_kept [OF assms(1) loader_kept_ok [OF k3] run(2)]]
  show ?thesis unfolding run(3) by (rule loader_kept_trans [OF k4 loader_kept_say [OF loader_kept_ok [OF k4]]])
qed

section \<open>The boot engine\<close>

text \<open>
  What the boot loader and the hardware provide.  The direct map lies in the upper half, page
  aligned, with room for the two APIC windows; the totals of the memory map fit in 64 bits; the
  page tables of the boot loader have no user pages.
\<close>

definition boots :: "('pt, 'dev) hw_platform \<Rightarrow> limine \<Rightarrow> selectors \<Rightarrow> core \<Rightarrow> mem_entry list \<Rightarrow> u64 \<Rightarrow> bool" where
  "boots P L sel c entries h \<longleftrightarrow>
     paging_laws P entries \<and> wf_memmap entries \<and> disjoint_memmap entries \<and>
     (\<Sum>e\<leftarrow>filter usable entries. unat (region_length e)) < 2 ^ 64 \<and> length entries < 2 ^ 64 \<and>
     hhdm_response P = Some h \<and> unat h mod 4096 = 0 \<and> 2 ^ 64 - 2 ^ 47 \<le> unat h \<and>
     virt_addr P h = Some h \<and> virt_addr_add P h (cr3_start_address P) \<noteq> None \<and>
     unat (page_floor (MSR c IA32_APIC_BASE)) < 2 ^ 52 \<and>
     unat (page_floor (MSR c IA32_APIC_BASE)) + unat h + 4096 \<le> 2 ^ 64 \<and> 0xFEC00000 + unat h + 4096 \<le> 2 ^ 64 \<and>
     8 \<le> user_data sel \<and> (\<exists>cpus bsp_id. mp_response L = Some (cpus, bsp_id) \<and> cpus \<noteq> []) \<and>
     (\<forall>l4 page frame flags. page_view P (offset_page_table P l4 h) page = Some (frame, flags) \<longrightarrow> USER_ACCESSIBLE \<notin> flags)"

text \<open>The address space that the boot loader left.\<close>

definition boot_space :: "('pt, 'p) platform_scheme \<Rightarrow> u64 \<Rightarrow> u64 \<rightharpoonup> u64 \<times> page_flags" where
  "boot_space P h = page_view P (offset_page_table P (the (virt_addr_add P h (cr3_start_address P))) h)"

lemma memory_init_ok:
  assumes B: "boots P L sel c entries h" and s: "ALLOCATOR s = frame_allocator_new"
  obtains s' where "memory_init P s = Inr s'" "boot_ok P entries s'" "HHDM_OFFSET s' = h"
    "s' = s\<lparr>ALLOCATOR := ALLOCATOR s', MAPPER := MAPPER s', HHDM_OFFSET := h, serial := serial s'\<rparr>"
    "free_frames entries s' = drop 3 (all_frames entries)" "address_space P s' = boot_space P h"
proof -
  have P: "memmap_response P = Some entries" "wf_memmap entries" "hhdm_response P = Some h" "virt_addr P h = Some h"
    using B by (simp_all add: boots_def paging_laws_def)
  obtain virt where virt: "virt_addr_add P h (cr3_start_address P) = Some virt" using B by (auto simp: boots_def)
  obtain u t where "physical_scan entries 0 0 = Inr (u, t)"
    using physical_scan_sum [of 0 entries 0] B by (auto simp: boots_def)
  then obtain log1 where log1: "physical_init (Some entries) (serial s) = Inr log1"
    by (simp add: physical_init_def Let_def)
  obtain fa log2 where fa: "frame_init (Some entries) frame_allocator_new log1 = Inr (fa, log2)" "fa_inv entries fa"
    "frames_left entries fa = drop 3 (all_frames entries)"
    using frame_init_left [OF fa_inv_new [OF P(2)], of log1] by (auto simp: frames_left_new)
  let ?pt = "offset_page_table P virt h"
  obtain x where x: "bindE (paging_init P (s\<lparr>ALLOCATOR := fa, serial := log2\<rparr>)) (mapper_init P) =
      Inr (s\<lparr>ALLOCATOR := fa, HHDM_OFFSET := h, MAPPER := Some ?pt, serial := x\<rparr>)"
    by (rule that) (simp add: paging_init_def mapper_init_def P virt Let_def say_def)
  let ?s = "s\<lparr>ALLOCATOR := fa, HHDM_OFFSET := h, MAPPER := Some ?pt, serial := x\<rparr>"
  have "\<not> user_page P ?s page frame" for page frame
    using B by (auto simp: boots_def user_page_def address_space_def split: option.splits)
  then have "exclusive_frames P entries ?s"
    using distinct_all_frames [OF P(2)] B by (simp add: exclusive_frames_def fa(3) boots_def distinct_drop)
  then show ?thesis
    using fa x log1 that [of ?s] by (simp add: memory_init_def P s mem_inv_def bindE_assoc boot_space_def virt address_space_def)
qed

lemma security_init_ok:
  assumes "CDT s = cdt_new"
  obtains x where "security_init s = Inr (s\<lparr>CDT := genesis_cdt, serial := x\<rparr>)"
  using cdt_init_ok [OF wf_cdt_new, of "serial s"] that by (auto simp: security_init_def assms genesis_cdt_def)

lemma smp_init_ok:
  assumes "mp_response L = Some (cpus, bsp_id)" "cpus \<noteq> []"
  obtains x where "smp_init L s = Inr (s\<lparr>serial := x\<rparr>)"
  using that assms by (simp add: smp_init_def Let_def say_def)

text \<open>A kernel mapping in the direct map: it adds at most one page of the upper half.\<close>

definition upper_extended :: "('pt, 'p) platform_scheme \<Rightarrow> ('pt, 'm) mem_state_scheme \<Rightarrow> ('pt, 'm) mem_state_scheme \<Rightarrow> bool" where
  "upper_extended P s s' \<longleftrightarrow>
     address_space P s \<subseteq>\<^sub>m address_space P s' \<and>
     (\<forall>pg. unat pg < 2 ^ 47 \<longrightarrow> address_space P s' pg = address_space P s pg)"

lemma upper_extended_refl: "address_space P s' = address_space P s \<Longrightarrow> upper_extended P s s'"
  by (simp add: upper_extended_def)

lemma upper_extended_trans: "upper_extended P s t \<Longrightarrow> upper_extended P t u \<Longrightarrow> upper_extended P s u"
  using map_le_trans by (auto simp: upper_extended_def)

lemma unat_page_floor_upper: "2 ^ 47 \<le> unat x \<Longrightarrow> 2 ^ 47 \<le> unat (page_floor x)"
  using div_le_mono [of "2 ^ 47" "unat x" 4096] by (simp add: unat_page_floor)

lemma map_page_kernel:
  assumes laws: "paging_laws P entries" and ok: "boot_ok P entries s"
    and phys: "unat phys < 2 ^ 52" and virt: "2 ^ 64 - 2 ^ 47 \<le> unat virt" and fl: "USER_ACCESSIBLE \<notin> flags"
  obtains s' k where "map_page P phys virt flags s = Inr s'" "boot_ok P entries s'" "upper_extended P s s'"
    "s' = s\<lparr>ALLOCATOR := ALLOCATOR s', MAPPER := MAPPER s'\<rparr>"
    "k \<le> 3" "free_frames entries s' = drop k (free_frames entries s)"
proof -
  have frame: "phys_frame P phys = Some (page_floor phys)"
    using laws phys by (simp add: paging_laws_def address_laws_def)
  obtain s' k where s': "map_page P phys virt flags s = Inr s'" "mem_inv entries s'"
    "s' = s\<lparr>ALLOCATOR := ALLOCATOR s', MAPPER := MAPPER s'\<rparr>"
    "k \<le> 3" "free_frames entries s' = drop k (free_frames entries s)"
    "address_space P s' = address_space P s \<or> address_space P s (page_floor virt) = None \<and>
     address_space P s' = (address_space P s)(page_floor virt \<mapsto> (page_floor phys, flags))"
    by (rule map_page_canonical [OF laws _ frame, of s virt flags]) (use ok virt in \<open>simp_all add: canonical_def\<close>)
  have "exclusive_frames P entries s'"
    by (rule exclusive_frames_kernel [OF _ _ s'(5) fl, where page = "page_floor virt" and f = "page_floor phys"])
      (use ok s'(6) in auto)
  moreover have "upper_extended P s s'"
    using s'(6) unat_page_floor_upper [of virt] virt by (auto simp: upper_extended_def map_le_def)
  ultimately show ?thesis using s' that by blast
qed

lemma unat_direct_map:
  "unat phys + unat h + 4096 \<le> 2 ^ 64 \<Longrightarrow> unat (phys + h :: u64) = unat phys + unat h"
  by (intro unat_add_no_overflow) simp

lemma upper_direct_map:
  assumes "2 ^ 64 - 2 ^ 47 \<le> unat h" "unat phys + unat h + 4096 \<le> 2 ^ 64"
  shows "2 ^ 64 - 2 ^ 47 \<le> unat (phys + h :: u64)"
  using assms(1) unat_direct_map [OF assms(2)] by simp

lemma write_ioapic_ok:
  assumes "unat a mod 4 = 0" "a \<noteq> 0" "unat a + 4096 \<le> 2 ^ 64"
  shows "write_ioapic a reg v m = Inr (m\<lparr>bus := bus m @ [(a, reg), (a + 16, v)]\<rparr>)"
proof -
  have "unat (a + 16) = unat a + 16" using assms(3) by (intro unat_add_no_overflow [of a 16, simplified]) simp
  moreover from this have "a + 16 \<noteq> 0" by auto
  ultimately show ?thesis using assms by (simp add: write_ioapic_def write_volatile_def mod_add_left_eq [symmetric])
qed

text \<open>What the APIC initialization may change.\<close>

definition apic_kept :: "('pt, 'dev) hw_platform \<Rightarrow> mem_entry list \<Rightarrow> nat \<Rightarrow> ('pt, 'dev) machine \<Rightarrow> ('pt, 'dev) machine \<Rightarrow> bool" where
  "apic_kept P entries n m m' \<longleftrightarrow>
     boot_ok P entries (kern m') \<and> cpu m' = cpu m \<and> upper_extended P (kern m) (kern m') \<and>
     kern m' = (kern m)\<lparr>ALLOCATOR := ALLOCATOR (kern m'), MAPPER := MAPPER (kern m'), serial := serial (kern m'),
       devices := devices (kern m')\<rparr> \<and>
     (\<exists>k \<le> n. free_frames entries (kern m') = drop k (free_frames entries (kern m)))"

lemma apic_kept_trans:
  assumes "apic_kept P entries a m m1" "apic_kept P entries b m1 m2"
  shows "apic_kept P entries (a + b) m m2"
proof -
  obtain i j where k: "i \<le> a" "free_frames entries (kern m1) = drop i (free_frames entries (kern m))"
    "j \<le> b" "free_frames entries (kern m2) = drop j (free_frames entries (kern m1))"
    using assms by (auto simp: apic_kept_def)
  have u: "kern m1 = (kern m)\<lparr>ALLOCATOR := ALLOCATOR (kern m1), MAPPER := MAPPER (kern m1), serial := serial (kern m1),
       devices := devices (kern m1)\<rparr>"
    "kern m2 = (kern m1)\<lparr>ALLOCATOR := ALLOCATOR (kern m2), MAPPER := MAPPER (kern m2), serial := serial (kern m2),
       devices := devices (kern m2)\<rparr>" using assms by (simp_all add: apic_kept_def)
  have "kern m2 = (kern m)\<lparr>ALLOCATOR := ALLOCATOR (kern m2), MAPPER := MAPPER (kern m2), serial := serial (kern m2),
       devices := devices (kern m2)\<rparr>" by (subst u(2), subst u(1)) simp
  moreover have "free_frames entries (kern m2) = drop (i + j) (free_frames entries (kern m))" "i + j \<le> a + b"
    using k by (simp_all add: add.commute)
  ultimately show ?thesis using assms upper_extended_trans unfolding apic_kept_def by auto
qed

lemma apic_kept_other:
  assumes "boot_ok P entries (kern m)" "cpu m' = cpu m"
    "kern m' = (kern m)\<lparr>serial := serial (kern m'), devices := devices (kern m')\<rparr>"
  shows "apic_kept P entries 0 m m'"
proof -
  have "ALLOCATOR (kern m') = ALLOCATOR (kern m)" "MAPPER (kern m') = MAPPER (kern m)" by (subst assms(3), simp)+
  with assms show ?thesis
    using boot_ok_cong [of "kern m'" "kern m"] upper_extended_refl [of P "kern m'" "kern m"]
    unfolding apic_kept_def by (auto simp: address_space_def)
qed

lemma map_page_m_kept:
  assumes "paging_laws P entries" "boot_ok P entries (kern m)" "unat phys < 2 ^ 52"
    "2 ^ 64 - 2 ^ 47 \<le> unat virt" "USER_ACCESSIBLE \<notin> flags"
  obtains m' where "map_page_m P phys virt flags m = Inr m'" "apic_kept P entries 3 m m'" "bus m' = bus m"
proof -
  obtain s' k where s': "map_page P phys virt flags (kern m) = Inr s'" "boot_ok P entries s'" "upper_extended P (kern m) s'"
    "s' = (kern m)\<lparr>ALLOCATOR := ALLOCATOR s', MAPPER := MAPPER s'\<rparr>"
    "k \<le> 3" "free_frames entries s' = drop k (free_frames entries (kern m))"
    by (rule map_page_kernel [OF assms])
  have same: "serial s' = serial (kern m)" "devices s' = devices (kern m)" by (subst s'(4), simp)+
  show ?thesis
  proof (rule that [of "m\<lparr>kern := s'\<rparr>"])
    show "apic_kept P entries 3 m (m\<lparr>kern := s'\<rparr>)" using s' same unfolding apic_kept_def by auto
  qed (use s'(1) in \<open>simp_all add: map_page_m_def\<close>)
qed

lemma apic_init_ok:
  assumes laws: "paging_laws P entries" and ok: "boot_ok P entries (kern m)"
    and h: "unat (HHDM_OFFSET (kern m)) mod 4096 = 0" "2 ^ 64 - 2 ^ 47 \<le> unat (HHDM_OFFSET (kern m))"
      "0xFEC00000 + unat (HHDM_OFFSET (kern m)) + 4096 \<le> 2 ^ 64"
    and lapic: "unat (page_floor (MSR (cpu m) IA32_APIC_BASE)) < 2 ^ 52"
      "unat (page_floor (MSR (cpu m) IA32_APIC_BASE)) + unat (HHDM_OFFSET (kern m)) + 4096 \<le> 2 ^ 64"
  obtains m' where "apic_init P m = Inr m'" "apic_kept P entries 6 m m'"
proof -
  let ?h = "HHDM_OFFSET (kern m)" and ?b = "page_floor (MSR (cpu m) IA32_APIC_BASE)"
  let ?fl = "{PRESENT, WRITABLE, NO_CACHE}" and ?io = "0xFEC00000 + HHDM_OFFSET (kern m)"
  define m1 where "m1 = on_kern (say ''[*] Booting modern Local APIC timer...\<newline>'') (on_kern (out_byte P 0xA1 0xFF)
    (on_kern (out_byte P 0x21 0xFF) (on_kern (say ''[*] Terminating legacy IBM PIC chips...\<newline>'') m)))"
  have k1: "apic_kept P entries 0 m m1"
    by (rule apic_kept_other [OF ok]) (simp_all add: m1_def say_def out_byte_def)
  have same: "HHDM_OFFSET (kern n) = ?h \<and> cpu n = cpu m" if "apic_kept P entries a m n" for a n
  proof -
    have "kern n = (kern m)\<lparr>ALLOCATOR := ALLOCATOR (kern n), MAPPER := MAPPER (kern n), serial := serial (kern n),
       devices := devices (kern n)\<rparr>" "cpu n = cpu m" using that by (simp_all add: apic_kept_def)
    from arg_cong [OF this(1), of HHDM_OFFSET] this(2) show ?thesis by simp
  qed
  have okn: "boot_ok P entries (kern n)" if "apic_kept P entries a m n" for a n using that by (simp add: apic_kept_def)
  obtain m2 where m2: "map_page_m P ?b (?b + ?h) ?fl m1 = Inr m2" "apic_kept P entries 3 m1 m2"
    by (rule map_page_m_kept [OF laws okn [OF k1] lapic(1) upper_direct_map [OF h(2) lapic(2)], where flags = ?fl]) simp
  have k2: "apic_kept P entries 3 m m2" using apic_kept_trans [OF k1 m2(2)] by simp
  have "apic_ok m2" using same [OF k2] lapic(2) h by (auto simp: apic_ok_def)
  then obtain m3 where m3: "setup_apic_registers m2 = Inr m3" "kern m3 = kern m2" "cpu m3 = cpu m2"
    using setup_apic_registers_ok by force
  have k3: "apic_kept P entries 3 m m3" using k2 m3(2,3) by (simp add: apic_kept_def)
  have io: "unat (0xFEC00000 :: u64) + unat ?h + 4096 \<le> 2 ^ 64" using h(3) by simp
  have ioapic: "unat (0xFEC00000 :: u64) < 2 ^ 52" by simp
  obtain m4 where m4: "map_page_m P 0xFEC00000 ?io ?fl m3 = Inr m4" "apic_kept P entries 3 m3 m4"
    by (rule map_page_m_kept [OF laws okn [OF k3] ioapic upper_direct_map [OF h(2) io], where flags = ?fl]) simp_all
  have k4: "apic_kept P entries 6 m m4" using apic_kept_trans [OF k3 m4(2)] by simp
  have "unat ?io = 0xFEC00000 + unat ?h" using unat_direct_map [OF io] by simp
  moreover have "unat ?h mod 4 = 0" using mod_mod_cancel [of 4 4096 "unat ?h"] h(1) by simp
  ultimately have "unat ?io mod 4 = 0" "?io \<noteq> 0" "unat ?io + 4096 \<le> 2 ^ 64"
    using h(3) by (simp_all add: mod_add_right_eq [symmetric] unat_eq_zero_iff [symmetric])
  note w = write_ioapic_ok [OF this]
  define n where "n = on_kern (say ''[+] I/O APIC Hardware Router configured.\<newline>'')
    (m4\<lparr>bus := bus m4 @ [(?io, 18), (?io + 16, 33), (?io, 19), (?io + 16, 0)]\<rparr>)"
  let ?n = "on_kern (say ''[+] Local APIC Heartbeat ignited.\<newline>'') n"
  have "add_chk 0xFEC00000 ?h = Inr ?io" using h(3) by (simp add: add_chk_def)
  then have "init_ioapic P m3 = Inr n" using same [OF k3] m4(1) by (simp add: init_ioapic_def w n_def)
  moreover have "add_chk ?b ?h = Inr (?b + ?h)" using lapic(2) by (simp add: add_chk_def)
  ultimately have "apic_init P m = Inr ?n"
    using same [OF k1] m2(1) m3(1) by (simp add: apic_init_def Let_def m1_def [symmetric] phys_base_page_floor) (simp add: out_byte_def)
  moreover have "apic_kept P entries 0 m4 ?n"
    by (rule apic_kept_other [OF okn [OF k4]]) (simp_all add: say_def n_def)
  ultimately show ?thesis using that apic_kept_trans [OF k4] by fastforce
qed

text \<open>The engine as a whole, from the statics of the image.\<close>

lemma init_hardware_ok:
  assumes "8 \<le> user_data sel"
  obtains c' where "init_hardware img sel c = Inr c'" "MSR c' IA32_APIC_BASE = MSR c IA32_APIC_BASE"
    "MSR c' IA32_LSTAR = syscall_entry_addr img" "idtr c' = idt_image img" "rflags c' = rflags c"
  using assms that
  by (simp add: init_hardware_def configure_msrs_def sub_chk_def Let_def write_msr_def idt_init_def gdt_init_def)

text \<open>The second half: interrupts, the other cores and the scheduler, from the state that memory and security leave.\<close>

lemma boot_devices_ok:
  fixes m2 :: "('pt, 'dev) machine"
  assumes B: "boots P L sel c entries h" and ok: "boot_ok P entries (kern m2)" and space: "address_space P (kern m2) = boot_space P h"
    and f2: "HHDM_OFFSET (kern m2) = h" "CDT (kern m2) = genesis_cdt" "SCHEDULER (kern m2) = scheduler_new"
      "IRQ_MAILBOXES (kern m2) = replicate 256 0" "MSR (cpu m2) IA32_APIC_BASE = MSR c IA32_APIC_BASE"
  obtains m3 y m4 k where "apic_init P m2 = Inr m3" "smp_init L (kern m3) = Inr ((kern m3)\<lparr>serial := y\<rparr>)"
    "m4 = on_kern scheduler_init (m3\<lparr>kern := (kern m3)\<lparr>serial := y\<rparr>\<rparr>)" "kernel_inv entries (kern m4)"
    "exclusive_frames P entries (kern m4)" "HHDM_OFFSET (kern m4) = h" "SCHEDULER (kern m4) = scheduler_new"
    "k \<le> 6" "free_frames entries (kern m4) = drop k (free_frames entries (kern m2))" "cpu m4 = cpu m2"
    "phys_mem (kern m4) = phys_mem (kern m2)" "boot_space P h \<subseteq>\<^sub>m address_space P (kern m4)"
    "\<forall>pg. unat pg < 2 ^ 47 \<longrightarrow> address_space P (kern m4) pg = boot_space P h pg"
proof -
  have laws: "paging_laws P entries" using B by (simp add: boots_def)
  obtain m3 where m3: "apic_init P m2 = Inr m3" "apic_kept P entries 6 m2 m3"
    by (rule apic_init_ok [OF laws ok]) (use B f2(1,5) in \<open>simp_all add: boots_def\<close>)
  have k3: "kern m3 = (kern m2)\<lparr>ALLOCATOR := ALLOCATOR (kern m3), MAPPER := MAPPER (kern m3),
      serial := serial (kern m3), devices := devices (kern m3)\<rparr>" "cpu m3 = cpu m2" "boot_ok P entries (kern m3)"
    "upper_extended P (kern m2) (kern m3)"
    using m3(2) by (simp_all add: apic_kept_def)
  obtain k where k: "k \<le> 6" "free_frames entries (kern m3) = drop k (free_frames entries (kern m2))"
    using m3(2) by (auto simp: apic_kept_def)
  have f3: "CDT (kern m3) = genesis_cdt" "SCHEDULER (kern m3) = scheduler_new" "HHDM_OFFSET (kern m3) = h"
    "IRQ_MAILBOXES (kern m3) = replicate 256 0" "phys_mem (kern m3) = phys_mem (kern m2)" by (subst k3(1), use f2 in simp)+
  obtain cpus bsp_id where mp: "mp_response L = Some (cpus, bsp_id)" "cpus \<noteq> []" using B by (auto simp: boots_def)
  obtain y where y: "smp_init L (kern m3) = Inr ((kern m3)\<lparr>serial := y\<rparr>)" by (rule smp_init_ok [OF mp])
  define m4 where "m4 = on_kern scheduler_init (m3\<lparr>kern := (kern m3)\<lparr>serial := y\<rparr>\<rparr>)"
  have f4: "ALLOCATOR (kern m4) = ALLOCATOR (kern m3)" "MAPPER (kern m4) = MAPPER (kern m3)" "CDT (kern m4) = genesis_cdt"
    "SCHEDULER (kern m4) = scheduler_new" "HHDM_OFFSET (kern m4) = h" "IRQ_MAILBOXES (kern m4) = replicate 256 0" "cpu m4 = cpu m2"
    "phys_mem (kern m4) = phys_mem (kern m2)"
    using f3 k3(2) by (simp_all add: m4_def scheduler_init_def say_def)
  have ok4: "boot_ok P entries (kern m4)" by (rule boot_ok_cong [OF f4(1,2) k3(3)])
  have as4: "address_space P (kern m4) = address_space P (kern m3)" using f4(2) by (simp add: address_space_def)
  show ?thesis
  proof (rule that [OF m3(1) y m4_def])
    show "kernel_inv entries (kern m4)" using ok4 f4 by (simp add: kernel_inv_def sched_inv_new)
    show "boot_space P h \<subseteq>\<^sub>m address_space P (kern m4)"
      "\<forall>pg. unat pg < 2 ^ 47 \<longrightarrow> address_space P (kern m4) pg = boot_space P h pg"
      using k3(4) space as4 by (simp_all add: upper_extended_def)
    show "k \<le> 6" by (rule k(1))
    show "free_frames entries (kern m4) = drop k (free_frames entries (kern m2))" using k(2) f4(1) by simp
  qed (use ok4 f4 in simp_all)
qed

lemma boot_engine_ok:
  fixes P :: "('pt, 'dev) hw_platform"
  assumes B: "boots P L sel c entries h"
  obtains m where "boot_engine P L img sel (power_on dev ram c) = Inr m"
    "kernel_inv entries (kern m)" "exclusive_frames P entries (kern m)" "HHDM_OFFSET (kern m) = h"
    "SCHEDULER (kern m) = scheduler_new" "\<exists>k \<le> 9. free_frames entries (kern m) = drop k (all_frames entries)"
    "MSR (cpu m) IA32_LSTAR = syscall_entry_addr img" "idtr (cpu m) = idt_image img"
    "phys_mem (kern m) = ram" "boot_space P h \<subseteq>\<^sub>m address_space P (kern m)"
    "\<forall>pg. unat pg < 2 ^ 47 \<longrightarrow> address_space P (kern m) pg = boot_space P h pg"
proof -
  define m0 :: "('pt, 'dev) machine" where "m0 = on_kern (say ''========================================\<newline>'') (on_kern (say ''         STARDUST IS ALIVE!             \<newline>'')
    (on_kern (say ''\<newline>========================================\<newline>'') (power_on dev ram c)))"
  have laws: "paging_laws P entries" and sel: "8 \<le> user_data sel" using B by (simp_all add: boots_def)
  obtain c1 where c1: "init_hardware img sel (cli c) = Inr c1" "MSR c1 IA32_APIC_BASE = MSR c IA32_APIC_BASE"
    "MSR c1 IA32_LSTAR = syscall_entry_addr img" "idtr c1 = idt_image img"
    by (rule init_hardware_ok [OF sel, of img "cli c"]) (simp add: cli_def)
  have stat: "ALLOCATOR (kern m0) = frame_allocator_new" "CDT (kern m0) = cdt_new"
    "SCHEDULER (kern m0) = scheduler_new" "IRQ_MAILBOXES (kern m0) = replicate 256 0" "phys_mem (kern m0) = ram"
    by (simp_all add: m0_def power_on_def statics_def say_def)
  obtain s1 where s1: "memory_init P (kern m0) = Inr s1" "boot_ok P entries s1" "HHDM_OFFSET s1 = h"
    "s1 = (kern m0)\<lparr>ALLOCATOR := ALLOCATOR s1, MAPPER := MAPPER s1, HHDM_OFFSET := h, serial := serial s1\<rparr>"
    "free_frames entries s1 = drop 3 (all_frames entries)" "address_space P s1 = boot_space P h"
    by (rule memory_init_ok [OF B stat(1)])
  have f1: "CDT s1 = cdt_new" "SCHEDULER s1 = scheduler_new" "IRQ_MAILBOXES s1 = replicate 256 0" "phys_mem s1 = ram"
    by (subst s1(4), use stat in simp)+
  obtain x where s2: "security_init s1 = Inr (s1\<lparr>CDT := genesis_cdt, serial := x\<rparr>)" by (rule security_init_ok [OF f1(1)])
  define m2 where "m2 = init_features (m0\<lparr>cpu := c1, kern := s1\<lparr>CDT := genesis_cdt, serial := x\<rparr>\<rparr>)"
  have f2: "ALLOCATOR (kern m2) = ALLOCATOR s1" "MAPPER (kern m2) = MAPPER s1" "HHDM_OFFSET (kern m2) = h"
    "CDT (kern m2) = genesis_cdt" "SCHEDULER (kern m2) = scheduler_new" "IRQ_MAILBOXES (kern m2) = replicate 256 0"
    "MSR (cpu m2) = MSR c1" "idtr (cpu m2) = idtr c1" "phys_mem (kern m2) = ram"
    using s1(3) f1 by (simp_all add: m2_def init_features_def enable_pcid_def iommu_init_def Let_def say_def)
  have ok2: "boot_ok P entries (kern m2)" by (rule boot_ok_cong [OF f2(1,2) s1(2)])
  have as2: "address_space P (kern m2) = boot_space P h" using f2(2) s1(6) by (simp add: address_space_def)
  obtain m3 y m4 k where m4: "apic_init P m2 = Inr m3" "smp_init L (kern m3) = Inr ((kern m3)\<lparr>serial := y\<rparr>)"
    "m4 = on_kern scheduler_init (m3\<lparr>kern := (kern m3)\<lparr>serial := y\<rparr>\<rparr>)"
    and inv4: "kernel_inv entries (kern m4)" "exclusive_frames P entries (kern m4)" "HHDM_OFFSET (kern m4) = h"
      "SCHEDULER (kern m4) = scheduler_new"
    and k: "k \<le> 6" "free_frames entries (kern m4) = drop k (free_frames entries (kern m2))"
    and f4: "cpu m4 = cpu m2" "phys_mem (kern m4) = phys_mem (kern m2)" "boot_space P h \<subseteq>\<^sub>m address_space P (kern m4)"
      "\<forall>pg. unat pg < 2 ^ 47 \<longrightarrow> address_space P (kern m4) pg = boot_space P h pg"
    by (rule boot_devices_ok [OF B ok2 as2 f2(3-6)]) (simp add: f2(7) c1(2))
  have start: "cpu (power_on dev ram c) = c" "say ''========================================\<newline>''
      (say ''         STARDUST IS ALIVE!             \<newline>'' (say ''\<newline>========================================\<newline>''
        (kern (power_on dev ram c)))) = kern m0"
    by (simp_all add: m0_def) (simp add: power_on_def)
  then have run: "boot_engine P L img sel (power_on dev ram c) = Inr m4"
    using c1(1) s1(1) s2 m4(1,2)
    by (simp add: boot_engine_def Let_def m0_def [symmetric] run_kern_def m2_def m4(3) start)
  have "free_frames entries (kern m4) = drop (3 + k) (all_frames entries)"
    using f2(1) k(2) s1(5) by (simp add: add.commute)
  then have "\<exists>k \<le> 9. free_frames entries (kern m4) = drop k (all_frames entries)"
    using k(1) by (intro exI [of _ "3 + k"]) simp
  with run inv4 f4 f2(7-9) c1(3,4) show ?thesis by (intro that [OF run]) simp_all
qed

section \<open>The user stack\<close>

definition stack_page :: "u64 \<Rightarrow> u64" where
  "stack_page i = 0x00007FFFFFFF0000 - i * 4096"

lemma stack_page:
  assumes "unat i \<le> 32"
  shows "mul_chk i 4096 = Inr (i * 4096)" "sub_chk 0x00007FFFFFFF0000 (i * 4096) = Inr (stack_page i)"
    "unat (stack_page i) = 0x7FFFFFFF0000 - unat i * 4096" "page_floor (stack_page i) = stack_page i"
    "unat (stack_page i) < 2 ^ 47"
proof -
  have m: "unat (i * 4096) = unat i * 4096" using assms unat_mult_no_overflow [of i 4096] by simp
  then have le: "i * 4096 \<le> 0x00007FFFFFFF0000" using assms by (simp add: word_le_nat_alt)
  then have u: "unat (stack_page i) = 0x7FFFFFFF0000 - unat i * 4096" by (simp add: stack_page_def unat_sub m)
  have "unat (stack_page i) = (0x7FFFFFFF0 - unat i) * 4096" using u by (simp add: algebra_simps)
  then show "page_floor (stack_page i) = stack_page i" by (intro page_floor_aligned) simp
  show "mul_chk i 4096 = Inr (i * 4096)" using assms by (simp add: mul_chk_def)
  show "sub_chk 0x00007FFFFFFF0000 (i * 4096) = Inr (stack_page i)" using le by (simp add: sub_chk_def stack_page_def)
  show "unat (stack_page i) = 0x7FFFFFFF0000 - unat i * 4096" "unat (stack_page i) < 2 ^ 47" using u by simp_all
qed

lemma stack_page_inj: "unat i \<le> 32 \<Longrightarrow> unat j \<le> 32 \<Longrightarrow> stack_page i = stack_page j \<Longrightarrow> i = j"
  using stack_page(3) [of i] stack_page(3) [of j] by (simp add: word_unat_eq_iff)

text \<open>Each page of the stack gets a frame of its own.\<close>

text \<open>One page of the stack: a frame of its own, mapped for user mode, and nothing else changes.\<close>

lemma stack_page_mapped:
  assumes laws: "paging_laws P entries" and ok: "boot_ok P entries s" and i: "unat i \<le> 32"
    and room: "4 \<le> length (free_frames entries s)" and unmapped: "address_space P s (stack_page i) = None"
  obtains f s1 k where "f \<in> set (free_frames entries s)" "\<And>is. stack_loop P (i # is) s = stack_loop P is s1" "boot_ok P entries s1"
    "k \<le> 4" "free_frames entries s1 = drop k (free_frames entries s)" "undisturbed P entries s s1"
    "address_space P s1 = (address_space P s)(stack_page i \<mapsto> (f, user_flags))"
proof -
  obtain f fs where left: "free_frames entries s = f # fs" "3 \<le> length fs"
    using room by (cases "free_frames entries s") auto
  let ?msg = "''FATAL: Out of memory for User Stack!''"
  have inv: "mem_inv entries s" and ex: "exclusive_frames P entries s" using ok by simp_all
  obtain fa where fa: "allocate_expect P ?msg s = Inr (f, s\<lparr>ALLOCATOR := fa\<rparr>)" "fa_inv entries fa"
    "frames_left entries fa = fs" by (rule allocate_expect_Cons [OF laws inv left(1)])
  have inv1: "mem_inv entries (s\<lparr>ALLOCATOR := fa\<rparr>)" using inv fa(2) by (simp add: mem_inv_def)
  have as1: "address_space P (s\<lparr>ALLOCATOR := fa\<rparr>) = address_space P s" by (simp add: address_space_def)
  have frame: "phys_frame P f = Some f"
    using free_frame_below_2p52 [OF laws, of "ALLOCATOR s" f] inv left laws
    by (auto simp: mem_inv_def paging_laws_def address_laws_def)
  obtain s1 k where s1: "map_page P f (stack_page i) user_flags (s\<lparr>ALLOCATOR := fa\<rparr>) = Inr s1"
    "k \<le> 3" "free_frames entries s1 = drop k fs"
    "address_space P s1 = (address_space P s)(stack_page i \<mapsto> (f, user_flags))"
    by (rule map_page_step [OF laws inv1 frame stack_page(5) [OF i], of user_flags])
      (use unmapped left(2) stack_page(4) [OF i] in \<open>simp_all add: as1 fa(3)\<close>)
  note kept = allocate_map_exclusive [OF laws inv ex fa(1) s1(1)]
  have "s1 = s\<lparr>ALLOCATOR := ALLOCATOR s1, MAPPER := MAPPER s1\<rparr>" using kept by blast
  from arg_cong [OF this, of phys_mem] have pm: "phys_mem s1 = phys_mem s" by simp
  have fr: "free_frames entries s1 = drop (Suc k) (free_frames entries s)" by (simp add: s1(3) left(1))
  have "undisturbed P entries s s1"
    by (rule undisturbed_map [OF _ pm])
      (use unmapped set_drop_subset [of "Suc k" "free_frames entries s"] in \<open>auto simp: s1(4) fr map_le_def\<close>)
  with that [of f s1 "Suc k"] kept s1(1,2,4) fr left(1) fa(1) stack_page(1,2) [OF i] show ?thesis by simp
qed

lemma stack_loop_maps:
  assumes laws: "paging_laws P entries"
  shows "boot_ok P entries s \<Longrightarrow> distinct is \<Longrightarrow> list_all (\<lambda>i. unat i \<le> 32) is \<Longrightarrow>
    4 * length is \<le> length (free_frames entries s) \<Longrightarrow> \<forall>i \<in> set is. address_space P s (stack_page i) = None \<Longrightarrow>
    \<exists>s'. stack_loop P is s = Inr s' \<and>
      (\<forall>i \<in> set is. \<exists>f \<in> set (free_frames entries s). address_space P s' (stack_page i) = Some (f, user_flags)) \<and>
      (\<forall>pg. pg \<notin> stack_page ` set is \<longrightarrow> address_space P s' pg = address_space P s pg) \<and> undisturbed P entries s s' \<and>
      (\<exists>k \<le> 4 * length is. free_frames entries s' = drop k (free_frames entries s))"
proof (induction "is" arbitrary: s)
  case (Cons i "is")
  have i: "unat i \<le> 32" "list_all (\<lambda>i. unat i \<le> 32) is" "i \<notin> set is" "distinct is" using Cons.prems by simp_all
  obtain f s1 k where f: "f \<in> set (free_frames entries s)" and run: "\<And>is. stack_loop P (i # is) s = stack_loop P is s1"
    and s1: "boot_ok P entries s1" "k \<le> 4" "free_frames entries s1 = drop k (free_frames entries s)" "undisturbed P entries s s1"
      "address_space P s1 = (address_space P s)(stack_page i \<mapsto> (f, user_flags))"
    by (rule stack_page_mapped [OF laws Cons.prems(1) i(1)]) (use Cons.prems(4,5) in simp_all)
  have sp: "stack_page j \<noteq> stack_page i" if "j \<in> set is" for j
    using stack_page_inj [of j i] i that by (auto simp: list_all_iff)
  have left: "4 * length is \<le> length (free_frames entries s1)" using Cons.prems(4) s1(2,3) by simp
  have none: "\<forall>j \<in> set is. address_space P s1 (stack_page j) = None" using Cons.prems(5) sp by (simp add: s1(5))
  obtain s' k' where s': "stack_loop P is s1 = Inr s'"
      "\<forall>j \<in> set is. \<exists>f \<in> set (free_frames entries s1). address_space P s' (stack_page j) = Some (f, user_flags)"
      "\<forall>pg. pg \<notin> stack_page ` set is \<longrightarrow> address_space P s' pg = address_space P s1 pg" "undisturbed P entries s1 s'"
    and k': "k' \<le> 4 * length is" "free_frames entries s' = drop k' (free_frames entries s1)"
    using Cons.IH [OF s1(1) i(4,2) left none] by blast
  have fr: "\<exists>k \<le> 4 * length (i # is). free_frames entries s' = drop k (free_frames entries s)"
    using k' s1(2,3) by (intro exI [of _ "k' + k"]) simp
  have "stack_page i \<notin> stack_page ` set is" using sp by (metis imageE)
  with s'(3) s1(5) have top: "address_space P s' (stack_page i) = Some (f, user_flags)" by simp
  have "set (free_frames entries s1) \<subseteq> set (free_frames entries s)" using s1(3) set_drop_subset by metis
  then have all: "\<forall>j \<in> set (i # is). \<exists>f \<in> set (free_frames entries s). address_space P s' (stack_page j) = Some (f, user_flags)"
    using top f s'(2) by (simp, blast)
  have "\<forall>pg. pg \<notin> stack_page ` set (i # is) \<longrightarrow> address_space P s' pg = address_space P s pg"
    using s'(3) s1(5) by simp
  with s'(1) all undisturbed_trans [OF s1(4) s'(4)] fr show ?case unfolding run by blast
qed simp

section \<open>The god process\<close>

text \<open>The memory as the boot loader leaves it, in the terms of \<open>Elf_Image\<close>.\<close>

definition boot_state :: "('pt, 'dev) hw_platform \<Rightarrow> u64 \<Rightarrow> 'dev \<Rightarrow> (u64 \<Rightarrow> u8) \<Rightarrow> ('pt, 'dev) kernel" where
  "boot_state P h dev ram =
     (statics dev ram)\<lparr>HHDM_OFFSET := h,
       MAPPER := Some (offset_page_table P (the (virt_addr_add P h (cr3_start_address P))) h)\<rparr>"

lemma boot_state_simps:
  "address_space P (boot_state P h dev ram) = boot_space P h" "phys_mem (boot_state P h dev ram) = ram"
  "ALLOCATOR (boot_state P h dev ram) = frame_allocator_new" "free_frames entries (boot_state P h dev ram) = all_frames entries"
  by (simp_all add: boot_state_def statics_def address_space_def boot_space_def frames_left_new)

text \<open>The module to load: an image as in \<open>Elf_Image\<close> that leaves room for the stack.\<close>

definition god_image :: "('pt, 'dev) hw_platform \<Rightarrow> mem_entry list \<Rightarrow> u64 \<Rightarrow> u64 \<Rightarrow> elf64_header \<Rightarrow> elf64_phdr list \<Rightarrow>
    ('pt, 'dev) kernel \<Rightarrow> bool" where
  "god_image P entries h b hdr phs s \<longleftrightarrow>
     image_ok P entries b hdr phs s \<and> 4 * pages_needed phs + 137 \<le> length (all_frames entries) \<and>
     (\<forall>ph \<in> set phs. loadable ph \<longrightarrow>
        unat (p_vaddr ph - relocation (e_entry hdr)) + unat (p_memsz ph) + 4095 < 0x7FFFFFFD0000) \<and>
     list_all (\<lambda>i. boot_space P h (stack_page i) = None) (map of_nat [1..<33])"

lemma stack_indices: "list_all (\<lambda>i. unat i \<le> 32) (map of_nat [1..<33] :: u64 list)" "distinct (map of_nat [1..<33] :: u64 list)"
  by (simp_all add: upt_rec)

text \<open>
  The memory of the machine once the process is loaded: what was in use is unchanged, and in the lower
  half the pages of its segments and of its stack are all that is new.
\<close>

abbreviation god_stack_pages :: "u64 set" where
  "god_stack_pages \<equiv> stack_page ` set (map of_nat [1..<33])"

definition god_memory :: "('pt, 'dev) hw_platform \<Rightarrow> mem_entry list \<Rightarrow> u64 \<Rightarrow> elf64_header \<Rightarrow> elf64_phdr list \<Rightarrow>
    ('pt, 'dev) kernel \<Rightarrow> ('pt, 'dev) kernel \<Rightarrow> bool" where
  "god_memory P entries h hdr phs B s \<longleftrightarrow>
     undisturbed P entries B s \<and>
     (\<forall>pg. unat pg < 2 ^ 47 \<longrightarrow> pg \<notin> god_stack_pages \<longrightarrow>
        (\<forall>ph \<in> set phs. loadable ph \<longrightarrow> pg \<notin> seg_pages (relocation (e_entry hdr)) ph) \<longrightarrow>
        address_space P s pg = boot_space P h pg) \<and>
     (\<exists>k \<le> 4 * pages_needed phs + 137. free_frames entries s = drop k (all_frames entries))"

text \<open>The image of the first process, from the start of memory management to the moment it is loaded.\<close>

lemma god_image_below:
  assumes "god_image P entries h b hdr phs s" "ph \<in> set phs" "loadable ph" "pg \<in> seg_pages (relocation (e_entry hdr)) ph"
  shows "unat pg + 4096 < 0x7FFFFFFD0000"
proof -
  have "image_ok P entries b hdr phs s"
    "unat (p_vaddr ph - relocation (e_entry hdr)) + unat (p_memsz ph) + 4095 < 0x7FFFFFFD0000"
    using assms(1-3) by (simp_all add: god_image_def)
  with seg_pages_below [OF _ page_floor_relocation assms(4)] assms(2,3) show ?thesis by (fastforce simp: image_ok_def)
qed

lemma god_image_later:
  assumes img: "god_image P entries h b hdr phs (boot_state P h dev ram)" and wf: "wf_memmap entries"
    and s: "undisturbed P entries (boot_state P h dev ram) s" "k \<le> 9" "free_frames entries s = drop k (all_frames entries)"
      "\<forall>pg. unat pg < 2 ^ 47 \<longrightarrow> address_space P s pg = boot_space P h pg"
  shows "image_ok P entries b hdr phs s"
proof (rule image_ok_later [OF _ _ s(1)])
  show "mem_inv entries (boot_state P h dev ram)"
    using fa_inv_new [OF wf] by (simp add: mem_inv_def boot_state_simps) (simp add: boot_state_def)
  show "\<forall>ph\<in>set phs. loadable ph \<longrightarrow> (\<forall>pg\<in>seg_pages (relocation (e_entry hdr)) ph.
      address_space P s pg = address_space P (boot_state P h dev ram) pg)"
    using god_image_below [OF img] s(4) by (fastforce simp: boot_state_simps)
  have "4 * pages_needed phs + 137 \<le> length (all_frames entries)" using img by (simp add: god_image_def)
  then show "4 * pages_needed phs \<le> length (free_frames entries s)" using s(2) by (simp add: s(3))
qed (use img in \<open>simp add: god_image_def\<close>)

lemma stack_pages_free:
  assumes img: "god_image P entries h b hdr phs s\<^sub>0" and loaded: "image_loaded P entries b hdr phs s s1"
    and low: "\<forall>pg. unat pg < 2 ^ 47 \<longrightarrow> address_space P s pg = boot_space P h pg" and i: "i \<in> set (map of_nat [1..<33])"
  shows "address_space P s1 (stack_page i) = None"
proof -
  have i32: "unat i \<le> 32" using i stack_indices(1) unfolding list_all_iff by blast
  note sp = stack_page(3,5) [OF i32]
  have "stack_page i \<notin> seg_pages (relocation (e_entry hdr)) ph" if "ph \<in> set phs" "loadable ph" for ph
    using god_image_below [OF img that] sp(1) i32 by fastforce
  then have "address_space P s1 (stack_page i) = address_space P s (stack_page i)"
    using loaded by (simp add: image_loaded_def)
  also have "\<dots> = boot_space P h (stack_page i)" using low sp(2) by simp
  also have "list_all (\<lambda>i. boot_space P h (stack_page i) = None) (map of_nat [1..<33])"
    using img by (simp add: god_image_def)
  then have "boot_space P h (stack_page i) = None" using i unfolding list_all_iff by blast
  finally show ?thesis .
qed

lemma loader_init_ok:
  fixes s :: "('pt, 'dev) kernel"
  assumes laws: "paging_laws P entries" and ok: "boot_ok P entries s"
    and s: "undisturbed P entries (boot_state P h dev ram) s" "k \<le> 9" "free_frames entries s = drop k (all_frames entries)"
      "\<forall>pg. unat pg < 2 ^ 47 \<longrightarrow> address_space P s pg = boot_space P h pg"
    and wf: "wf_memmap entries" and img: "god_image P entries h b hdr phs (boot_state P h dev ram)"
  shows "\<exists>s'. loader_init P (Some ((b, len) # ms)) s = Inr (image_entry hdr, s') \<and>
    (\<forall>ph \<in> set phs. loadable ph \<longrightarrow>
       segment_in_place P entries b (relocation (e_entry hdr)) ph (boot_state P h dev ram) s') \<and>
    (\<forall>i \<in> set (map of_nat [1..<33]). \<exists>f. address_space P s' (stack_page i) = Some (f, user_flags)) \<and>
    god_memory P entries h hdr phs (boot_state P h dev ram) s'"
proof -
  let ?B = "boot_state P h dev ram" and ?r = "relocation (e_entry hdr)" and ?is = "map of_nat [1..<33] :: u64 list"
  have img': "image_ok P entries b hdr phs ?B" and room: "4 * pages_needed phs + 137 \<le> length (all_frames entries)"
    using img by (simp_all add: god_image_def)
  define t where "t = say '' bytes\<newline>'' (s\<lparr>serial := speak ''\<newline>    -> Size: '' (speak ''    -> Base Address: 0x''
    (speak ''[+] God-Process (Marshal) located safely in memory!\<newline>'' (speak ''[*] Scanning RAM for Boot Modules...\<newline>'' (serial s)))
      @ hex_bytes b) @ dec_bytes len\<rparr>)"
  have t: "ALLOCATOR t = ALLOCATOR s" "MAPPER t = MAPPER s" "phys_mem t = phys_mem s" by (simp_all add: t_def say_def)
  have as_t: "address_space P t = address_space P s" by (simp add: address_space_def t)
  have und_t: "undisturbed P entries ?B t"
    by (rule undisturbed_trans [OF s(1) undisturbed_map]) (simp_all add: t as_t)
  have ok_t: "boot_ok P entries t" by (rule boot_ok_cong [OF t(1,2) ok])
  have dist: "distinct (free_frames entries t)" using ok_t by (simp add: exclusive_frames_def)
  have free_t: "free_frames entries t = drop k (all_frames entries)" using s(3) t(1) by simp
  have low_t: "\<forall>pg. unat pg < 2 ^ 47 \<longrightarrow> address_space P t pg = boot_space P h pg" using s(4) by (simp add: as_t)
  have img_t: "image_ok P entries b hdr phs t" by (rule god_image_later [OF img wf und_t s(2) free_t low_t])
  have inv_t: "mem_inv entries t" using ok_t by simp
  obtain s1 where s1: "load_and_get_entry P b t = Inr (image_entry hdr, s1)" "image_loaded P entries b hdr phs t s1"
    using load_image [OF laws inv_t dist img_t] by blast
  have ok1: "boot_ok P entries s1"
    by (rule loader_kept_ok [OF load_and_get_entry_kept [OF laws ok_t s1(1)]])
  obtain k1 where k1: "k1 \<le> 4 * pages_needed phs" "free_frames entries s1 = drop k1 (free_frames entries t)"
    using s1(2) by (auto simp: image_loaded_def)
  define t1 where "t1 = say ''[*] Constructing 128KB Ring 3 User Stack...\<newline>'' s1"
  have ok_t1: "boot_ok P entries t1" using loader_kept_ok [OF loader_kept_say [OF ok1]] by (simp add: t1_def)
  have left: "4 * length ?is \<le> length (free_frames entries t1)" using k1 s(2) room by (simp add: t1_def free_t)
  have none: "\<forall>i \<in> set ?is. address_space P t1 (stack_page i) = None"
    using stack_pages_free [OF img s1(2) low_t] by (simp add: t1_def)
  obtain s2 k2 where s2: "stack_loop P ?is t1 = Inr s2" "undisturbed P entries t1 s2"
    "\<forall>i \<in> set ?is. \<exists>f \<in> set (free_frames entries t1). address_space P s2 (stack_page i) = Some (f, user_flags)"
    "\<forall>pg. pg \<notin> god_stack_pages \<longrightarrow> address_space P s2 pg = address_space P t1 pg"
    and k2: "k2 \<le> 4 * length ?is" "free_frames entries s2 = drop k2 (free_frames entries t1)"
    using stack_loop_maps [OF laws ok_t1 stack_indices(2,1) left none] by blast
  let ?s' = "say ''[+] Execution Environment completely constructed.\<newline>'' s2"
  have "loader_init P (Some ((b, len) # ms)) s = Inr (image_entry hdr, ?s')"
    using s1(1) s2(1) by (simp add: loader_init_def Let_def say_def t_def t1_def)
  moreover have "segment_in_place P entries b ?r ph ?B ?s'" if "ph \<in> set phs" "loadable ph" for ph
  proof -
    have so: "segment_ok P entries b ?r ?B ph" using img' that by (simp add: image_ok_def)
    then have fz: "p_filesz ph \<le> p_memsz ph" by (simp add: segment_ok_def)
    have "segment_in_place P entries b ?r ph t s1" using s1(2) that by (simp add: image_loaded_def)
    from segment_in_place_earlier [OF this so und_t] have "segment_in_place P entries b ?r ph ?B t1" by (simp add: t1_def)
    from segment_in_place_later [OF this fz s2(2)] show ?thesis by simp
  qed
  moreover have "\<forall>i \<in> set ?is. \<exists>f. address_space P ?s' (stack_page i) = Some (f, user_flags)"
    using s2(3) by auto
  moreover have "god_memory P entries h hdr phs ?B ?s'"
    unfolding god_memory_def
  proof (intro conjI allI impI)
    have "undisturbed P entries t s1" using s1(2) by (simp add: image_loaded_def)
    then have "undisturbed P entries t t1" by (simp add: t1_def)
    then show "undisturbed P entries ?B ?s'" using undisturbed_trans [OF und_t undisturbed_trans [OF _ s2(2)]] by simp
    fix pg assume pg: "unat pg < 2 ^ 47" "pg \<notin> god_stack_pages" "\<forall>ph \<in> set phs. loadable ph \<longrightarrow> pg \<notin> seg_pages ?r ph"
    then have "address_space P s1 pg = address_space P t pg" using s1(2) by (simp add: image_loaded_def)
    then show "address_space P ?s' pg = boot_space P h pg" using s2(4) pg(1,2) low_t by (simp add: t1_def)
  next
    have "free_frames entries ?s' = drop (k2 + k1 + k) (all_frames entries)"
      using k2(2) k1(2) free_t by (simp add: t1_def add.assoc)
    then show "\<exists>k \<le> 4 * pages_needed phs + 137. free_frames entries ?s' = drop k (all_frames entries)"
      using k2(1) k1(1) s(2) by (intro exI [of _ "k2 + k1 + k"]) simp
  qed
  ultimately show ?thesis by blast
qed

section \<open>The whole boot sequence\<close>

lemma boot_start:
  assumes "boots P L sel c entries h" and "base_revision_supported L"
  shows "\<exists>m. boot_engine P L img sel (power_on dev ram c) = Inr m \<and>
    kernel_inv entries (kern m) \<and> exclusive_frames P entries (kern m) \<and>
    (\<forall>e s. loader_init P (module_response L) (kern m) = Inr (e, s) \<longrightarrow>
       (\<exists>m'. start P L img sel (power_on dev ram c) = Inr (Some (e, m')) \<and>
          kernel_inv entries (kern m') \<and> exclusive_frames P entries (kern m') \<and> HHDM_OFFSET (kern m') = h \<and>
          ready_queue (SCHEDULER (kern m')) = [(e, god_stack)] \<and> bit (rflags (cpu m')) IF_bit \<and>
          MSR (cpu m') IA32_LSTAR = syscall_entry_addr img \<and> ALLOCATOR (kern m') = ALLOCATOR s \<and>
          MAPPER (kern m') = MAPPER s \<and> phys_mem (kern m') = phys_mem s \<and> free_slots (SCHEDULER (kern m')) = 63)) \<and>
    undisturbed P entries (boot_state P h dev ram) (kern m) \<and>
    (\<exists>k \<le> 9. free_frames entries (kern m) = drop k (all_frames entries)) \<and>
    (\<forall>pg. unat pg < 2 ^ 47 \<longrightarrow> address_space P (kern m) pg = boot_space P h pg)"
proof -
  obtain m where m: "boot_engine P L img sel (power_on dev ram c) = Inr m"
    "kernel_inv entries (kern m)" "exclusive_frames P entries (kern m)" "HHDM_OFFSET (kern m) = h"
    "SCHEDULER (kern m) = scheduler_new" "MSR (cpu m) IA32_LSTAR = syscall_entry_addr img"
    "\<exists>k \<le> 9. free_frames entries (kern m) = drop k (all_frames entries)"
    "phys_mem (kern m) = ram" "boot_space P h \<subseteq>\<^sub>m address_space P (kern m)"
    "\<forall>pg. unat pg < 2 ^ 47 \<longrightarrow> address_space P (kern m) pg = boot_space P h pg"
    by (rule boot_engine_ok [OF assms(1)])
  have laws: "paging_laws P entries" using assms(1) by (simp add: boots_def)
  have new: "unat (thread_count scheduler_new + 1) = 1" by (simp add: scheduler_new_def)
  have room: "unat (thread_count scheduler_new) < MAX_THREADS" by (simp add: scheduler_new_def MAX_THREADS_def)
  have "\<exists>m'. start P L img sel (power_on dev ram c) = Inr (Some (e, m')) \<and>
      kernel_inv entries (kern m') \<and> exclusive_frames P entries (kern m') \<and> HHDM_OFFSET (kern m') = h \<and>
      ready_queue (SCHEDULER (kern m')) = [(e, god_stack)] \<and> bit (rflags (cpu m')) IF_bit \<and>
      MSR (cpu m') IA32_LSTAR = syscall_entry_addr img \<and> ALLOCATOR (kern m') = ALLOCATOR s \<and>
      MAPPER (kern m') = MAPPER s \<and> phys_mem (kern m') = phys_mem s \<and> free_slots (SCHEDULER (kern m')) = 63"
    if load: "loader_init P (module_response L) (kern m) = Inr (e, s)" for e s
  proof -
    obtain tid q where q: "spawn_thread 0 god_stack e scheduler_new = Inr (tid, q)" "sched_inv q" "ready_queue q = [(e, god_stack)]" "free_slots q = 63"
      using spawn_thread_room [OF sched_inv_new room, of 0 god_stack e]
        spawn_thread_queue [OF sched_inv_new room, of 0 god_stack e] spawn_thread_inv [OF sched_inv_new room, of 0 god_stack e]
      by (simp add: ready_queue_new free_slots_def new MAX_THREADS_def)
    have "boot_ok P entries (kern m)" using m(2,3) by (simp add: kernel_inv_def)
    from loader_init_kept [OF laws this load] have kept: "boot_ok P entries s"
      "s = (kern m)\<lparr>ALLOCATOR := ALLOCATOR s, MAPPER := MAPPER s, serial := serial s, phys_mem := phys_mem s\<rparr>"
      by (simp_all add: loader_kept_def)
    have f: "SCHEDULER s = scheduler_new" "CDT s = genesis_cdt" "HHDM_OFFSET s = h" "length (IRQ_MAILBOXES s) = 256"
      by (subst kept(2), use m in \<open>simp add: kernel_inv_def\<close>)+
    define s' where "s' = say ''\<newline>[*] CORE 0: Boot sequence complete. Locking into Supervisor Mode...\<newline>''
      (say ''[+] Activating Hardware Heartbeat...\<newline>'' (say ''[*] Engine Completion Block Finished.\<newline>'' s))"
    have f': "SCHEDULER s' = scheduler_new" "CDT s' = genesis_cdt" "HHDM_OFFSET s' = h" "length (IRQ_MAILBOXES s') = 256"
      "ALLOCATOR s' = ALLOCATOR s" "MAPPER s' = MAPPER s" "phys_mem s' = phys_mem s" using f by (simp_all add: s'_def say_def)
    let ?m = "m\<lparr>kern := s'\<lparr>SCHEDULER := q\<rparr>, cpu := sti (cpu m)\<rparr>"
    have "start P L img sel (power_on dev ram c) = Inr (Some (e, ?m))"
      using assms(2) m(1) load q(1) f'(1)
      by (simp add: start_def enter_supervisor_def Let_def on_kern_def s'_def [symmetric])
    moreover have "boot_ok P entries (s'\<lparr>SCHEDULER := q\<rparr>)" by (rule boot_ok_cong [OF _ _ kept(1)]) (simp_all add: f')
    ultimately show ?thesis
      using q(2-4) f' m(6) by (intro exI [of _ ?m]) (simp add: kernel_inv_def sti_def set_bit_of_def bit_or_iff bit_push_bit_iff)
  qed
  moreover have "undisturbed P entries (boot_state P h dev ram) (kern m)"
  proof (rule undisturbed_map)
    show "set (free_frames entries (kern m)) \<subseteq> set (free_frames entries (boot_state P h dev ram))"
      using m(7) by (auto simp: boot_state_simps(4) dest: in_set_dropD)
  qed (use m(8,9) in \<open>simp_all add: boot_state_simps\<close>)
  ultimately show ?thesis using m(1-3,7,10) by blast
qed

lemma boot_god_process:
  fixes P :: "('pt, 'dev) hw_platform"
  assumes boots: "boots P L sel c entries h" and rev: "base_revision_supported L"
    and mods: "module_response L = Some ((b, len) # ms)" and img: "god_image P entries h b hdr phs (boot_state P h dev ram)"
  shows "\<exists>m. start P L img sel (power_on dev ram c) = Inr (Some (image_entry hdr, m)) \<and>
    kernel_inv entries (kern m) \<and> exclusive_frames P entries (kern m) \<and> HHDM_OFFSET (kern m) = h \<and>
    ready_queue (SCHEDULER (kern m)) = [(image_entry hdr, god_stack)] \<and>
    (\<forall>ph \<in> set phs. loadable ph \<longrightarrow>
       segment_in_place P entries b (relocation (e_entry hdr)) ph (boot_state P h dev ram) (kern m)) \<and>
    (\<forall>i \<in> set (map of_nat [1..<33]). \<exists>f. address_space P (kern m) (stack_page i) = Some (f, user_flags)) \<and>
    bit (rflags (cpu m)) IF_bit \<and> MSR (cpu m) IA32_LSTAR = syscall_entry_addr img \<and>
    god_memory P entries h hdr phs (boot_state P h dev ram) (kern m) \<and> free_slots (SCHEDULER (kern m)) = 63"
proof -
  let ?r = "relocation (e_entry hdr)" and ?B = "boot_state P h dev ram"
  have laws: "paging_laws P entries" and wf: "wf_memmap entries" using boots by (simp_all add: boots_def)
  from boot_start [OF boots rev, of img dev ram] obtain m :: "('pt, 'dev) machine" and k where m: "kernel_inv entries (kern m)" "exclusive_frames P entries (kern m)"
    "\<forall>e s. loader_init P (module_response L) (kern m) = Inr (e, s) \<longrightarrow>
       (\<exists>m'. start P L img sel (power_on dev ram c) = Inr (Some (e, m')) \<and>
          kernel_inv entries (kern m') \<and> exclusive_frames P entries (kern m') \<and> HHDM_OFFSET (kern m') = h \<and>
          ready_queue (SCHEDULER (kern m')) = [(e, god_stack)] \<and> bit (rflags (cpu m')) IF_bit \<and>
          MSR (cpu m') IA32_LSTAR = syscall_entry_addr img \<and> ALLOCATOR (kern m') = ALLOCATOR s \<and>
          MAPPER (kern m') = MAPPER s \<and> phys_mem (kern m') = phys_mem s \<and> free_slots (SCHEDULER (kern m')) = 63)"
    "undisturbed P entries ?B (kern m)" "k \<le> 9" "free_frames entries (kern m) = drop k (all_frames entries)"
    "\<forall>pg. unat pg < 2 ^ 47 \<longrightarrow> address_space P (kern m) pg = boot_space P h pg"
    by (elim exE conjE) (rule that, assumption+)
  have ok: "boot_ok P entries (kern m)" using m(1,2) by (simp add: kernel_inv_def)
  from loader_init_ok [OF laws ok m(4-7) wf img, of len ms, folded mods]
  obtain s where s: "loader_init P (module_response L) (kern m) = Inr (image_entry hdr, s)"
    "\<And>ph. ph \<in> set phs \<Longrightarrow> loadable ph \<Longrightarrow> segment_in_place P entries b ?r ph ?B s"
    "\<forall>i \<in> set (map of_nat [1..<33]). \<exists>f. address_space P s (stack_page i) = Some (f, user_flags)"
    "god_memory P entries h hdr phs ?B s"
    by blast
  from m(3) [rule_format, OF s(1)] obtain m' where m': "start P L img sel (power_on dev ram c) = Inr (Some (image_entry hdr, m'))"
    "kernel_inv entries (kern m')" "exclusive_frames P entries (kern m')" "HHDM_OFFSET (kern m') = h"
    "ready_queue (SCHEDULER (kern m')) = [(image_entry hdr, god_stack)]" "bit (rflags (cpu m')) IF_bit"
    "MSR (cpu m') IA32_LSTAR = syscall_entry_addr img" "ALLOCATOR (kern m') = ALLOCATOR s"
    "MAPPER (kern m') = MAPPER s" "phys_mem (kern m') = phys_mem s" "free_slots (SCHEDULER (kern m')) = 63" by blast
  have as: "address_space P (kern m') = address_space P s" by (simp add: address_space_def m'(9))
  have und: "undisturbed P entries s (kern m')" by (rule undisturbed_map) (simp_all add: as m'(8,10))
  have "segment_in_place P entries b ?r ph ?B (kern m')" if "ph \<in> set phs" "loadable ph" for ph
  proof -
    have "p_filesz ph \<le> p_memsz ph" using img that by (auto simp: god_image_def image_ok_def segment_ok_def)
    then show ?thesis by (rule segment_in_place_later [OF s(2) [OF that] _ und])
  qed
  moreover have "\<forall>i \<in> set (map of_nat [1..<33]). \<exists>f. address_space P (kern m') (stack_page i) = Some (f, user_flags)"
    unfolding as by (rule s(3))
  moreover have "god_memory P entries h hdr phs ?B (kern m')"
    using s(4) undisturbed_trans [OF _ und] by (auto simp: god_memory_def as m'(8))
  ultimately show ?thesis using m'(1-7,11) by blast
qed

section \<open>Properties\<close>


definition boot_memmap :: "mem_entry list" where
  "boot_memmap = [\<lparr>base = 0x100000, region_length = 0x100000, usable = True\<rparr>]"

definition boot_hw :: "(flat_table, (u16 \<times> nat \<times> u32) list) hw_platform" where
  "boot_hw = example_hw\<lparr>memmap_response := Some boot_memmap,
     offset_page_table := (\<lambda>l4 offset. [image_base \<mapsto> (0x300000, {PRESENT})])\<rparr>"

definition boot_limine :: limine where
  "boot_limine = \<lparr>base_revision_supported = True, mp_response = Some ([0, 1], 0), module_response = Some [(image_base, 124)]\<rparr>"

lemma boot_memmap_frames:
  "wf_memmap boot_memmap" "disjoint_memmap boot_memmap" "length (all_frames boot_memmap) = 256" "0x300000 \<notin> set (all_frames boot_memmap)"
proof -
  show wf: "wf_memmap boot_memmap" "disjoint_memmap boot_memmap"
    by (simp_all add: boot_memmap_def wf_memmap_def disjoint_memmap_def entry_end_def)
  show "length (all_frames boot_memmap) = 256"
    by (simp add: boot_memmap_def all_frames_def entry_frames_def region_frames_def entry_end_def)
  show "0x300000 \<notin> set (all_frames boot_memmap)"
    using set_all_frames [OF wf(1), of "0x300000"] by (simp add: boot_memmap_def entry_end_def)
qed

lemma boot_hw_boots: "boots boot_hw boot_limine (snd (GDT example_gdt)) example_core boot_memmap 0xFFFF800000000000"
proof -
  have "map_to_law boot_hw boot_memmap"
    by (rule flat_map_to_law) (simp_all add: boot_hw_def example_hw_def)
  then have "paging_laws boot_hw boot_memmap"
    by (simp add: paging_laws_def address_laws_def boot_hw_def example_hw_def) (simp add: boot_memmap_def entry_end_def)
  then show ?thesis
    using boot_memmap_frames(1,2)
    by (simp add: boots_def boot_hw_def example_hw_def boot_limine_def boot_memmap_def GDT_selectors [OF example_gdt_laws]
        example_core_def page_floor_def)
qed

lemma boot_hw_space: "boot_space boot_hw 0xFFFF800000000000 = [image_base \<mapsto> (0x300000, {PRESENT})]"
  by (simp add: boot_space_def boot_hw_def example_hw_def)

lemma boot_hw_image:
  "god_image boot_hw boot_memmap 0xFFFF800000000000 image_base image_header [image_phdr]
     (boot_state boot_hw 0xFFFF800000000000 [] image_ram)"
proof -
  let ?s = "boot_state boot_hw 0xFFFF800000000000 [] image_ram"
  have inv: "mem_inv boot_memmap ?s"
    using fa_inv_new [OF boot_memmap_frames(1)] by (simp add: mem_inv_def boot_state_def statics_def)
  have "image_ok boot_hw boot_memmap image_base image_header [image_phdr] ?s"
    by (rule example_image_ok [where fl = "{PRESENT}"])
      (simp_all add: boot_state_simps boot_hw_space inv boot_memmap_frames frames_left_new)
  moreover have "list_all (\<lambda>i. boot_space boot_hw 0xFFFF800000000000 (stack_page i) = None) (map of_nat [1..<33])"
    by (simp add: boot_hw_space stack_page_def upt_rec)
  ultimately show ?thesis
    using boot_memmap_frames(3) image_seg_pages by (simp add: god_image_def image_phdr_def)
qed


end
