(* ===== verification/Intrinsics.thy ===== *)
theory Intrinsics
  imports Stardust_Prelude
begin

text \<open>
  The memory intrinsics that every userland binary carries: \<^verbatim>\<open>memset\<close>, \<^verbatim>\<open>memcpy\<close>,
  \<^verbatim>\<open>memmove\<close>, \<^verbatim>\<open>memcmp\<close> and \<^verbatim>\<open>bcmp\<close>, written out in \<^verbatim>\<open>userland/drivers/ps2_hid/src/main.rs\<close> and,
  with the same bodies, in \<^verbatim>\<open>drivers/gpu_driver\<close> and \<^verbatim>\<open>marshal\<close>.

  The memory of the process is a function from addresses to bytes and \<open>ptr.add(i)\<close> is word addition.
  The bytes of a block at \<open>p\<close> of length \<open>n\<close> are the addresses \<open>a\<close> with \<open>a - p < n\<close>: word subtraction
  makes this right for every block, also for one that ends at the top of the address space.
\<close>

type_synonym memory = "u64 \<Rightarrow> u8"

section \<open>Model\<close>

text \<open>The \<^verbatim>\<open>while\<close> loops; \<open>copy_up\<close> and \<open>copy_down\<close> are the two loops of \<open>memmove\<close>.\<close>

lemma unat_Suc_below: "i < n \<Longrightarrow> unat (i + 1) = Suc (unat i)" for i n :: u64
  using unat_add_no_overflow [of i 1] u64_unat_lt [of n] by (simp add: word_less_nat_alt)

lemma unat_pred_below: "0 < i \<Longrightarrow> unat (i - 1) < unat i" for i :: u64
  by (simp add: word_less_nat_alt unat_sub_if')

function memset_loop :: "u64 \<Rightarrow> u32 \<Rightarrow> u64 \<Rightarrow> u64 \<Rightarrow> memory \<Rightarrow> memory" where
  "memset_loop s c i n m = (if i < n then memset_loop s c (i + 1) n (m(s + i := ucast c)) else m)"
  by pat_completeness auto
termination
  by (relation "measure (\<lambda>(s, c, i, n, m). unat n - unat i)") (auto simp: unat_Suc_below word_less_nat_alt)

function copy_up :: "u64 \<Rightarrow> u64 \<Rightarrow> u64 \<Rightarrow> u64 \<Rightarrow> memory \<Rightarrow> memory" where
  "copy_up dest src i n m = (if i < n then copy_up dest src (i + 1) n (m(dest + i := m (src + i))) else m)"
  by pat_completeness auto
termination
  by (relation "measure (\<lambda>(dest, src, i, n, m). unat n - unat i)") (auto simp: unat_Suc_below word_less_nat_alt)

function copy_down :: "u64 \<Rightarrow> u64 \<Rightarrow> u64 \<Rightarrow> memory \<Rightarrow> memory" where
  "copy_down dest src i m =
     (if i > 0 then let i = i - 1 in copy_down dest src i (m(dest + i := m (src + i))) else m)"
  by pat_completeness auto
termination
  by (relation "measure (\<lambda>(dest, src, i, m). unat i)") (auto simp: unat_pred_below)

function memcmp_loop :: "u64 \<Rightarrow> u64 \<Rightarrow> u64 \<Rightarrow> u64 \<Rightarrow> memory \<Rightarrow> u32" where
  "memcmp_loop s1 s2 i n m =
     (if i < n then
        let a = m (s1 + i); b = m (s2 + i) in
        if a \<noteq> b then ucast a - ucast b else memcmp_loop s1 s2 (i + 1) n m
      else 0)"
  by pat_completeness auto
termination
  by (relation "measure (\<lambda>(s1, s2, i, n, m). unat n - unat i)") (auto simp: unat_Suc_below word_less_nat_alt)

declare memset_loop.simps [simp del] copy_up.simps [simp del] copy_down.simps [simp del] memcmp_loop.simps [simp del]

definition memset :: "u64 \<Rightarrow> u32 \<Rightarrow> u64 \<Rightarrow> memory \<Rightarrow> u64 \<times> memory" where
  "memset s c n m = (s, memset_loop s c 0 n m)"

definition memcpy :: "u64 \<Rightarrow> u64 \<Rightarrow> u64 \<Rightarrow> memory \<Rightarrow> u64 \<times> memory" where
  "memcpy dest src n m = (dest, copy_up dest src 0 n m)"

definition memmove :: "u64 \<Rightarrow> u64 \<Rightarrow> u64 \<Rightarrow> memory \<Rightarrow> u64 \<times> memory" where
  "memmove dest src n m = (dest, if src < dest then copy_down dest src n m else copy_up dest src 0 n m)"

definition memcmp :: "u64 \<Rightarrow> u64 \<Rightarrow> u64 \<Rightarrow> memory \<Rightarrow> u32" where
  "memcmp s1 s2 n m = memcmp_loop s1 s2 0 n m"

definition bcmp :: "u64 \<Rightarrow> u64 \<Rightarrow> u64 \<Rightarrow> memory \<Rightarrow> u32" where
  "bcmp s1 s2 n m = memcmp s1 s2 n m"

section \<open>Specification: blocks\<close>

text \<open>The bytes of a block, and the memory with a block replaced by a function of the offset.\<close>

definition block :: "u64 \<Rightarrow> u64 \<Rightarrow> memory \<Rightarrow> u8 list" where
  "block p n m = map (\<lambda>i. m (p + of_nat i)) [0..<unat n]"

definition with_block :: "u64 \<Rightarrow> u64 \<Rightarrow> (u64 \<Rightarrow> u8) \<Rightarrow> memory \<Rightarrow> memory" where
  "with_block p n f m = (\<lambda>a. if a - p < n then f (a - p) else m a)"

lemma with_block_0 [simp]: "with_block p 0 f m = m"
  by (simp add: with_block_def)

text \<open>One more byte at the end, or at the front of what a downward loop has written.\<close>

lemma less_Suc_word: "i < n \<Longrightarrow> x < i + 1 \<longleftrightarrow> x < i \<or> x = i" for i n x :: u64
  by (auto simp: word_less_nat_alt unat_Suc_below word_unat_eq_iff)

lemma with_block_extend:
  "i < n \<Longrightarrow> (with_block p i f m)(p + i := f i) = with_block p (i + 1) f m"
  by (rule ext) (auto simp: with_block_def less_Suc_word)

lemma memset_loop_block:
  "i \<le> n \<Longrightarrow> memset_loop s c i n (with_block s i (\<lambda>_. ucast c) m) = with_block s n (\<lambda>_. ucast c) m"
proof (induction "unat n - unat i" arbitrary: i)
  case 0
  then have "i = n" by (simp add: word_le_nat_alt word_unat_eq_iff)
  then show ?case by (simp add: memset_loop.simps)
next
  case (Suc k)
  then have "i < n" by (simp add: word_less_nat_alt)
  with Suc have "k = unat n - unat (i + 1)" "i + 1 \<le> n"
    by (simp_all add: unat_Suc_below word_le_nat_alt word_less_nat_alt)
  from Suc.hyps(1) [OF this] \<open>i < n\<close> show ?case
    by (subst memset_loop.simps) (simp add: with_block_extend [where f = "\<lambda>_. ucast c"])
qed

text \<open>A block that does not wrap around the address space.\<close>

abbreviation fits :: "u64 \<Rightarrow> u64 \<Rightarrow> bool" where
  "fits p n \<equiv> unat p + unat n \<le> 2 ^ 64"

text \<open>The upward loop reads ahead of what it has written when the source is not below the target.\<close>

lemma copy_up_block:
  assumes "dest \<le> src \<or> unat src + unat n \<le> unat dest" "fits src n" "fits dest n"
  shows "i \<le> n \<Longrightarrow> copy_up dest src i n (with_block dest i (\<lambda>j. m (src + j)) m) = with_block dest n (\<lambda>j. m (src + j)) m"
proof (induction "unat n - unat i" arbitrary: i)
  case 0
  then have "i = n" by (simp add: word_le_nat_alt word_unat_eq_iff)
  then show ?case by (simp add: copy_up.simps)
next
  case (Suc k)
  then have i: "i < n" by (simp add: word_less_nat_alt)
  with Suc have "k = unat n - unat (i + 1)" "i + 1 \<le> n"
    by (simp_all add: unat_Suc_below word_le_nat_alt word_less_nat_alt)
  note IH = Suc.hyps(1) [OF this]
  have "\<not> src + i - dest < i"
    using assms i by (simp add: word_less_nat_alt word_le_nat_alt unat_sub_if' unat_plus_if') arith
  then have "with_block dest i (\<lambda>j. m (src + j)) m (src + i) = m (src + i)"
    by (simp add: with_block_def)
  with IH i show ?case
    by (subst copy_up.simps) (simp add: with_block_extend [where f = "\<lambda>j. m (src + j)"])
qed

text \<open>The downward loop reads below what it has written when the source is below the target.\<close>

definition with_tail :: "u64 \<Rightarrow> u64 \<Rightarrow> u64 \<Rightarrow> (u64 \<Rightarrow> u8) \<Rightarrow> memory \<Rightarrow> memory" where
  "with_tail p i n f m = (\<lambda>a. if i \<le> a - p \<and> a - p < n then f (a - p) else m a)"

lemma copy_down_block:
  assumes "src < dest" "fits dest n"
  shows "i \<le> n \<Longrightarrow> copy_down dest src i (with_tail dest i n (\<lambda>j. m (src + j)) m) = with_block dest n (\<lambda>j. m (src + j)) m"
proof (induction "unat i" arbitrary: i)
  case 0
  then have "i = 0" by (simp add: unat_eq_zero)
  then show ?case by (simp add: copy_down.simps with_tail_def with_block_def)
next
  case (Suc k)
  define j where "j = i - 1"
  have i: "0 < i" using Suc.hyps(2) by (simp add: word_less_nat_alt)
  have j: "unat j = k" "j < n" "i = j + 1" using Suc.hyps(2) Suc.prems i
    by (simp_all add: j_def word_less_nat_alt word_le_nat_alt unat_sub_if')
  have "\<not> (i \<le> src + j - dest \<and> src + j - dest < n)"
    using assms j by (simp add: word_less_nat_alt word_le_nat_alt unat_sub_if' unat_plus_if') arith
  then have "with_tail dest i n (\<lambda>j. m (src + j)) m (src + j) = m (src + j)"
    by (simp only: with_tail_def if_False)
  moreover have "(with_tail dest i n (\<lambda>j. m (src + j)) m)(dest + j := m (src + j)) = with_tail dest j n (\<lambda>j. m (src + j)) m"
  proof (rule ext)
    fix a
    have "i \<le> a - dest \<longleftrightarrow> j < a - dest" using less_Suc_word [OF j(2), of "a - dest"] by (auto simp: j(3) not_less [symmetric])
    then show "((with_tail dest i n (\<lambda>j. m (src + j)) m)(dest + j := m (src + j))) a = with_tail dest j n (\<lambda>j. m (src + j)) m a"
      using j(2) by (cases "a - dest = j") (auto simp: with_tail_def le_less)
  qed
  ultimately show ?case
    using i Suc.hyps(1) [of j] j by (subst copy_down.simps) (simp add: j_def [symmetric] Let_def)
qed

text \<open>\<open>memcmp\<close> as a comparison of byte strings.\<close>

fun first_difference :: "u8 list \<Rightarrow> u8 list \<Rightarrow> int" where
  "first_difference (a # as) (b # bs) = (if a \<noteq> b then uint a - uint b else first_difference as bs)"
| "first_difference _ _ = 0"

lemma first_difference_zero: "length xs = length ys \<Longrightarrow> first_difference xs ys = 0 \<longleftrightarrow> xs = ys"
  by (induction xs ys rule: list_induct2) (auto simp: word_uint_eq_iff)

lemma first_difference_less:
  "length xs = length ys \<Longrightarrow> first_difference xs ys < 0 \<longleftrightarrow> (xs, ys) \<in> lexord {(a, b). a < b}"
  by (induction xs ys rule: list_induct2) (auto simp: word_less_def)

lemma sint_byte_difference: "sint (ucast a - ucast b :: u32) = uint a - uint b" for a b :: u8
proof -
  have a: "uint a < 256" "uint b < 256" "0 \<le> uint a" "0 \<le> uint b"
    using uint_bounded [of a] uint_bounded [of b] by simp_all
  have b: "- 2147483648 \<le> uint a - uint b" "uint a - uint b < 2147483648" using a by linarith+
  have "(ucast a - ucast b :: u32) = word_of_int (uint a - uint b)"
    by (simp only: of_int_diff of_int_uint)
  then have "sint (ucast a - ucast b :: u32) = signed_take_bit (LENGTH(32) - 1) (uint a - uint b)"
    by (simp only: signed_of_int of_int_eq_id id_apply One_nat_def)
  also have "\<dots> = uint a - uint b" using b by (intro signed_take_bit_int_eq_self) simp_all
  finally show ?thesis .
qed

lemma sint_eq_0: "sint w = 0 \<longleftrightarrow> w = 0" for w :: "'a::len word"
proof
  assume "sint w = 0"
  have "w = of_int (sint w)" by simp
  then show "w = 0" unfolding \<open>sint w = 0\<close> by simp
qed simp

lemma memcmp_loop_block:
  "i \<le> n \<Longrightarrow> sint (memcmp_loop s1 s2 i n m) =
     first_difference (map (\<lambda>j. m (s1 + of_nat j)) [unat i..<unat n]) (map (\<lambda>j. m (s2 + of_nat j)) [unat i..<unat n])"
proof (induction "unat n - unat i" arbitrary: i)
  case 0
  then have "i = n" by (simp add: word_le_nat_alt word_unat_eq_iff)
  then show ?case by (simp add: memcmp_loop.simps)
next
  case (Suc k)
  then have "i < n" by (simp add: word_less_nat_alt)
  with Suc have "k = unat n - unat (i + 1)" "i + 1 \<le> n"
    by (simp_all add: unat_Suc_below word_le_nat_alt word_less_nat_alt)
  note IH = Suc.hyps(1) [OF this]
  have "[unat i..<unat n] = unat i # [Suc (unat i)..<unat n]"
    using \<open>i < n\<close> by (simp add: upt_rec word_less_nat_alt)
  with IH \<open>i < n\<close> show ?case
    by (subst memcmp_loop.simps) (simp add: Let_def sint_byte_difference unat_Suc_below)
qed

section \<open>Properties\<close>

text \<open>
  C12. \<^verbatim>\<open>memmove\<close> copies as if the whole source were read before anything is written, whether the
  two blocks overlap or not and in whichever direction: the target block holds the old bytes of the
  source block, and no other byte changes.
\<close>

theorem memmove_simultaneous_copy:
  assumes "fits src n" and "fits dest n"
  shows "memmove dest src n m = (dest, with_block dest n (\<lambda>j. m (src + j)) m)"
proof (cases "src < dest")
  case True
  have "with_tail dest n n (\<lambda>j. m (src + j)) m = m" by (rule ext) (auto simp: with_tail_def)
  then show ?thesis
    using copy_down_block [OF True assms(2), of n m] True by (simp add: memmove_def)
next
  case False
  then show ?thesis
    using copy_up_block [OF disjI1 assms, of 0 m] by (simp add: memmove_def)
qed

theorem memmove_simultaneous_copy_witness:
  "snd (memmove 0x1002 0x1000 4 (\<lambda>a. ucast a)) 0x1005 = 3 \<and> snd (memmove 0x1000 0x1002 4 (\<lambda>a. ucast a)) 0x1003 = 5"
proof -
  have "memmove 0x1002 0x1000 4 (\<lambda>a. ucast a) = (0x1002, with_block 0x1002 4 (\<lambda>j. ucast (0x1000 + j :: u64)) (\<lambda>a. ucast a))"
    "memmove 0x1000 0x1002 4 (\<lambda>a. ucast a) = (0x1000, with_block 0x1000 4 (\<lambda>j. ucast (0x1002 + j :: u64)) (\<lambda>a. ucast a))"
    by (rule memmove_simultaneous_copy; simp)+
  then show ?thesis by (simp add: with_block_def)
qed

text \<open>
  \<^verbatim>\<open>memcmp\<close> and \<^verbatim>\<open>bcmp\<close> compare the two blocks as byte strings: the result is zero exactly when they
  are equal and negative exactly when the first is lexicographically smaller.
\<close>

theorem memcmp_compares_lexicographically:
  "(memcmp s1 s2 n m = 0 \<longleftrightarrow> block s1 n m = block s2 n m) \<and>
   (sint (memcmp s1 s2 n m) < 0 \<longleftrightarrow> (block s1 n m, block s2 n m) \<in> lexord {(a, b). a < b}) \<and>
   bcmp s1 s2 n m = memcmp s1 s2 n m"
proof -
  have "sint (memcmp s1 s2 n m) = first_difference (block s1 n m) (block s2 n m)"
    using memcmp_loop_block [of 0 n s1 s2 m] by (simp add: memcmp_def block_def)
  moreover have "length (block s1 n m) = length (block s2 n m)" by (simp add: block_def)
  moreover have "memcmp s1 s2 n m = 0 \<longleftrightarrow> sint (memcmp s1 s2 n m) = 0" by (simp only: sint_eq_0)
  ultimately show ?thesis
    by (simp add: first_difference_zero first_difference_less bcmp_def)
qed

text \<open>What \<^verbatim>\<open>memcpy\<close> and \<^verbatim>\<open>memset\<close> do; \<^verbatim>\<open>memcpy\<close> needs a target that is not inside the source.\<close>

lemma memcpy_copies:
  assumes "fits src n" "fits dest n" "dest \<le> src \<or> unat src + unat n \<le> unat dest"
  shows "memcpy dest src n m = (dest, with_block dest n (\<lambda>j. m (src + j)) m)"
  using copy_up_block [OF assms(3,1,2), of 0 m] by (simp add: memcpy_def)

lemma memset_fills: "memset s c n m = (s, with_block s n (\<lambda>_. ucast c) m)"
  using memset_loop_block [of 0 n s c m] by (simp add: memset_def)

end
