(* ===== verification/Exceptions.thy ===== *)
theory Exceptions
  imports Smp
begin

text \<open>
  How the processor reaches the handlers: the task state segment of \<^verbatim>\<open>stardust/src/arch/x86_64/gdt.rs\<close>, the
  stack index of the double fault gate in \<^verbatim>\<open>arch/x86_64/idt.rs\<close>, and the hardware sequence that delivers an
  exception or interrupt through them.

  Delivery switches the stack when the gate has a stack index or the interrupted code runs in ring 3;
  the new stack comes from the task state segment, so this needs a loaded task register.  Theory \<open>Smp\<close>
  knows which core has loaded one.  The two stacks are static arrays: their addresses are arguments, as
  is the segment that \<open>TaskStateSegment::new\<close> of the \<^verbatim>\<open>x86_64\<close> crate returns.
\<close>

section \<open>Model: the task state segment\<close>

record task_state_segment =
  interrupt_stack_table :: "u64 list"
  privilege_stack_table :: "u64 list"

definition DOUBLE_FAULT_IST_INDEX :: nat where "DOUBLE_FAULT_IST_INDEX = 0"

definition STACK_SIZE :: u64 where "STACK_SIZE = 4096 * 5"

text \<open>\<open>VirtAddr::from_ptr(&raw const STACK) + STACK_SIZE\<close>\<close>

definition stack_top :: "('pt, 'p) platform_scheme \<Rightarrow> u64 \<Rightarrow> u64 res" where
  "stack_top P stack =
     bindE (addressE stack (virt_addr P stack)) (\<lambda>stack_start.
     addressE stack (virt_addr_add P stack_start STACK_SIZE))"

definition TSS :: "('pt, 'p) platform_scheme \<Rightarrow> task_state_segment \<Rightarrow> u64 \<Rightarrow> u64 \<Rightarrow> task_state_segment res" where
  "TSS P new fault_stack ring0_stack =
     (let t = new in
      bindE (stack_top P fault_stack) (\<lambda>top1.
      let t = t\<lparr>interrupt_stack_table := (interrupt_stack_table t)[DOUBLE_FAULT_IST_INDEX := top1]\<rparr> in
      bindE (stack_top P ring0_stack) (\<lambda>top2.
      let t = t\<lparr>privilege_stack_table := (privilege_stack_table t)[0 := top2]\<rparr> in
      Inr t)))"

section \<open>Model: delivery by the processor\<close>

text \<open>
  What delivery depends on besides the core: the image with its interrupt table, the code selector and
  addresses of the handlers, the segment, and how the processor fails when it needs a stack and no task
  register was loaded.  With the reset value of that register it reads the segment at address 0: that is
  an invalid segment or a page fault.
\<close>

datatype no_tss = Invalid_Tss | Unmapped_Tss

fun no_tss_vector :: "no_tss \<Rightarrow> nat" where
  "no_tss_vector Invalid_Tss = 10"
| "no_tss_vector Unmapped_Tss = 14"

record delivery =
  d_image :: image
  d_code :: u16
  d_address :: "handler \<Rightarrow> u64"
  d_tss :: task_state_segment
  d_no_tss :: no_tss

text \<open>\<open>set_stack_index\<close> is called for the double fault gate only.\<close>

fun stack_index :: "handler \<Rightarrow> nat option" where
  "stack_index Double_Fault_Handler = Some DOUBLE_FAULT_IST_INDEX"
| "stack_index _ = None"

definition ring3 :: "core \<Rightarrow> bool" where
  "ring3 c \<longleftrightarrow> cs c AND 3 = 3"

definition new_stack :: "delivery \<Rightarrow> handler \<Rightarrow> core \<Rightarrow> u64 option" where
  "new_stack D h c =
     (case stack_index h of
        Some i \<Rightarrow> if tr c = None then None else Some (interrupt_stack_table (d_tss D) ! i)
      | None \<Rightarrow>
          if ring3 c then if tr c = None then None else Some (privilege_stack_table (d_tss D) ! 0)
          else Some (regs c RSP))"

definition has_error_code :: "nat \<Rightarrow> bool" where
  "has_error_code v \<longleftrightarrow> v \<in> {8, 10, 11, 12, 13, 14}"

text \<open>
  The frame on the new stack, aligned to 16 bytes, and the entry through an interrupt gate, which clears
  the interrupt flag.
\<close>

definition enter_handler :: "delivery \<Rightarrow> nat \<Rightarrow> u64 \<Rightarrow> handler \<Rightarrow> u64 \<Rightarrow> core \<Rightarrow> core" where
  "enter_handler D v err h sp c =
     (let f = c\<lparr>regs := (regs c)(RSP := sp AND NOT 0xF)\<rparr>;
          f = push_value (ucast (ss c)) f;
          f = push_value (regs c RSP) f;
          f = push_value (rflags c) f;
          f = push_value (ucast (cs c)) f;
          f = push_value (rip c) f;
          f = (if has_error_code v then push_value err f else f)
      in f\<lparr>cs := d_code D, ss := (if ring3 c then 0 else ss c), rflags := clear_bit_of IF_bit (rflags c), rip := d_address D h\<rparr>)"

text \<open>One attempt: the handler and the core in it, or the vector of the fault that delivery itself causes.\<close>

definition deliver_once :: "delivery \<Rightarrow> nat \<Rightarrow> u64 \<Rightarrow> core \<Rightarrow> nat + handler \<times> core" where
  "deliver_once D v err c =
     (if idtr c \<noteq> idt_image (d_image D) then Inl 13
      else case IDT v of
          None \<Rightarrow> Inl 11
        | Some h \<Rightarrow>
            (case new_stack D h c of
               None \<Rightarrow> Inl (no_tss_vector (d_no_tss D))
             | Some sp \<Rightarrow> Inr (h, enter_handler D v err h sp c)))"

text \<open>Which pairs of faults are a double fault; other pairs are handled one after the other.\<close>

definition contributory :: "nat \<Rightarrow> bool" where
  "contributory v \<longleftrightarrow> v \<in> {0, 10, 11, 12, 13}"

definition double_fault :: "nat \<Rightarrow> nat \<Rightarrow> bool" where
  "double_fault v w \<longleftrightarrow> contributory v \<and> contributory w \<or> v = 14 \<and> (contributory w \<or> w = 14)"

text \<open>Delivery with its nested faults; \<open>None\<close> is the shutdown after a fault in the delivery of a double fault.\<close>

lemma deliver_once_fault:
  assumes "deliver_once D v err c = Inl w"
  shows "w = 14 \<or> contributory w"
proof (cases "d_no_tss D")
  case Invalid_Tss
  with assms show ?thesis by (auto simp: deliver_once_def contributory_def split: if_splits option.splits)
next
  case Unmapped_Tss
  with assms show ?thesis by (auto simp: deliver_once_def contributory_def split: if_splits option.splits)
qed

definition fault_rank :: "nat \<Rightarrow> nat" where
  "fault_rank v = (if v = 8 then 0 else if v = 14 then 1 else if contributory v then 2 else 3)"

function raise_vector :: "delivery \<Rightarrow> nat \<Rightarrow> u64 \<Rightarrow> core \<Rightarrow> (handler \<times> core) option" where
  "raise_vector D v err c =
     (case deliver_once D v err c of
        Inr r \<Rightarrow> Some r
      | Inl w \<Rightarrow> if v = 8 then None else if double_fault v w then raise_vector D 8 0 c else raise_vector D w 0 c)"
  by pat_completeness auto
termination
proof (relation "measure (\<lambda>(D, v, err, c). fault_rank v)", goal_cases)
  case (2 D v err c w)
  then show ?case by (simp add: fault_rank_def contributory_def)
next
  case (3 D v err c w)
  from deliver_once_fault [OF 3(1)] 3(2,3) show ?case
    by (auto simp: fault_rank_def double_fault_def contributory_def)
qed simp

declare raise_vector.simps [simp del]

text \<open>
  The whole path: delivery, the handler of theory \<open>Interrupts\<close> (compiled with the interrupt calling
  convention, which restores every register) and the return by \<^verbatim>\<open>iretq\<close>.
\<close>

datatype 'm outcome = Resumed 'm | Stopped 'm | Machine_Reset

definition take_interrupt :: "('pt, 'dev) hw_platform \<Rightarrow> delivery \<Rightarrow> nat \<Rightarrow> u64 \<Rightarrow> u64 \<Rightarrow> ('pt, 'dev) machine \<Rightarrow>
    ('pt, 'dev) machine outcome res" where
  "take_interrupt P D v err cr2 m =
     (case raise_vector D v err (cpu m) of
        None \<Rightarrow> Inr Machine_Reset
      | Some (h, c) \<Rightarrow>
          bindE (run_handler P cr2 (ring3 (cpu m)) h (m\<lparr>cpu := c\<rparr>)) (\<lambda>fl.
          case fl of
            Resume m \<Rightarrow> Inr (Resumed (m\<lparr>cpu := iretq (cpu m)\<rparr>))
          | Halted m \<Rightarrow> Inr (Stopped m)))"


section \<open>Delivery\<close>

lemma deliver_without_tss:
  assumes "ring3 c" "tr c = None"
  shows "\<exists>w. deliver_once D v err c = Inl w"
  using assms by (auto simp: deliver_once_def new_stack_def split: option.split)

lemma raise_without_tss: "ring3 c \<Longrightarrow> tr c = None \<Longrightarrow> raise_vector D v err c = None"
proof (induction D v err c rule: raise_vector.induct)
  case (1 D v err c)
  from deliver_without_tss [OF 1(3,4)] obtain w where "deliver_once D v err c = Inl w" by blast
  with 1 show ?case by (simp add: raise_vector.simps [of D v])
qed

lemma raise_in_table:
  assumes "idtr c = idt_image (d_image D)" "IDT v = Some h" "new_stack D h c = Some sp"
  shows "raise_vector D v err c = Some (h, enter_handler D v err h sp c)"
  using assms by (simp add: raise_vector.simps [of D v] deliver_once_def)

lemma ucast_selector: "(ucast (ucast (x :: u16) :: u64) :: u16) = x"
  by (rule bit_word_eqI) (simp add: bit_simps)

text \<open>The frame of a vector without error code is the one that \<^verbatim>\<open>iretq\<close> removes.\<close>

lemma iretq_enter_handler:
  assumes "\<not> has_error_code v"
  shows "iretq (enter_handler D v err h sp c) = c\<lparr>mem := mem (enter_handler D v err h sp c)\<rparr>"
  using assms
  by (cases c) (simp add: enter_handler_def iretq_def instr_simps load64_store64_apart ucast_selector)

lemma enter_handler_mem:
  assumes "\<not> has_error_code v" "40 \<le> unat (x - ((sp AND NOT 0xF) - 40))"
  shows "mem (enter_handler D v err h sp c) x = mem c x"
proof -
  let ?b = "sp AND NOT 0xF"
  have "8 \<le> unat (x - (?b - 40))" "8 \<le> unat (x - (?b - 32))" "8 \<le> unat (x - (?b - 24))"
    "8 \<le> unat (x - (?b - 16))" "8 \<le> unat (x - (?b - 8))"
    using assms(2) outside_cell [of 40 x ?b 32] outside_cell [of 40 x ?b 24]
      outside_cell [of 40 x ?b 16] outside_cell [of 40 x ?b 8] by simp_all
  then show ?thesis using assms(1) by (simp add: enter_handler_def instr_simps store64_outside)
qed

lemma iretq_CR0: "iretq (c\<lparr>CR0 := x\<rparr>) = (iretq c)\<lparr>CR0 := x\<rparr>"
  by (cases c) (simp add: iretq_def instr_simps)

lemma enter_handler_fields [simp]:
  "MSR (enter_handler D v err h sp c) = MSR c" "CR0 (enter_handler D v err h sp c) = CR0 c"
  "cs (enter_handler D v err h sp c) = d_code D" "rip (enter_handler D v err h sp c) = d_address D h"
  by (simp_all add: enter_handler_def instr_simps)

text \<open>Handlers that return leave the core alone, but for the lazy FPU bit.\<close>

lemma resuming_handler_cpu:
  assumes "run_handler P cr2 user h m = Inr (Resume m')"
  shows "cpu m' = (if h = Device_Not_Available_Handler then clear_task_switched (cpu m) else cpu m)"
  using assms
  by (cases h)
    (auto simp: breakpoint_handler_def double_fault_handler_def gpf_handler_def page_fault_handler_def
      device_not_available_handler_def invalid_opcode_handler_def timer_interrupt_handler_def
      tlb_shootdown_handler_def generic_irq_handler_33_def spurious_handler_def end_of_interrupt_def apic_write_def
      write_volatile_def res_simps Let_def split: if_splits)

section \<open>Which core has a task state segment\<close>

fun ap_core :: "ap_pc \<Rightarrow> (u32 \<times> core) option" where
  "ap_core (Initialized n c) = Some (n, c)"
| "ap_core (Announced n c) = Some (n, c)"
| "ap_core (Working n c) = Some (n, c)"
| "ap_core (Halted_Core n c) = Some (n, c)"
| "ap_core (In_User n c ep sp) = Some (n, c)"
| "ap_core _ = None"

definition task_register :: "('pt, 'dev) boot_info \<Rightarrow> u32 \<Rightarrow> u16 option" where
  "task_register B n = (if n = 1 then Some (tss (sel_of B)) else tr (reset_core B))"

lemma configure_msrs_tr: "configure_msrs img sel c = Inr c' \<Longrightarrow> tr c' = tr c"
  by (auto simp: configure_msrs_def write_msr_def res_simps Let_def)

lemma apic_write_cpu: "apic_write r v m = Inr m' \<Longrightarrow> cpu m' = cpu m"
  by (auto simp: apic_write_def write_volatile_def res_simps split: if_splits)

lemma ap_init_tr: "ap_init B n = Inr (c, ws) \<Longrightarrow> tr c = task_register B n"
  by (auto simp: ap_init_def init_ap_hardware_def apic_init_ap_def setup_apic_registers_def enable_pcid_ap_def idt_init_def
      gdt_init_ap_def task_register_def res_simps Let_def dest!: configure_msrs_tr apic_write_cpu)

lemma worker_setup_tr: "worker_setup img sel idt c = Inr c' \<Longrightarrow> tr c' = tr c"
  by (auto simp: worker_setup_def cli_def clear_task_switched_def write_msr_def res_simps Let_def dest!: configure_msrs_tr)

lemma drop_to_user_mode_tr: "tr (drop_to_user_mode e sp c) = tr c"
  by (simp add: drop_to_user_mode_def iretq_def instr_simps cli_def set_task_switched_def)

lemma task_register_step:
  assumes "smp_step B s t" "ap_core (ap t j) = Some (m, d)"
    and IH: "\<And>i n c. ap_core (ap s i) = Some (n, c) \<Longrightarrow> tr c = task_register B n"
  shows "tr d = task_register B m"
  using assms(1)
proof (cases rule: smp_step.cases)
  case (initialize i n c ws)
  then show ?thesis using assms(2) IH [of j] ap_init_tr by (auto split: if_splits)
next
  case (announce i n c)
  then show ?thesis using assms(2) IH [of j] IH [of i n c] by (auto simp: cli_def split: if_splits)
next
  case (become_worker i n c p)
  then obtain c' where c': "worker_setup (image_of B) (sel_of B) (GLOBAL_IDTR s) c = Inr c'"
    "p = (if n > 3 then Halted_Core n c' else Working n c')" using lock_ap_as_workerE by metis
  have "ap_core p = Some (n, c')" using c'(2) by simp
  then show ?thesis using become_worker(1,2) assms(2) IH [of j] IH [of i n c] worker_setup_tr [OF c'(1)]
    by (auto split: if_splits)
next
  case (work i n c p q)
  obtain c' where "ap_core p = Some (n, c')" "tr c' = tr c"
    using work(3) by (cases rule: worker_iterationE) (simp_all add: drop_to_user_mode_tr)
  then show ?thesis using work(1,2) assms(2) IH [of j] IH [of i n c] by (auto split: if_splits)
qed (use assms(2) IH [of j] in \<open>auto split: if_splits\<close>)

lemma task_register_reach:
  assumes "smp_reach B s" "ap_core (ap s i) = Some (n, c)"
  shows "tr c = task_register B n"
  using assms
proof (induction arbitrary: i n c rule: smp_reach.induct)
  case start
  then show ?case by (simp add: smp_start_def)
next
  case (step s t)
  show ?case by (rule task_register_step [OF step.hyps(2) step.prems step.IH])
qed

lemma user_core_ring3:
  "smp_reach B s \<Longrightarrow> ap s i = In_User n c ep sp \<Longrightarrow> cs c = 0x23"
proof (induction arbitrary: i n c ep sp rule: smp_reach.induct)
  case start
  then show ?case by (simp add: smp_start_def)
next
  case (step s t)
  note IH = step.IH
  from step.hyps(2) step.prems show ?case
    by (cases rule: smp_step.cases)
      (auto simp: drop_to_user_mode_core split: if_splits elim!: lock_ap_as_workerE worker_iterationE dest: IH)
qed

lemma user_core_lazy_fpu:
  assumes "smp_reach B s" "ap s i = In_User n c ep sp"
  shows "bit (CR0 c) TS_bit"
  using assms
proof (induction arbitrary: i n c ep sp rule: smp_reach.induct)
  case start
  then show ?case by (simp add: smp_start_def)
next
  case (step s t)
  note IH = step.IH
  from step.hyps(2) step.prems show ?case
    by (cases rule: smp_step.cases)
      (auto simp: drop_to_user_mode_core set_bit_of_def bit_simps split: if_splits
        elim!: lock_ap_as_workerE worker_iterationE dest: IH)
qed

lemma new_stack_loaded:
  assumes "tr c \<noteq> None" "ring3 c"
  shows "new_stack D h c = Some (if h = Double_Fault_Handler then interrupt_stack_table (d_tss D) ! 0
    else privilege_stack_table (d_tss D) ! 0)"
  using assms by (cases h) (auto simp: new_stack_def DOUBLE_FAULT_IST_INDEX_def)

lemma new_stack_device:
  assumes "ring3 c \<longrightarrow> tr c \<noteq> None" "h \<noteq> Double_Fault_Handler"
  shows "new_stack D h c = Some (if ring3 c then privilege_stack_table (d_tss D) ! 0 else regs c RSP)"
  using assms by (cases h) (auto simp: new_stack_def)

section \<open>The stacks of the segment\<close>

lemma TSS_stacks:
  assumes "TSS P new fs rs = Inr t" "length (privilege_stack_table new) = 3"
    and "virt_addr P rs = Some rs" "virt_addr_add P rs STACK_SIZE = Some (rs + STACK_SIZE)"
  shows "privilege_stack_table t ! 0 = rs + STACK_SIZE"
  using assms by (auto simp: TSS_def stack_top_def Let_def res_simps)

text \<open>The frame lies in the array, wherever the linker put it: it need not be aligned.\<close>

lemma frame_in_stack:
  fixes rs x :: u64
  assumes "unat rs + 20480 < 2 ^ 64" "\<not> (unat rs \<le> unat x \<and> unat x < unat rs + 20480)"
  shows "40 \<le> unat (x - (((rs + STACK_SIZE) AND NOT 0xF) - 40))"
proof -
  let ?t = "rs + STACK_SIZE"
  have t: "unat ?t = unat rs + 20480"
    using assms(1) unat_add_no_overflow [of rs "STACK_SIZE"] by (simp add: STACK_SIZE_def)
  define b where "b = (?t AND NOT 0xF)"
  have b: "unat b = unat ?t div 16 * 16"
    using unat_and_not_mask [of ?t 4] by (simp add: b_def mask_eq_exp_minus_1)
  then have b': "unat b \<le> unat rs + 20480" "unat rs + 20464 < unat b" "unat b < 2 ^ 64" using t assms(1) by linarith+
  then have d: "unat (b - 40) = unat b - 40" by (simp add: unat_sub_if')
  show ?thesis
    using assms b' d unfolding b_def [symmetric] by (auto simp: unat_sub_if' [of x "b - 40"])
qed

section \<open>A run with three cores\<close>

text \<open>The third core has logical id 2 and dispatches the first process.\<close>

definition three_cores :: "bsp_pc \<Rightarrow> ap_pc \<Rightarrow> ap_pc \<Rightarrow> u64 \<Rightarrow> u64 \<Rightarrow> u8 list \<Rightarrow> scheduler \<Rightarrow> (nat \<times> u64 \<times> u32) list \<Rightarrow> smp" where
  "three_cores b p p' lcc rc idt q w =
     \<lparr>bsp = b, ap = (\<lambda>_. Parked)(1 := p, 2 := p'), LOGICAL_CORE_COUNT = lcc, AP_READY_COUNT = rc, GLOBAL_IDTR = idt,
      sched = q, apic_bus = w\<rparr>"

lemma three_core_run:
  assumes "lapic_ids B = [b, a, a']" "a \<noteq> b" "a' \<noteq> b" "bsp_lapic_id B = b" "8 \<le> user_data (sel_of B)" "lapic_ok B"
  shows "\<exists>s c. smp_reach B s \<and> ap s 2 = In_User 2 c (god_entry_point B) god_stack \<and> idtr c = idt_image (image_of B)"
proof -
  let ?z = "replicate 10 (0::u8)" and ?R = "smp_reach B" and ?I = "idt_image (image_of B)"
  obtain c1 ws1 where c1: "ap_init B 1 = Inr (c1, ws1)" using ap_init_ok [OF assms(5,6)] by blast
  obtain c2 ws2 where c2: "ap_init B 2 = Inr (c2, ws2)" using ap_init_ok [OF assms(5,6)] by blast
  let ?w1 = "map (Pair (1 :: nat)) ws1" and ?w2 = "map (Pair (1 :: nat)) ws1 @ map (Pair (2 :: nat)) ws2"
  obtain c3 where c3: "worker_setup (image_of B) (sel_of B) ?I (cli c2) = Inr c3" "idtr c3 = ?I"
    using worker_setup_ok [OF assms(5)] by blast
  obtain r q q' where q: "spawn_thread 0 god_stack (god_entry_point B) scheduler_new = Inr (r, q)"
    and q': "pop_ready_thread q = (Some (god_entry_point B, god_stack), q')"
    using spawn_then_pop by blast
  have swap: "f(2 := y, Suc 0 := x) = f(Suc 0 := x, 2 := y)" for f :: "nat \<Rightarrow> ap_pc" and x y by (simp add: fun_upd_twist)
  note to = smp_reach_to and S = three_cores_def swap fun_upd_idem
  have "?R (three_cores (Waking 1) Parked Parked 1 0 ?z scheduler_new [])"
    by (rule to [OF smp_reach.start smp_step.wake_self [where i = 0]]) (use assms in \<open>simp_all add: smp_start_def S\<close>)
  then have "?R (three_cores (Waking 2) Entered Parked 1 0 ?z scheduler_new [])"
    by (rule to [OF _ smp_step.wake [where i = 1]]) (use assms in \<open>simp_all add: S\<close>)
  then have "?R (three_cores (Waking 3) Entered Entered 1 0 ?z scheduler_new [])"
    by (rule to [OF _ smp_step.wake [where i = 2]]) (use assms in \<open>simp_all add: S\<close>)
  then have "?R (three_cores Barrier Entered Entered 1 0 ?z scheduler_new [])"
    by (rule to [OF _ smp_step.woken [where i = 3]]) (use assms in \<open>simp_all add: S\<close>)
  then have "?R (three_cores Barrier (Numbered 1) Entered 2 0 ?z scheduler_new [])"
    by (rule to [OF _ smp_step.take_id [where i = 1]]) (simp_all add: S)
  then have "?R (three_cores Barrier (Numbered 1) (Numbered 2) 3 0 ?z scheduler_new [])"
    by (rule to [OF _ smp_step.take_id [where i = 2]]) (simp_all add: S)
  then have "?R (three_cores Barrier (Initialized 1 c1) (Numbered 2) 3 0 ?z scheduler_new ?w1)"
    by (rule to [OF _ smp_step.initialize [where i = 1, OF _ c1]]) (simp_all add: S)
  then have "?R (three_cores Barrier (Initialized 1 c1) (Initialized 2 c2) 3 0 ?z scheduler_new ?w2)"
    by (rule to [OF _ smp_step.initialize [where i = 2, OF _ c2]]) (simp_all add: S)
  then have "?R (three_cores Barrier (Announced 1 (cli c1)) (Initialized 2 c2) 3 1 ?z scheduler_new ?w2)"
    by (rule to [OF _ smp_step.announce [where i = 1]]) (simp_all add: S)
  then have "?R (three_cores Barrier (Announced 1 (cli c1)) (Announced 2 (cli c2)) 3 2 ?z scheduler_new ?w2)"
    by (rule to [OF _ smp_step.announce [where i = 2]]) (simp_all add: S)
  then have "?R (three_cores Loading (Announced 1 (cli c1)) (Announced 2 (cli c2)) 3 2 ?z scheduler_new ?w2)"
    by (rule to [OF _ smp_step.barrier]) (use assms in \<open>simp_all add: S\<close>)
  then have "?R (three_cores Idt_Saved (Announced 1 (cli c1)) (Announced 2 (cli c2)) 3 2 ?I scheduler_new ?w2)"
    by (rule to [OF _ smp_step.sidt]) (simp_all add: S)
  then have "?R (three_cores Idt_Saved (Announced 1 (cli c1)) (Working 2 c3) 3 2 ?I scheduler_new ?w2)"
    by (rule to [OF _ smp_step.become_worker [where i = 2 and n = 2 and c = "cli c2" and p = "Working 2 c3"]])
      (simp_all add: S lock_ap_as_worker_def c3(1) word_less_nat_alt)
  then have "?R (three_cores Supervising (Announced 1 (cli c1)) (Working 2 c3) 3 2 ?I q ?w2)"
    by (rule to [OF _ smp_step.spawn_god]) (simp_all add: S q)
  then have "?R (three_cores Supervising (Announced 1 (cli c1)) (In_User 2 (drop_to_user_mode (god_entry_point B) god_stack c3)
      (god_entry_point B) god_stack) 3 2 ?I q' ?w2)"
    by (rule to [OF _ smp_step.work [where i = 2 and n = 2 and c = c3 and q = q'
          and p = "In_User 2 (drop_to_user_mode (god_entry_point B) god_stack c3) (god_entry_point B) god_stack"]])
      (simp_all add: S worker_iteration_def q')
  moreover have "idtr (drop_to_user_mode (god_entry_point B) god_stack c3) = ?I"
    using c3(2) by (simp add: drop_to_user_mode_idtr)
  ultimately show ?thesis by (force simp: three_cores_def)
qed

definition three_core_boot :: "(flat_table, (u16 \<times> nat \<times> u32) list) boot_info" where
  "three_core_boot = example_boot\<lparr>lapic_ids := [0, 1, 2]\<rparr>"

lemma example_user_3:
  "\<exists>s c. smp_reach three_core_boot s \<and> ap s 2 = In_User 2 c 0x401000 god_stack \<and> idtr c = idt_image (image_of three_core_boot)"
  using three_core_run [of three_core_boot 0 1 2] example_boot_simps
  by (simp add: three_core_boot_def lapic_ok_def)

definition example_delivery :: delivery where
  "example_delivery =
     \<lparr>d_image = image_of example_boot, d_code = 8, d_address = (\<lambda>_. 0x3000),
      d_tss = \<lparr>interrupt_stack_table = (replicate 7 0)[0 := 0x15000], privilege_stack_table = (replicate 3 0)[0 := 0x25000]\<rparr>,
      d_no_tss = Invalid_Tss\<rparr>"

section \<open>Properties\<close>



text \<open>
  C37. The task state segment is loaded by logical core 1 only.  Whenever user code runs on another worker,
  every exception or interrupt resets the machine, as delivery needs the ring 0 stack of that segment; the
  lazy FPU exception is among them, and the transition to user mode has just armed it.  On core 1 every
  vector of the table enters its handler, in kernel code on a stack of the segment.
\<close>

theorem worker_exception_resets_machine:
  assumes "smp_reach B s" and "ap s i = In_User n c ep sp" and "tr (reset_core B) = None"
    and "cs (cpu m) = cs c" and "tr (cpu m) = tr c"
  shows "bit (CR0 c) TS_bit \<and>
    (if n = 1 then
       idtr (cpu m) = idt_image (d_image D) \<and> IDT v = Some h \<longrightarrow>
       (\<exists>c' top. raise_vector D v err (cpu m) = Some (h, c') \<and> cs c' = d_code D \<and> rip c' = d_address D h \<and>
          c' = enter_handler D v err h top (cpu m) \<and>
          top \<in> {interrupt_stack_table (d_tss D) ! 0, privilege_stack_table (d_tss D) ! 0})
     else take_interrupt P D v err cr2 m = Inr Machine_Reset)"
proof -
  have tr: "tr c = task_register B n" by (rule task_register_reach [OF assms(1), of i]) (simp add: assms(2))
  have r3: "ring3 (cpu m)" using user_core_ring3 [OF assms(1,2)] assms(4) by (simp add: ring3_def)
  have lazy: "bit (CR0 c) TS_bit" by (rule user_core_lazy_fpu [OF assms(1,2)])
  show ?thesis
  proof (cases "n = 1")
    case True
    then have "tr (cpu m) \<noteq> None" using tr assms(5) by (simp add: task_register_def)
    from new_stack_loaded [OF this r3, of D h] show ?thesis
      using True lazy raise_in_table [of "cpu m" D v h] by auto
  next
    case False
    then have "tr (cpu m) = None" using tr assms(3,5) by (simp add: task_register_def)
    from raise_without_tss [OF r3 this] False lazy show ?thesis by (simp add: take_interrupt_def)
  qed
qed

theorem worker_exception_resets_machine_witness:
  "\<exists>s c. smp_reach three_core_boot s \<and> ap s 2 = In_User 2 c 0x401000 god_stack \<and> bit (CR0 c) TS_bit \<and>
     take_interrupt example_hw example_delivery 7 0 0 (example_machine\<lparr>cpu := c\<rparr>) = Inr Machine_Reset"
proof -
  obtain s c where s: "smp_reach three_core_boot s" "ap s 2 = In_User 2 c 0x401000 god_stack"
    using example_user_3 by blast
  have "tr (reset_core three_core_boot) = None"
    by (simp add: three_core_boot_def example_boot_def example_core_def)
  from worker_exception_resets_machine [OF s this, of "example_machine\<lparr>cpu := c\<rparr>" example_delivery 7 _ 0 example_hw 0] s
  show ?thesis by auto
qed

end
