(* ===== verification/Supervisor.thy ===== *)
theory Supervisor
  imports Smp
begin

text \<open>
  Waiting for work: the supervisor loop of \<^verbatim>\<open>stardust/src/task/scheduler.rs\<close> with the instructions
  \<^verbatim>\<open>monitor\<close> and \<^verbatim>\<open>mwait\<close> of \<^verbatim>\<open>arch/x86_64/cpu.rs\<close>, and the kernel's panic handler in \<^verbatim>\<open>main.rs\<close>.

  The loop sleeps while its mailbox is empty.  The test and the sleep are different instructions, so a
  message may arrive between them; the monitor, armed before the test, is what prevents that the
  supervisor sleeps over it.  Core 0 and the cores that post messages run concurrently: the loop is a
  function that executes one instruction group, and \<open>sup_reach\<close> interleaves it with stores to the
  mailbox by other cores and with the events that may end a sleep early.
\<close>

section \<open>Model\<close>

datatype sup_pc =
    At_Monitor
  | At_Test
  | At_Mwait
  | Asleep            \<comment> \<open>in the optimized state that \<^verbatim>\<open>mwait\<close> entered\<close>
  | At_Swap
  | Dispatch u64      \<comment> \<open>with the message taken\<close>

text \<open>
  \<open>armed\<close> is the address-range monitor of the core: set by \<^verbatim>\<open>monitor\<close>, and cleared by a store to the
  range.  \<open>shootdowns\<close> are the calls of \<open>broadcast_tlb_shootdown\<close>, \<open>handled\<close> the messages dispatched.
\<close>

record ('pt, 'dev) supervisor =
  sup_pc :: sup_pc
  armed :: bool
  shootdowns :: "(u64 \<times> u32) list"
  handled :: "u64 list"
  sup_kernel :: "('pt, 'dev) kernel"

abbreviation mailbox :: "('pt, 'dev) supervisor \<Rightarrow> u64" where
  "mailbox v \<equiv> SUPERVISOR_MAILBOX (sup_kernel v)"

definition monitor :: "('pt, 'dev) supervisor \<Rightarrow> ('pt, 'dev) supervisor" where
  "monitor v = v\<lparr>armed := True\<rparr>"

text \<open>\<^verbatim>\<open>mwait\<close> falls through when the monitor is not armed any more.\<close>

definition mwait :: "('pt, 'dev) supervisor \<Rightarrow> ('pt, 'dev) supervisor" where
  "mwait v = (if armed v then v\<lparr>armed := False, sup_pc := Asleep\<rparr> else v\<lparr>sup_pc := At_Swap\<rparr>)"

definition supervisor_message :: "u64 \<Rightarrow> ('pt, 'dev) kernel \<Rightarrow> (u64 \<times> u32) option \<times> ('pt, 'dev) kernel" where
  "supervisor_message msg s =
     (if msg \<noteq> 0 then
        if msg = 1 then (None, say ''[+] CORE 0: Handshake acknowledged.\<newline>'' s)
        else if msg = 2 then (let target_mask = 0b0000 in (Some (0x40001000, target_mask), s))
        else (None, s)
      else (None, s))"

text \<open>One step of the loop; an empty result is a core that sleeps.\<close>

definition supervisor_step :: "('pt, 'dev) supervisor \<Rightarrow> ('pt, 'dev) supervisor option" where
  "supervisor_step v =
     (case sup_pc v of
        At_Monitor \<Rightarrow> Some (monitor (v\<lparr>sup_pc := At_Test\<rparr>))
      | At_Test \<Rightarrow> Some (v\<lparr>sup_pc := (if mailbox v = 0 then At_Mwait else At_Swap)\<rparr>)
      | At_Mwait \<Rightarrow> Some (mwait v)
      | Asleep \<Rightarrow> None
      | At_Swap \<Rightarrow>
          let msg = mailbox v in
          Some (v\<lparr>sup_kernel := (sup_kernel v)\<lparr>SUPERVISOR_MAILBOX := 0\<rparr>, sup_pc := Dispatch msg\<rparr>)
      | Dispatch msg \<Rightarrow>
          let (call, s) = supervisor_message msg (sup_kernel v) in
          Some (v\<lparr>sup_kernel := s, shootdowns := shootdowns v @ (case call of None \<Rightarrow> [] | Some c \<Rightarrow> [c]),
                  handled := handled v @ (if msg \<noteq> 0 then [msg] else []), sup_pc := At_Monitor\<rparr>))"

fun supervisor_steps :: "nat \<Rightarrow> ('pt, 'dev) supervisor \<Rightarrow> ('pt, 'dev) supervisor option" where
  "supervisor_steps 0 v = Some v"
| "supervisor_steps (Suc n) v = Option.bind (supervisor_step v) (supervisor_steps n)"

definition supervisor_start :: "('pt, 'dev) kernel \<Rightarrow> ('pt, 'dev) supervisor" where
  "supervisor_start s = \<lparr>sup_pc = At_Monitor, armed = False, shootdowns = [], handled = [], sup_kernel = s\<rparr>"

text \<open>A store to the monitored range ends the sleep and disarms the monitor.\<close>

definition triggered :: "('pt, 'dev) supervisor \<Rightarrow> ('pt, 'dev) supervisor" where
  "triggered v = v\<lparr>armed := False, sup_pc := (if sup_pc v = Asleep then At_Swap else sup_pc v)\<rparr>"

definition post_supervisor :: "u64 \<Rightarrow> ('pt, 'dev) supervisor \<Rightarrow> ('pt, 'dev) supervisor" where
  "post_supervisor msg v = triggered (v\<lparr>sup_kernel := (sup_kernel v)\<lparr>SUPERVISOR_MAILBOX := msg\<rparr>\<rparr>)"

inductive sup_reach :: "('pt, 'dev) kernel \<Rightarrow> ('pt, 'dev) supervisor \<Rightarrow> bool" for s where
  start: "sup_reach s (supervisor_start s)"
| own: "sup_reach s v \<Longrightarrow> supervisor_step v = Some w \<Longrightarrow> sup_reach s w"
| post: "sup_reach s v \<Longrightarrow> sup_reach s (post_supervisor msg v)"
| early: "sup_reach s v \<Longrightarrow> sup_reach s (triggered v)"   \<comment> \<open>an interrupt, or a store to the same cache line\<close>

section \<open>Model: a panic\<close>

text \<open>The handler speaks and halts its core, again after every interrupt that wakes it.\<close>

definition kernel_panic :: "('pt, 'dev) machine \<Rightarrow> ('pt, 'dev) machine flow" where
  "kernel_panic m = Halted (on_kern (say ''\<newline>[!] KERNEL PANIC: The system has halted.\<newline>'') m)"

text \<open>A panic writes the log and nothing else: what the kernel protects stays protected.\<close>

lemma kernel_panic_keeps_kernel:
  assumes "kernel_inv entries (kern m)"
  shows "\<exists>m'. kernel_panic m = Halted m' \<and> cpu m' = cpu m \<and> kernel_inv entries (kern m') \<and> kernel_half_kept P (kern m) (kern m') \<and>
    serial (kern m') = serial (kern m) @ str_bytes ''\<newline>[!] KERNEL PANIC: The system has halted.\<newline>''"
  using assms by (simp add: kernel_panic_def on_kern_def kernel_inv_def mem_inv_def kernel_half_kept_def address_space_def say_def speak_append)

section \<open>No message is slept over\<close>

lemma supervisor_poll_message:
  "supervisor_poll s = supervisor_message (SUPERVISOR_MAILBOX s) (s\<lparr>SUPERVISOR_MAILBOX := 0\<rparr>)"
  by (simp add: supervisor_poll_def supervisor_message_def Let_def)

definition sup_inv :: "('pt, 'dev) supervisor \<Rightarrow> bool" where
  "sup_inv v \<longleftrightarrow> (sup_pc v = Asleep \<longrightarrow> mailbox v = 0) \<and> (sup_pc v = At_Mwait \<longrightarrow> armed v \<longrightarrow> mailbox v = 0)"

lemma sup_inv_step: "sup_inv v \<Longrightarrow> supervisor_step v = Some w \<Longrightarrow> sup_inv w"
  by (auto simp: sup_inv_def supervisor_step_def monitor_def mwait_def Let_def split: sup_pc.splits if_splits prod.splits)

lemma sup_reach_inv: "sup_reach s v \<Longrightarrow> sup_inv v"
proof (induction rule: sup_reach.induct)
  case start
  show ?case by (simp add: sup_inv_def supervisor_start_def)
next
  case (own v w)
  then show ?case by (blast intro: sup_inv_step)
qed (auto simp: sup_inv_def post_supervisor_def triggered_def)

text \<open>How many steps the supervisor needs to dispatch what is in its mailbox.\<close>

fun steps_left :: "sup_pc \<Rightarrow> nat" where
  "steps_left At_Swap = 2"
| "steps_left At_Mwait = 3"
| "steps_left At_Test = 3"
| "steps_left At_Monitor = 4"
| "steps_left (Dispatch m) = 5"
| "steps_left Asleep = 0"

definition dispatched :: "('pt, 'dev) supervisor \<Rightarrow> u64 list" where
  "dispatched v = handled v @ (case sup_pc v of Dispatch m \<Rightarrow> if m \<noteq> 0 then [m] else [] | _ \<Rightarrow> [])"

lemma supervisor_message_mailbox:
  "SUPERVISOR_MAILBOX (snd (supervisor_message msg s)) = SUPERVISOR_MAILBOX s"
  by (simp add: supervisor_message_def say_def Let_def)

definition takes :: "u64 \<Rightarrow> nat \<Rightarrow> ('pt, 'dev) supervisor \<Rightarrow> bool" where
  "takes msg n v \<longleftrightarrow> (\<exists>w. supervisor_steps n v = Some w \<and> handled w = dispatched v @ [msg] \<and> mailbox w = 0 \<and> sup_pc w = At_Monitor)"

lemma takes_step:
  "supervisor_step v = Some v' \<Longrightarrow> dispatched v' = dispatched v \<Longrightarrow> takes msg n v' \<Longrightarrow> takes msg (Suc n) v"
  by (auto simp: takes_def)

lemma takes_swap:
  assumes "sup_pc v = At_Swap" "mailbox v = msg" "msg \<noteq> 0"
  shows "takes msg 2 v"
  using assms supervisor_message_mailbox [of msg "(sup_kernel v)\<lparr>SUPERVISOR_MAILBOX := 0\<rparr>"]
  by (auto simp: takes_def dispatched_def supervisor_step_def numeral_2_eq_2 Let_def split: prod.splits)

lemma takes_test: "sup_pc v = At_Test \<Longrightarrow> mailbox v = msg \<Longrightarrow> msg \<noteq> 0 \<Longrightarrow> takes msg 3 v"
  using takes_step [OF _ _ takes_swap, of v "v\<lparr>sup_pc := At_Swap\<rparr>" msg]
  by (simp add: supervisor_step_def dispatched_def numeral_eq_Suc)

lemma takes_monitor: "sup_pc v = At_Monitor \<Longrightarrow> mailbox v = msg \<Longrightarrow> msg \<noteq> 0 \<Longrightarrow> takes msg 4 v"
  using takes_step [OF _ _ takes_test, of v "monitor (v\<lparr>sup_pc := At_Test\<rparr>)" msg]
  by (simp add: supervisor_step_def dispatched_def monitor_def numeral_eq_Suc)

lemma takes_dispatch:
  assumes "sup_pc v = Dispatch m" "mailbox v = msg" "msg \<noteq> 0"
  shows "takes msg 5 v"
proof -
  obtain call s where c: "supervisor_message m (sup_kernel v) = (call, s)" by (cases "supervisor_message m (sup_kernel v)")
  then have box: "SUPERVISOR_MAILBOX s = msg" using supervisor_message_mailbox [of m "sup_kernel v"] assms(2) by simp
  let ?w = "v\<lparr>sup_kernel := s, shootdowns := shootdowns v @ (case call of None \<Rightarrow> [] | Some c \<Rightarrow> [c]),
    handled := handled v @ (if m \<noteq> 0 then [m] else []), sup_pc := At_Monitor\<rparr>"
  have "supervisor_step v = Some ?w" "dispatched ?w = dispatched v"
    using assms(1) by (simp_all add: supervisor_step_def dispatched_def c)
  with takes_step [OF _ _ takes_monitor, of v ?w msg] box assms(3) show ?thesis by (simp add: numeral_eq_Suc)
qed

lemma supervisor_takes_message:
  assumes "sup_inv v" "mailbox v = msg" "msg \<noteq> 0"
  shows "sup_pc v \<noteq> Asleep \<and> takes msg (steps_left (sup_pc v)) v"
proof (cases "sup_pc v")
  case At_Mwait
  with assms have "\<not> armed v" by (auto simp: sup_inv_def)
  with takes_step [OF _ _ takes_swap, of v "v\<lparr>sup_pc := At_Swap\<rparr>" msg] At_Mwait assms(2,3) show ?thesis
    by (simp add: supervisor_step_def dispatched_def mwait_def numeral_eq_Suc)
next
  case Asleep
  with assms show ?thesis by (simp add: sup_inv_def)
qed (use assms in \<open>simp_all add: takes_monitor takes_test takes_swap takes_dispatch\<close>)

section \<open>Properties\<close>

text \<open>
  C18. The supervisor never sleeps over a message: in every interleaving with the stores of other cores,
  and with any early wake-ups, a nonempty mailbox finds the supervisor awake, and unless another store
  overwrites the message it dispatches it after at most five steps of its loop and leaves the mailbox
  empty.
\<close>

theorem supervisor_takes_every_message:
  assumes "sup_reach s v" and "SUPERVISOR_MAILBOX (sup_kernel v) \<noteq> 0"
  shows "sup_pc v \<noteq> Asleep \<and>
    (\<exists>n w. n \<le> 5 \<and> supervisor_steps n v = Some w \<and> SUPERVISOR_MAILBOX (sup_kernel w) = 0 \<and>
       handled w = handled v @ (case sup_pc v of Dispatch m \<Rightarrow> if m \<noteq> 0 then [m] else [] | _ \<Rightarrow> []) @
         [SUPERVISOR_MAILBOX (sup_kernel v)])"
proof -
  have "steps_left pc \<le> 5" for pc by (cases pc) simp_all
  with supervisor_takes_message [OF sup_reach_inv [OF assms(1)] refl assms(2)] show ?thesis
    unfolding takes_def dispatched_def append_assoc by blast
qed

text \<open>The instance is a message that arrives between the test of the mailbox and \<^verbatim>\<open>mwait\<close>.\<close>

theorem supervisor_takes_every_message_witness:
  "\<exists>v n w. sup_reach example_kernel v \<and> sup_pc v = At_Mwait \<and> SUPERVISOR_MAILBOX (sup_kernel v) = 2 \<and>
     n \<le> 5 \<and> supervisor_steps n v = Some w \<and> handled w = [2]"
proof -
  define v1 where "v1 = monitor ((supervisor_start example_kernel)\<lparr>sup_pc := At_Test\<rparr>)"
  define v2 where "v2 = v1\<lparr>sup_pc := At_Mwait\<rparr>"
  define v where "v = post_supervisor 2 v2"
  have "supervisor_step (supervisor_start example_kernel) = Some v1" by (simp add: supervisor_step_def supervisor_start_def v1_def)
  moreover have "supervisor_step v1 = Some v2"
    by (simp add: supervisor_step_def v1_def v2_def monitor_def supervisor_start_def example_kernel_def)
  ultimately have r: "sup_reach example_kernel v"
    unfolding v_def by (blast intro: sup_reach.intros)
  have v: "sup_pc v = At_Mwait" "SUPERVISOR_MAILBOX (sup_kernel v) = 2" "handled v = []"
    by (simp_all add: v_def v2_def v1_def post_supervisor_def triggered_def monitor_def supervisor_start_def)
  with supervisor_takes_every_message [OF r] obtain n w where "n \<le> 5" "supervisor_steps n v = Some w" "handled w = [2]"
    by auto
  with r v show ?thesis by blast
qed

end
