(* ===== verification/Lib_Stardust.thy ===== *)
theory Lib_Stardust
  imports Syscall
begin

text \<open>
  The system call wrappers of \<^verbatim>\<open>userland/libs/libstardust/src/lib.rs\<close>.

  A wrapper puts a service number and two arguments into RDI, RSI and RDX and executes
  \<^verbatim>\<open>syscall\<close>; what that does is the parameter \<open>sc\<close>, a function of the three registers.  Wrappers that
  declare RDX only as an output leave whatever the compiler put there: the parameter \<open>rdx\<close>.

  The locale \<open>services\<close> is the contract between the library and the kernel, in terms of ports,
  mailboxes and interrupt flags instead of registers; the drivers are verified against it.  It is
  interpreted on the dispatcher of theory \<open>Syscall\<close>.
\<close>

section \<open>Model\<close>

type_synonym 's kernel_call = "u64 \<Rightarrow> u64 \<Rightarrow> u64 \<Rightarrow> 's \<Rightarrow> (u64 \<times> 's) res"

text \<open>The service numbers, which the library declares for itself.\<close>

abbreviation lib_SYS_GRANT_SHARED_MEMORY :: u64 where "lib_SYS_GRANT_SHARED_MEMORY \<equiv> 1"
abbreviation lib_SYS_IOMMU_LOCKDOWN :: u64 where "lib_SYS_IOMMU_LOCKDOWN \<equiv> 2"
abbreviation lib_SYS_MAP_FRAMEBUFFER :: u64 where "lib_SYS_MAP_FRAMEBUFFER \<equiv> 3"
abbreviation lib_SYS_BATCH_EXECUTE :: u64 where "lib_SYS_BATCH_EXECUTE \<equiv> 4"
abbreviation lib_SYS_PORT_IN :: u64 where "lib_SYS_PORT_IN \<equiv> 5"
abbreviation lib_SYS_CHECK_IRQ :: u64 where "lib_SYS_CHECK_IRQ \<equiv> 6"
abbreviation lib_SYS_SPAWN_PROCESS :: u64 where "lib_SYS_SPAWN_PROCESS \<equiv> 7"
abbreviation lib_SYS_PORT_OUT :: u64 where "lib_SYS_PORT_OUT \<equiv> 8"
abbreviation lib_SYS_IPC_SEND :: u64 where "lib_SYS_IPC_SEND \<equiv> 9"
abbreviation lib_SYS_IPC_RECEIVE :: u64 where "lib_SYS_IPC_RECEIVE \<equiv> 10"

text \<open>\<open>Result<(), ()>\<close>: \<open>Inl ()\<close> is \<open>Err\<close>.\<close>

definition sys_grant_shared_memory :: "'s kernel_call \<Rightarrow> u64 \<Rightarrow> u64 \<Rightarrow> 's \<Rightarrow> ((unit + unit) \<times> 's) res" where
  "sys_grant_shared_memory sc process_id virtual_address s =
     bindE (sc lib_SYS_GRANT_SHARED_MEMORY process_id virtual_address s) (\<lambda>(result, s).
     Inr (if result = u64_MAX then Inl () else Inr (), s))"

definition sys_iommu_lockdown :: "'s kernel_call \<Rightarrow> u16 \<Rightarrow> u64 \<Rightarrow> 's \<Rightarrow> (u64 \<times> 's) res" where
  "sys_iommu_lockdown sc device_id virtual_address s = sc lib_SYS_IOMMU_LOCKDOWN (ucast device_id) virtual_address s"

definition sys_map_framebuffer :: "'s kernel_call \<Rightarrow> u64 \<Rightarrow> u64 \<Rightarrow> 's \<Rightarrow> (u64 \<times> 's) res" where
  "sys_map_framebuffer sc rdx virtual_address s = sc lib_SYS_MAP_FRAMEBUFFER virtual_address rdx s"

definition sys_batch_execute :: "'s kernel_call \<Rightarrow> u64 \<Rightarrow> u64 \<Rightarrow> 's \<Rightarrow> (u64 \<times> 's) res" where
  "sys_batch_execute sc commands_ptr count s = sc lib_SYS_BATCH_EXECUTE commands_ptr count s"

definition sys_port_in :: "'s kernel_call \<Rightarrow> u16 \<Rightarrow> u64 \<Rightarrow> 's \<Rightarrow> (u64 \<times> 's) res" where
  "sys_port_in sc port sz s = sc lib_SYS_PORT_IN (ucast port) sz s"

definition sys_check_irq :: "'s kernel_call \<Rightarrow> u64 \<Rightarrow> u8 \<Rightarrow> 's \<Rightarrow> (bool \<times> 's) res" where
  "sys_check_irq sc rdx vector s =
     bindE (sc lib_SYS_CHECK_IRQ (ucast vector) rdx s) (\<lambda>(result, s). Inr (result \<noteq> 0, s))"

definition sys_spawn_process :: "'s kernel_call \<Rightarrow> u64 \<Rightarrow> u64 \<Rightarrow> 's \<Rightarrow> (u64 \<times> 's) res" where
  "sys_spawn_process sc entry_point stack_ptr s = sc lib_SYS_SPAWN_PROCESS entry_point stack_ptr s"

definition sys_port_out :: "'s kernel_call \<Rightarrow> u16 \<Rightarrow> u8 \<Rightarrow> 's \<Rightarrow> 's res" where
  "sys_port_out sc port data s =
     (let arg1 = push_bit 16 1 OR ucast port in bindE (sc lib_SYS_PORT_OUT arg1 (ucast data) s) (\<lambda>(_, s). Inr s))"

definition sys_port_out32 :: "'s kernel_call \<Rightarrow> u16 \<Rightarrow> u32 \<Rightarrow> 's \<Rightarrow> 's res" where
  "sys_port_out32 sc port data s =
     (let arg1 = push_bit 16 4 OR ucast port in bindE (sc lib_SYS_PORT_OUT arg1 (ucast data) s) (\<lambda>(_, s). Inr s))"

definition sys_ipc_send :: "'s kernel_call \<Rightarrow> u64 \<Rightarrow> u64 \<Rightarrow> 's \<Rightarrow> 's res" where
  "sys_ipc_send sc target_id payload s = bindE (sc lib_SYS_IPC_SEND target_id payload s) (\<lambda>(_, s). Inr s)"

definition sys_ipc_receive :: "'s kernel_call \<Rightarrow> u64 \<Rightarrow> u64 \<Rightarrow> 's \<Rightarrow> (u64 \<times> 's) res" where
  "sys_ipc_receive sc rdx target_id s = sc lib_SYS_IPC_RECEIVE target_id rdx s"

section \<open>The contract of the system call interface\<close>

text \<open>
  What the drivers rely on: reading and writing a port acts on the devices, one message slot is
  posted to and fetched from, and none of these calls fails.
\<close>

locale services =
  fixes sc :: "'s kernel_call"
    and read8 :: "u16 \<Rightarrow> 's \<Rightarrow> u8 \<times> 's"
    and read32 :: "u16 \<Rightarrow> 's \<Rightarrow> u32 \<times> 's"
    and write8 :: "u16 \<Rightarrow> u8 \<Rightarrow> 's \<Rightarrow> 's"
    and write32 :: "u16 \<Rightarrow> u32 \<Rightarrow> 's \<Rightarrow> 's"
    and post :: "u64 \<Rightarrow> 's \<Rightarrow> 's"
    and fetch :: "'s \<Rightarrow> u64 \<times> 's"
    and irq_flag :: "u8 \<Rightarrow> 's \<Rightarrow> u64 \<times> 's"
  assumes in8: "sc SYS_PORT_IN (ucast port) 1 s = Inr (ucast (fst (read8 port s)), snd (read8 port s))"
    and in32: "sc SYS_PORT_IN (ucast port) 4 s = Inr (ucast (fst (read32 port s)), snd (read32 port s))"
    and out8: "\<exists>r. sc SYS_PORT_OUT (0x10000 OR ucast port) (ucast (b :: u8)) s = Inr (r, write8 port b s)"
    and out32: "\<exists>r. sc SYS_PORT_OUT (0x40000 OR ucast port) (ucast (v :: u32)) s = Inr (r, write32 port v s)"
    and send: "\<exists>r. sc SYS_IPC_SEND target payload s = Inr (r, post payload s)"
    and receive: "sc SYS_IPC_RECEIVE target rdx s = Inr (fetch s)"
    and check_irq: "sc SYS_CHECK_IRQ (ucast (vec :: u8)) rdx s = Inr (irq_flag vec s)"
begin

lemma sys_port_in_8: "sys_port_in sc port 1 s = Inr (ucast (fst (read8 port s)), snd (read8 port s))"
  by (simp add: sys_port_in_def in8)

lemma sys_port_in_32: "sys_port_in sc port 4 s = Inr (ucast (fst (read32 port s)), snd (read32 port s))"
  by (simp add: sys_port_in_def in32)

lemma sys_port_out_8: "sys_port_out sc port b s = Inr (write8 port b s)"
  using out8 [of port b s] by (auto simp: sys_port_out_def)

lemma sys_port_out_32: "sys_port_out32 sc port v s = Inr (write32 port v s)"
  using out32 [of port v s] by (auto simp: sys_port_out32_def)

lemma sys_ipc_send_post: "sys_ipc_send sc target payload s = Inr (post payload s)"
  using send [of target payload s] by (auto simp: sys_ipc_send_def)

lemma sys_ipc_receive_fetch: "sys_ipc_receive sc rdx target s = Inr (fetch s)"
  by (simp add: sys_ipc_receive_def receive)

lemma sys_check_irq_flag: "sys_check_irq sc rdx vec s = Inr (fst (irq_flag vec s) \<noteq> 0, snd (irq_flag vec s))"
  by (simp add: sys_check_irq_def check_irq split: prod.split)

lemmas service_simps = sys_port_in_8 sys_port_in_32 sys_port_out_8 sys_port_out_32 sys_ipc_send_post sys_ipc_receive_fetch sys_check_irq_flag

end

section \<open>The kernel provides the contract\<close>

definition kernel_read8 :: "('pt, 'dev) hw_platform \<Rightarrow> u16 \<Rightarrow> ('pt, 'dev) kernel \<Rightarrow> u8 \<times> ('pt, 'dev) kernel" where
  "kernel_read8 P port s = (let (v, dev) = port_in P (devices s) port 1 in (ucast v, s\<lparr>devices := dev\<rparr>))"

definition kernel_read32 :: "('pt, 'dev) hw_platform \<Rightarrow> u16 \<Rightarrow> ('pt, 'dev) kernel \<Rightarrow> u32 \<times> ('pt, 'dev) kernel" where
  "kernel_read32 P port s = (let (v, dev) = port_in P (devices s) port 4 in (v, s\<lparr>devices := dev\<rparr>))"

definition kernel_write8 :: "('pt, 'dev) hw_platform \<Rightarrow> u16 \<Rightarrow> u8 \<Rightarrow> ('pt, 'dev) kernel \<Rightarrow> ('pt, 'dev) kernel" where
  "kernel_write8 P port b s = s\<lparr>devices := port_out P (devices s) port 1 (ucast b)\<rparr>"

definition kernel_write32 :: "('pt, 'dev) hw_platform \<Rightarrow> u16 \<Rightarrow> u32 \<Rightarrow> ('pt, 'dev) kernel \<Rightarrow> ('pt, 'dev) kernel" where
  "kernel_write32 P port v s = s\<lparr>devices := port_out P (devices s) port 4 v\<rparr>"

definition kernel_post :: "u64 \<Rightarrow> ('pt, 'dev) kernel \<Rightarrow> ('pt, 'dev) kernel" where
  "kernel_post payload s = s\<lparr>GLOBAL_IPC_MAILBOX := payload\<rparr>"

definition kernel_fetch :: "('pt, 'dev) kernel \<Rightarrow> u64 \<times> ('pt, 'dev) kernel" where
  "kernel_fetch s = (GLOBAL_IPC_MAILBOX s, s\<lparr>GLOBAL_IPC_MAILBOX := 0\<rparr>)"

definition kernel_irq_flag :: "u8 \<Rightarrow> ('pt, 'dev) kernel \<Rightarrow> u64 \<times> ('pt, 'dev) kernel" where
  "kernel_irq_flag vec s = (IRQ_MAILBOXES s ! unat vec, s\<lparr>IRQ_MAILBOXES := (IRQ_MAILBOXES s)[unat vec := 0]\<rparr>)"

text \<open>How the dispatcher takes the register encoding of a port access apart.\<close>

lemma ucast_ucast_u16 [simp]: "(ucast (ucast (port :: u16) :: u64) :: u16) = port"
  by (rule bit_word_eqI) (simp add: bit_simps)

lemma ucast_port_and [simp]: "(ucast (ucast (port :: u16) AND 0xFFFF :: u64) :: u16) = port"
proof -
  have m: "(0xFFFF :: u64) = mask 16" by (simp add: mask_numeral)
  show ?thesis unfolding m by (rule bit_word_eqI) (auto simp: bit_simps)
qed

lemma drop_bit_port [simp]: "drop_bit 16 (ucast (port :: u16) :: u64) = 0"
  by (rule bit_word_eqI) (auto simp: bit_simps dest: bit_imp_le_length)

lemma port_arg_port:
  "(ucast ((0x10000 OR ucast (port :: u16)) AND 0xFFFF :: u64) :: u16) = port"
  "(ucast ((0x40000 OR ucast (port :: u16)) AND 0xFFFF :: u64) :: u16) = port"
  by (simp_all add: bit.conj_disj_distrib2)

lemma ucast_byte_u64 [simp]: "(ucast (ucast (b :: u8) :: u64) :: u8) = b"
  by (rule bit_word_eqI) (simp add: bit_simps)

lemma ucast_u32_u64 [simp]: "(ucast (ucast (v :: u32) :: u64) :: u32) = v"
  by (rule bit_word_eqI) (simp add: bit_simps)

lemma unat_byte_lt: "unat (b :: u8) < 256"
  by (rule order_less_le_trans [OF unsigned_less]) simp

lemma unat_ucast_byte_u64 [simp]: "unat (ucast (b :: u8) :: u64) = unat b"
  using unat_byte_lt [of b] by (intro unat_ucast_small) simp

interpretation kernel_services: services "syscall_dispatcher P" "kernel_read8 P" "kernel_read32 P" "kernel_write8 P"
    "kernel_write32 P" kernel_post kernel_fetch kernel_irq_flag for P :: "('pt, 'dev) hw_platform"
proof
  fix port :: u16 and s :: "('pt, 'dev) kernel" and b :: u8 and v :: u32 and vec :: u8 and target payload rdx :: u64
  show "syscall_dispatcher P SYS_PORT_IN (ucast port) 1 s = Inr (ucast (fst (kernel_read8 P port s)), snd (kernel_read8 P port s))"
    by (simp add: syscall_dispatcher_def sys_port_in_handler_def kernel_read8_def Let_def split: prod.split)
  show "syscall_dispatcher P SYS_PORT_IN (ucast port) 4 s = Inr (ucast (fst (kernel_read32 P port s)), snd (kernel_read32 P port s))"
    by (simp add: syscall_dispatcher_def sys_port_in_handler_def kernel_read32_def Let_def split: prod.split)
  show "\<exists>r. syscall_dispatcher P SYS_PORT_OUT (0x10000 OR ucast port) (ucast b) s = Inr (r, kernel_write8 P port b s)"
    by (simp add: syscall_dispatcher_def sys_port_out_handler_def kernel_write8_def port_arg_port)
  show "\<exists>r. syscall_dispatcher P SYS_PORT_OUT (0x40000 OR ucast port) (ucast v) s = Inr (r, kernel_write32 P port v s)"
    by (simp add: syscall_dispatcher_def sys_port_out_handler_def kernel_write32_def port_arg_port)
  show "\<exists>r. syscall_dispatcher P SYS_IPC_SEND target payload s = Inr (r, kernel_post payload s)"
    by (simp add: syscall_dispatcher_def kernel_post_def)
  show "syscall_dispatcher P SYS_IPC_RECEIVE target rdx s = Inr (kernel_fetch s)"
    by (simp add: syscall_dispatcher_def kernel_fetch_def)
  show "syscall_dispatcher P SYS_CHECK_IRQ (ucast vec) rdx s = Inr (kernel_irq_flag vec s)"
    using unat_byte_lt [of vec] by (simp add: syscall_dispatcher_def sys_check_irq_handler_def kernel_irq_flag_def Let_def)
qed

section \<open>Properties\<close>

text \<open>
  The register encoding of the library is the one that the kernel decodes: through the dispatcher
  a wrapper call reaches the device port, the message slot or the interrupt flag that it names, with
  the value it names, for every port, value and vector, and never fails.
\<close>

theorem wrappers_reach_services:
  "sys_port_in (syscall_dispatcher P) port 1 s = Inr (ucast (fst (kernel_read8 P port s)), snd (kernel_read8 P port s)) \<and>
   sys_port_in (syscall_dispatcher P) port 4 s = Inr (ucast (fst (kernel_read32 P port s)), snd (kernel_read32 P port s)) \<and>
   sys_port_out (syscall_dispatcher P) port b s = Inr (s\<lparr>devices := port_out P (devices s) port 1 (ucast b)\<rparr>) \<and>
   sys_port_out32 (syscall_dispatcher P) port v s = Inr (s\<lparr>devices := port_out P (devices s) port 4 v\<rparr>) \<and>
   sys_ipc_send (syscall_dispatcher P) target payload s = Inr (s\<lparr>GLOBAL_IPC_MAILBOX := payload\<rparr>) \<and>
   sys_ipc_receive (syscall_dispatcher P) rdx target s = Inr (GLOBAL_IPC_MAILBOX s, s\<lparr>GLOBAL_IPC_MAILBOX := 0\<rparr>) \<and>
   sys_check_irq (syscall_dispatcher P) rdx vec s =
     Inr (IRQ_MAILBOXES s ! unat vec \<noteq> 0, s\<lparr>IRQ_MAILBOXES := (IRQ_MAILBOXES s)[unat vec := 0]\<rparr>)"
  by (simp add: kernel_services.service_simps kernel_write8_def kernel_write32_def kernel_post_def kernel_fetch_def
      kernel_irq_flag_def)

text \<open>
  The result of \<open>sys_grant_shared_memory\<close> says nothing about the grant: when the call returns, it is
  \<open>Err\<close> exactly for an address outside user space.  A request that the kernel rejects for its token is
  reported as \<open>Ok\<close>.
\<close>

theorem grant_result_only_checks_address:
  assumes "sys_grant_shared_memory (syscall_dispatcher P) process_id vaddr s = Inr (r, s')"
  shows "r = (if is_safe_user_ptr vaddr 4096 then Inr () else Inl ())"
proof (cases "is_safe_user_ptr vaddr 4096")
  case True
  then have "vaddr \<noteq> u64_MAX" by (auto simp: is_safe_user_ptr_iff unat_u64_MAX)
  with True assms show ?thesis
    by (auto simp: sys_grant_shared_memory_def syscall_dispatcher_def sys_grant_def grant_frame_def res_simps Let_def split: if_splits)
next
  case False
  with assms show ?thesis by (simp add: sys_grant_shared_memory_def syscall_dispatcher_def sys_grant_def)
qed

theorem grant_result_only_checks_address_witness:
  "\<exists>s'. sys_grant_shared_memory (syscall_dispatcher example_hw) 7 0x400000 example_kernel = Inr (Inr (), s') \<and>
     address_space example_hw s' = address_space example_hw example_kernel"
proof -
  have safe: "is_safe_user_ptr 0x400000 4096" by (simp add: is_safe_user_ptr_iff)
  have "\<exists>r s'. sys_grant_shared_memory (syscall_dispatcher example_hw) 7 0x400000 example_kernel = Inr (r, s') \<and>
     address_space example_hw s' = address_space example_hw example_kernel"
    by (simp add: sys_grant_shared_memory_def syscall_dispatcher_def sys_grant_def safe grant_frame_def validate_genesis
        example_kernel_def say_def address_space_def)
  with grant_result_only_checks_address safe show ?thesis by fastforce
qed

end
