(* ===== verification/User_Elf.thy ===== *)
theory User_Elf
  imports Elf_Image Lib_Stardust
begin

text \<open>
  The loader of the user library, \<^verbatim>\<open>userland/libs/libstardust/src/elf.rs\<close>, with which the Marshal loads
  the drivers.  It gets its pages through the grant system call and writes them in user mode; the
  address space is the one of the kernel's loader, and so are the structures that it reads (theory
  \<open>Kernel_Elf\<close>).  The library is compiled in release mode: addresses wrap, and raw copies are not
  checked.
\<close>

section \<open>Model\<close>

text \<open>\<open>for p in 0..pages { let _ = sys_grant_shared_memory(0, base + p * 4096); }\<close>\<close>

fun grant_loop :: "('pt, 'dev) hw_platform \<Rightarrow> u64 \<Rightarrow> u64 list \<Rightarrow> ('pt, 'dev) kernel \<Rightarrow> ('pt, 'dev) kernel res" where
  "grant_loop P vbase [] s = Inr s"
| "grant_loop P vbase (p # ps) s =
     bindE (sys_grant_shared_memory (syscall_dispatcher P) 0 (vbase + p * 4096) s) (\<lambda>(_, s). grant_loop P vbase ps s)"

definition grant_pages :: "('pt, 'dev) hw_platform \<Rightarrow> u64 \<Rightarrow> u64 \<Rightarrow> ('pt, 'dev) kernel \<Rightarrow> ('pt, 'dev) kernel res" where
  "grant_pages P vbase pages s = grant_loop P vbase (map of_nat [0..<unat pages]) s"

text \<open>The copy of the file bytes and the zeroing of the rest.\<close>

definition fill_segment :: "('pt, 'dev) hw_platform \<Rightarrow> u64 \<Rightarrow> u64 \<Rightarrow> u64 \<Rightarrow> u64 \<Rightarrow> ('pt, 'dev) kernel \<Rightarrow> ('pt, 'dev) kernel res" where
  "fill_segment P dest src filesz memsz s =
     bindE (bindE (read_bytes P s src (unat filesz)) (\<lambda>bs. write_bytes P dest bs s)) (\<lambda>s.
     if memsz > filesz then
       let bss_start = dest + filesz; bss_size = memsz - filesz
       in write_bytes P bss_start (replicate (unat bss_size) 0) s
     else Inr s)"

definition user_load_segment :: "('pt, 'dev) hw_platform \<Rightarrow> u64 \<Rightarrow> elf64_phdr \<Rightarrow> ('pt, 'dev) kernel \<Rightarrow> ('pt, 'dev) kernel res" where
  "user_load_segment P data phdr s =
     (let pages = (p_memsz phdr + 4095) div 4096 in
      bindE (grant_pages P (p_vaddr phdr) pages s) (\<lambda>s.
      fill_segment P (p_vaddr phdr) (data + p_offset phdr) (p_filesz phdr) (p_memsz phdr) s))"

fun user_phdr_loop :: "('pt, 'dev) hw_platform \<Rightarrow> u64 \<Rightarrow> u64 \<Rightarrow> u16 list \<Rightarrow> ('pt, 'dev) kernel \<Rightarrow> ('pt, 'dev) kernel res" where
  "user_phdr_loop P data phdr_ptr [] s = Inr s"
| "user_phdr_loop P data phdr_ptr (i # is) s =
     bindE (read_phdr P s (phdr_ptr + ucast i * 56)) (\<lambda>phdr.
     bindE (if p_type phdr = 1 then user_load_segment P data phdr s else Inr s) (\<lambda>s.
     user_phdr_loop P data phdr_ptr is s))"

definition user_load :: "('pt, 'dev) hw_platform \<Rightarrow> u64 \<Rightarrow> u64 \<Rightarrow> ('pt, 'dev) kernel \<Rightarrow> (u64 option \<times> ('pt, 'dev) kernel) res" where
  "user_load P data len s =
     (if len < 64 then Inr (None, s)
      else
        bindE (read_header P s data) (\<lambda>ehdr.
        if take 4 (e_ident ehdr) \<noteq> ELF_MAGIC then Inr (None, s)
        else
          bindE (user_phdr_loop P data (data + e_phoff ehdr) (map of_nat [0..<unat (e_phnum ehdr)]) s) (\<lambda>s.
          bindE (read_header P s data) (\<lambda>ehdr. Inr (Some (e_entry ehdr), s)))))"

section \<open>Granting pages\<close>

text \<open>Pages from the grant call are mapped like those of the kernel's loader, but keep their contents.\<close>

definition zeroed :: "u64 list \<Rightarrow> (u64 \<Rightarrow> u8) \<Rightarrow> u64 \<Rightarrow> u8" where
  "zeroed fs m = (\<lambda>x. if page_floor x \<in> set fs then 0 else m x)"

definition granted :: "('pt, 'p) platform_scheme \<Rightarrow> mem_entry list \<Rightarrow> u64 \<Rightarrow> u64 list \<Rightarrow> ('pt, 'm) mem_state_scheme \<Rightarrow>
    ('pt, 'm) mem_state_scheme \<Rightarrow> bool" where
  "granted P entries lo fs s s' \<longleftrightarrow>
     fresh_mapping P entries lo fs s (s'\<lparr>phys_mem := zeroed fs (phys_mem s)\<rparr>) \<and> phys_mem s' = phys_mem s"

lemma fresh_mapping_phys_mem:
  assumes "fresh_mapping P entries lo fs s (s'\<lparr>phys_mem := zeroed fs (phys_mem s)\<rparr>)"
  shows "fresh_mapping P entries lo fs (s\<lparr>phys_mem := m\<rparr>) (s'\<lparr>phys_mem := zeroed fs m\<rparr>)"
proof -
  have as: "address_space P (t\<lparr>phys_mem := x\<rparr>) = address_space P t" for t x by (simp add: address_space_def)
  have "s'\<lparr>phys_mem := zeroed fs (phys_mem s)\<rparr> = s\<lparr>ALLOCATOR := ALLOCATOR s', MAPPER := MAPPER s', phys_mem := zeroed fs (phys_mem s)\<rparr>"
    using assms [unfolded fresh_mapping_def, THEN conjunct2, THEN conjunct1] by simp
  from arg_cong [OF this, of "\<lambda>t. t\<lparr>phys_mem := zeroed fs m\<rparr>"]
  have "s'\<lparr>phys_mem := zeroed fs m\<rparr> = s\<lparr>ALLOCATOR := ALLOCATOR s', MAPPER := MAPPER s', phys_mem := zeroed fs m\<rparr>" by simp
  moreover note h = assms [unfolded fresh_mapping_def as]
  moreover have "mem_inv entries (s'\<lparr>phys_mem := zeroed fs m\<rparr>)" using h by (simp add: mem_inv_def)
  ultimately show ?thesis unfolding fresh_mapping_def as by (intro conjI) (auto simp: zeroed_def)
qed

lemma grant_one:
  assumes laws: "paging_laws P entries" and inv: "mem_inv entries s" and cdt: "CDT s = genesis_cdt"
    and va: "unat va + 4096 < USER_TOP" "address_space P s (page_floor va) = None"
    and left: "free_frames entries s = f # rest" "3 \<le> length rest"
  obtains s' k where "sys_grant_shared_memory (syscall_dispatcher P) 0 va s = Inr (Inr (), s')" "mem_inv entries s'"
    "s' = s\<lparr>ALLOCATOR := ALLOCATOR s', MAPPER := MAPPER s'\<rparr>" "k \<le> 3" "free_frames entries s' = drop k rest"
    "address_space P s' = (address_space P s)(page_floor va \<mapsto> (f, user_flags))"
proof -
  have "unat va < 2 ^ 47" using va(1) by simp
  from grant_frame_effect [OF laws inv cdt this left(1)] obtain s' k where
    s': "grant_frame P 0 va s = Inr (va, s')" "mem_inv entries s'" "s' = s\<lparr>ALLOCATOR := ALLOCATOR s', MAPPER := MAPPER s'\<rparr>"
    "k \<le> 3" "free_frames entries s' = drop k rest" "address_space P s' = (address_space P s)(page_floor va \<mapsto> (f, user_flags))"
    using va(2) left(2) by metis
  have "is_safe_user_ptr va 4096" "va \<noteq> u64_MAX" using va(1) by (auto simp: is_safe_user_ptr_iff unat_u64_MAX)
  then have "sys_grant_shared_memory (syscall_dispatcher P) 0 va s = Inr (Inr (), s')"
    using s'(1) by (simp add: sys_grant_shared_memory_def syscall_dispatcher_def sys_grant_def)
  with s'(2-) show ?thesis by (intro that)
qed

lemma page_floor_step:
  assumes "unat v + 4096 * i + 4096 < 2 ^ 64"
  shows "page_floor (v + of_nat i * 4096) = page_at (page_floor v) i" "unat (v + of_nat i * 4096) = unat v + 4096 * i"
proof -
  have e: "v + of_nat i * 4096 = page_at v i" by (simp add: page_at_def)
  show u: "unat (v + of_nat i * 4096) = unat v + 4096 * i" unfolding e by (rule unat_page_at) (use assms in simp)
  have "unat v div 4096 * 4096 \<le> unat v" by simp
  then have "unat (page_at (page_floor v) i) = unat v div 4096 * 4096 + 4096 * i"
    using assms by (subst unat_page_at) (simp_all add: unat_page_floor)
  then show "page_floor (v + of_nat i * 4096) = page_at (page_floor v) i"
    by (simp add: word_unat_eq_iff unat_page_floor u)
qed

text \<open>The grant loop over \<open>n\<close> unmapped pages.\<close>

lemma granted_Cons:
  assumes s1: "s1 = s\<lparr>ALLOCATOR := ALLOCATOR s1, MAPPER := MAPPER s1\<rparr>" "k \<le> 3" "free_frames entries s1 = drop k rest"
      "address_space P s1 = (address_space P s)(lo \<mapsto> (f, user_flags))" "page_floor f = f"
    and left: "free_frames entries s = f # rest" "f \<notin> set rest"
    and neq: "\<And>j. j < length fs \<Longrightarrow> page_at (lo + 4096) j \<noteq> lo"
    and s2: "granted P entries (lo + 4096) fs s1 s2"
  shows "granted P entries lo (f # fs) s s2"
proof -
  let ?t = "s1\<lparr>phys_mem := zeroed [f] (phys_mem s)\<rparr>"
  have pm: "phys_mem s1 = phys_mem s" by (subst s1(1)) simp
  have z: "zeroed fs (zeroed [f] (phys_mem s)) = zeroed (f # fs) (phys_mem s)" by (auto simp: zeroed_def)
  have as: "address_space P ?t = address_space P s1" by (simp add: address_space_def)
  have fr: "fresh_mapping P entries (lo + 4096) fs ?t (s2\<lparr>phys_mem := zeroed fs (zeroed [f] (phys_mem s))\<rparr>)"
    using s2 by (intro fresh_mapping_phys_mem) (simp add: granted_def)
  have t: "?t = s\<lparr>ALLOCATOR := ALLOCATOR ?t, MAPPER := MAPPER ?t, phys_mem := phys_mem ?t\<rparr>" by (subst s1(1)) simp
  have at: "free_frames entries ?t = drop k rest" "address_space P ?t = (address_space P s)(lo \<mapsto> (f, user_flags))"
    "phys_mem ?t = (\<lambda>x. if page_floor x = f then 0 else phys_mem s x)"
    unfolding as using s1(3,4) by (simp_all add: zeroed_def)
  have "fresh_mapping P entries lo (f # fs) s (s2\<lparr>phys_mem := zeroed (f # fs) (phys_mem s)\<rparr>)"
    using fresh_mapping_Cons [OF t s1(2) at s1(5) left neq fr] unfolding z .
  moreover have "phys_mem s2 = phys_mem s" using s2 pm by (simp add: granted_def)
  ultimately show ?thesis by (simp add: granted_def)
qed

lemma granted_Nil: "mem_inv entries s \<Longrightarrow> granted P entries lo [] s s"
  using fresh_mapping_Nil [of entries s P lo] by (simp add: granted_def zeroed_def)

lemma grant_loop_effect:
  assumes "paging_laws P entries" and "unat v + 4096 * (i + n) < USER_TOP"
  shows "mem_inv entries s \<Longrightarrow> CDT s = genesis_cdt \<Longrightarrow>
    (\<And>j. j < n \<Longrightarrow> address_space P s (page_at (page_floor v) (i + j)) = None) \<Longrightarrow>
    4 * n \<le> length (free_frames entries s) \<Longrightarrow> distinct (free_frames entries s) \<Longrightarrow>
    \<exists>s' fs. grant_loop P v (map of_nat [i..<i + n]) s = Inr s' \<and> length fs = n \<and>
      granted P entries (page_at (page_floor v) i) fs s s'"
  using assms(2)
proof (induction n arbitrary: s i)
  case 0
  then show ?case using granted_Nil by (intro exI [of _ s] exI [of _ "[]"]) simp
next
  case (Suc n)
  let ?lo = "page_at (page_floor v) i"
  obtain f rest where left: "free_frames entries s = f # rest" "3 + 4 * n \<le> length rest"
    using Suc.prems(4) by (cases "free_frames entries s") auto
  have f: "f \<notin> set rest" "distinct rest" using Suc.prems(5) left(1) by simp_all
  have al: "page_floor f = f"
    using free_frame_below_2p52 [OF assms(1), of "ALLOCATOR s" f] Suc.prems(1) left(1) by (auto simp: mem_inv_def)
  have small: "unat v + 4096 * i + 4096 < 2 ^ 64" using Suc.prems(6) by simp
  note pf = page_floor_step [OF small]
  have g: "unat (v + of_nat i * 4096) + 4096 < USER_TOP" "address_space P s (page_floor (v + of_nat i * 4096)) = None"
    "3 \<le> length rest" using Suc.prems(3) [of 0] Suc.prems(6) left(2) pf by simp_all
  obtain s1 k where s1: "sys_grant_shared_memory (syscall_dispatcher P) 0 (v + of_nat i * 4096) s = Inr (Inr (), s1)"
    "mem_inv entries s1" "s1 = s\<lparr>ALLOCATOR := ALLOCATOR s1, MAPPER := MAPPER s1\<rparr>" "k \<le> 3" "free_frames entries s1 = drop k rest"
    "address_space P s1 = (address_space P s)(?lo \<mapsto> (f, user_flags))"
    using grant_one [OF assms(1) Suc.prems(1,2) g(1,2) left(1) g(3)] unfolding pf(1) by blast
  have lo: "?lo + 4096 = page_at (page_floor v) (Suc i)" by (simp add: page_at_def)
  have ulo: "unat (page_at (page_floor v) j) = unat (page_floor v) + 4096 * j" if "j \<le> i + n" for j
  proof (rule unat_page_at)
    have "unat v div 4096 * 4096 \<le> unat v" by simp
    then show "unat (page_floor v) + 4096 * j < 2 ^ 64" using Suc.prems(6) that by (simp add: unat_page_floor)
  qed
  have step: "page_at (?lo + 4096) j = page_at (page_floor v) (Suc i + j)" for j by (simp add: page_at_def algebra_simps)
  have neq: "page_at (page_floor v) (Suc i + j) \<noteq> ?lo" if "j < n" for j
    using ulo [of "Suc i + j"] ulo [of i] that by (auto simp: word_unat_eq_iff)
  have cdt: "CDT s1 = genesis_cdt" using Suc.prems(2) by (subst s1(3)) simp
  have "\<exists>s' fs. grant_loop P v (map of_nat [Suc i..<Suc i + n]) s1 = Inr s' \<and> length fs = n \<and>
      granted P entries (page_at (page_floor v) (Suc i)) fs s1 s'"
  proof (rule Suc.IH [OF s1(2) cdt])
    show "address_space P s1 (page_at (page_floor v) (Suc i + j)) = None" if "j < n" for j
      using Suc.prems(3) [of "Suc j"] neq [OF that] that s1(6) by simp
  qed (use Suc.prems(6) left(2) f(2) s1(4,5) in \<open>simp_all add: distinct_drop\<close>)
  then obtain s2 fs where s2: "grant_loop P v (map of_nat [Suc i..<Suc i + n]) s1 = Inr s2" "length fs = n"
    "granted P entries (?lo + 4096) fs s1 s2" unfolding lo by blast
  have "granted P entries ?lo (f # fs) s s2"
    by (rule granted_Cons [OF s1(3-6) al left(1) f(1) _ s2(3)]) (use neq s2(2) step in simp)
  moreover have "map of_nat [i..<i + Suc n] = of_nat i # (map of_nat [Suc i..<Suc i + n] :: u64 list)"
    by (simp add: upt_conv_Cons del: upt_Suc)
  ultimately show ?case using s1(1) s2(1,2) by (intro exI [of _ s2] exI [of _ "f # fs"]) simp
qed

section \<open>Filling a segment\<close>

lemma write_bytes_append:
  "bindE (write_bytes P va xs s) (\<lambda>s. write_bytes P (va + of_nat (length xs)) ys s) = write_bytes P va (xs @ ys) s"
proof (induction xs arbitrary: va s)
  case (Cons x xs)
  have "bindE (write_byte P va x s) (\<lambda>s. bindE (write_bytes P (va + 1) xs s) (\<lambda>s. write_bytes P (va + of_nat (length (x # xs))) ys s)) =
      bindE (write_byte P va x s) (\<lambda>s. write_bytes P (va + 1) (xs @ ys) s)"
    using Cons.IH [of "va + 1"] by (intro bindE_cong) (simp_all add: add_ac)
  then show ?case by (simp add: bindE_assoc)
qed simp

lemma fill_segment_bytes:
  assumes "fz \<le> ms" "read_bytes P s src (unat fz) = Inr bs" "length bs = unat fz"
  shows "fill_segment P dst src fz ms s = write_bytes P dst (bs @ replicate (unat ms - unat fz) 0) s"
proof -
  have u: "unat (ms - fz) = unat ms - unat fz" using assms(1) by (simp add: unat_sub)
  have "fz = of_nat (length bs)" using assms(3) by simp
  with write_bytes_append [of P dst bs s "replicate (unat ms - unat fz) 0"]
  have *: "bindE (write_bytes P dst bs s) (\<lambda>s. write_bytes P (dst + fz) (replicate (unat ms - unat fz) 0) s) =
      write_bytes P dst (bs @ replicate (unat ms - unat fz) 0) s" by simp
  show ?thesis
  proof (cases "fz < ms")
    case True
    then show ?thesis using * assms(2) by (simp add: fill_segment_def u Let_def)
  next
    case False
    then have "unat ms - unat fz = 0" by (simp add: word_less_nat_alt)
    with False * assms(2) show ?thesis by (simp add: fill_segment_def Let_def bindE_def split: sum.splits)
  qed
qed

lemma granted_other:
  assumes "granted P entries lo fs s s1" "\<forall>j < length fs. pg \<noteq> page_at lo j"
  shows "address_space P s1 pg = address_space P s pg"
proof -
  have "address_space P (s1\<lparr>phys_mem := m\<rparr>) = address_space P s1" for m by (simp add: address_space_def)
  with assms show ?thesis by (simp add: granted_def fresh_mapping_def)
qed

text \<open>A source that is mapped elsewhere reads the same after the grants.\<close>

lemma granted_read:
  assumes gr: "granted P entries lo fs s s1"
    and unmapped: "\<And>j. j < length fs \<Longrightarrow> address_space P s (page_at lo j) = None"
    and src: "\<And>i. i < n \<Longrightarrow> \<exists>pa. translate P s (src + of_nat i) = Some pa \<and> page_floor pa \<notin> set fs"
  shows "read_bytes P s1 src n = Inr (map (\<lambda>i. phys_mem s (the (translate P s (src + of_nat i)))) [0..<n])"
proof -
  have same: "translate P s1 (src + of_nat i) = translate P s (src + of_nat i)" if "i < n" for i
  proof -
    have "\<forall>j < length fs. page_floor (src + of_nat i) \<noteq> page_at lo j"
      using src [OF that] unmapped by (auto simp: translate_address_space)
    from granted_other [OF gr this] show ?thesis by (simp add: translate_address_space)
  qed
  have "\<forall>i < n. translate P s1 (src + of_nat i) \<noteq> None" using src same by fastforce
  from read_bytes_map [OF this] show ?thesis using gr by (simp add: granted_def same)
qed

lemma fill_segment_effect:
  assumes gr: "granted P entries (page_floor dst) fs s s1" and len: "length fs = pages_of dst ms"
    and top: "unat dst + unat ms + 4095 < 2 ^ 64" and fz: "fz \<le> ms"
    and unmapped: "\<And>j. j < length fs \<Longrightarrow> address_space P s (page_at (page_floor dst) j) = None"
    and src: "\<And>i. i < unat fz \<Longrightarrow> \<exists>pa. translate P s (src + of_nat i) = Some pa \<and> page_floor pa \<notin> set fs"
  shows "\<exists>s'. fill_segment P dst src fz ms s1 = Inr s' \<and> s' = s1\<lparr>phys_mem := phys_mem s'\<rparr> \<and>
    (\<forall>i < unat fz. read_byte P s' (dst + of_nat i) = read_byte P s (src + of_nat i)) \<and>
    (\<forall>i. unat fz \<le> i \<longrightarrow> i < unat ms \<longrightarrow> read_byte P s' (dst + of_nat i) = Inr 0) \<and>
    (\<forall>x. page_floor x \<notin> set fs \<longrightarrow> phys_mem s' x = phys_mem s x)"
proof -
  let ?tr = "translate P s1" and ?n = "unat fz"
  have fresh: "fresh_mapping P entries (page_floor dst) fs s (s1\<lparr>phys_mem := zeroed fs (phys_mem s)\<rparr>)"
    and pm: "phys_mem s1 = phys_mem s" using gr by (simp_all add: granted_def)
  have le: "?n \<le> unat ms" using fz by (simp add: word_le_nat_alt)
  define bs where "bs = map (\<lambda>i. phys_mem s (the (translate P s (src + of_nat i)))) [0..<?n]"
  have len_bs: "length bs = ?n" by (simp add: bs_def)
  have read: "read_bytes P s1 src ?n = Inr bs" using granted_read [OF gr unmapped src] by (simp add: bs_def)
  define ws where "ws = bs @ replicate (unat ms - ?n) 0"
  have len_ws: "length ws = unat ms" using le by (simp add: ws_def len_bs)
  have tr: "\<exists>f. f \<in> set fs \<and> page_floor f = f \<and> ?tr (dst + of_nat i) = Some (f + page_offset (dst + of_nat i))" if "i < unat ms" for i
    using fresh_translate [OF fresh len top that] by simp metis
  have tr': "?tr (dst + of_nat i) \<noteq> None" if "i < unat ms" for i using tr [OF that] by auto
  have inj: "inj_on (\<lambda>i. the (?tr (dst + of_nat i))) {..<length ws}"
    using fresh_translate_inj [OF fresh len top] by (simp add: len_ws)
  let ?s = "s1\<lparr>phys_mem := poke ?tr dst ws (phys_mem s1)\<rparr>"
  have run: "fill_segment P dst src fz ms s1 = Inr ?s"
    using fill_segment_bytes [OF fz read len_bs, of dst] write_bytes_poke [of ws P s1 dst] tr' len_ws by (simp add: ws_def)
  have get: "read_byte P ?s (dst + of_nat i) = Inr (ws ! i)" if i: "i < unat ms" for i
  proof -
    have "poke ?tr dst ws (phys_mem s1) (the (?tr (dst + of_nat i))) = ws ! i" by (rule poke_at [OF inj]) (simp add: len_ws i)
    then show ?thesis using tr' [OF i] by (auto simp: read_byte_def)
  qed
  have "read_byte P ?s (dst + of_nat i) = read_byte P s (src + of_nat i)" if i: "i < ?n" for i
  proof -
    obtain pa where "translate P s (src + of_nat i) = Some pa" using src [OF i] by blast
    then have "read_byte P s (src + of_nat i) = Inr (ws ! i)" using i by (simp add: read_byte_def ws_def nth_append len_bs) (simp add: bs_def)
    then show ?thesis using get [of i] i le by simp
  qed
  moreover have "read_byte P ?s (dst + of_nat i) = Inr 0" if "?n \<le> i" "i < unat ms" for i
    using get [OF that(2)] that by (simp add: ws_def nth_append len_bs)
  moreover have "phys_mem ?s x = phys_mem s x" if x: "page_floor x \<notin> set fs" for x
  proof -
    have "the (?tr (dst + of_nat j)) \<noteq> x" if "j < length ws" for j
      using tr [of j] that x by (auto simp: len_ws frame_plus_offset(1))
    then show ?thesis by (simp add: poke_other pm)
  qed
  ultimately show ?thesis using run by (intro exI [of _ ?s]) simp
qed

section \<open>Loading\<close>

text \<open>
  What the loader needs of a segment: no relocation, an address range of user space, and a page count
  from its size alone that reaches its end, which holds for page-aligned segments.
\<close>

definition user_fits :: "u64 \<Rightarrow> elf64_phdr \<Rightarrow> bool" where
  "user_fits r ph \<longleftrightarrow> r = 0 \<and> pages_of (p_vaddr ph) (p_memsz ph) = (unat (p_memsz ph) + 4095) div 4096 \<and>
     unat (p_vaddr ph) + unat (p_memsz ph) + 8192 < USER_TOP"

lemma aligned_user_fits:
  assumes "unat (p_vaddr ph) mod 4096 = 0" "unat (p_vaddr ph) + unat (p_memsz ph) + 8192 < USER_TOP"
  shows "user_fits 0 ph"
proof -
  obtain q where "unat (p_vaddr ph) = q * 4096" using assms(1) by (metis mod_0_imp_dvd dvd_def mult.commute)
  then have "pages_of (p_vaddr ph) (p_memsz ph) = (unat (p_memsz ph) + 4095) div 4096" by (simp add: pages_of_def add.assoc)
  with assms(2) show ?thesis by (simp add: user_fits_def)
qed

lemma user_load_segment_effect:
  assumes laws: "paging_laws P entries" and inv: "mem_inv entries s" and dist: "distinct (free_frames entries s)"
    and cdt: "CDT s = genesis_cdt" and fits: "user_fits r ph" and ok: "segment_ok P entries b r s ph"
    and left: "4 * pages_of (p_vaddr ph) (p_memsz ph) \<le> length (free_frames entries s)"
  shows "\<exists>s' fs. user_load_segment P b ph s = Inr s' \<and> segment_loaded P entries b r ph fs s s'"
proof -
  let ?v = "p_vaddr ph" and ?ms = "p_memsz ph" and ?fz = "p_filesz ph"
  let ?n = "pages_of ?v ?ms" and ?src = "b + p_offset ph"
  have r: "r = 0" and n: "?n = (unat ?ms + 4095) div 4096" and hi: "unat ?v + unat ?ms + 8192 < USER_TOP"
    using fits by (simp_all add: user_fits_def)
  have "4096 * ((unat ?ms + 4095) div 4096) \<le> unat ?ms + 4095" by simp
  then have top: "unat ?v + 4096 * ?n < USER_TOP" "unat ?v + unat ?ms + 4095 < 2 ^ 64" using n hi by simp_all
  have pages: "unat ((?ms + 4095) div 4096) = ?n"
    using unat_add_no_overflow [of ?ms 4095] top(2) by (simp add: n unat_div)
  have unmapped: "address_space P s (page_at (page_floor ?v) j) = None" if "j < ?n" for j
    using ok that by (auto simp: segment_ok_def seg_pages_def r)
  obtain s1 fs where s1: "grant_pages P ?v ((?ms + 4095) div 4096) s = Inr s1" "length fs = ?n"
    "granted P entries (page_floor ?v) fs s s1"
    using grant_loop_effect [OF laws, of ?v 0 ?n s] top(1) inv cdt unmapped left dist by (auto simp: grant_pages_def pages)
  have fsub: "set fs \<subseteq> set (free_frames entries s)" and inv1: "mem_inv entries s1"
    using s1(3) by (simp_all add: granted_def fresh_mapping_def mem_inv_def)
  have src: "\<exists>pa. translate P s (?src + of_nat i) = Some pa \<and> page_floor pa \<notin> set fs" if "i < unat ?fz" for i
    using ok that fsub by (fastforce simp: segment_ok_def settled_def)
  have fz: "?fz \<le> ?ms" using ok by (simp add: segment_ok_def)
  obtain s2 where s2: "fill_segment P ?v ?src ?fz ?ms s1 = Inr s2" "s2 = s1\<lparr>phys_mem := phys_mem s2\<rparr>"
    "\<forall>i < unat ?fz. read_byte P s2 (?v + of_nat i) = read_byte P s (?src + of_nat i)"
    "\<forall>i. unat ?fz \<le> i \<longrightarrow> i < unat ?ms \<longrightarrow> read_byte P s2 (?v + of_nat i) = Inr 0"
    "\<forall>x. page_floor x \<notin> set fs \<longrightarrow> phys_mem s2 x = phys_mem s x"
    using fill_segment_effect [OF s1(3,2) top(2) fz _ src] unmapped s1(2) by auto
  have run: "user_load_segment P b ph s = Inr s2" by (simp add: user_load_segment_def s1(1) s2(1))
  have "s2\<lparr>phys_mem := zeroed fs (phys_mem s)\<rparr> = s1\<lparr>phys_mem := zeroed fs (phys_mem s)\<rparr>" by (subst s2(2)) simp
  then have "fresh_mapping P entries (page_floor ?v) fs s (s2\<lparr>phys_mem := zeroed fs (phys_mem s)\<rparr>)"
    using s1(3) by (simp only: granted_def)
  moreover have "mem_inv entries s2" using inv1 by (subst s2(2)) (simp add: mem_inv_def)
  ultimately have "segment_loaded P entries b r ph fs s s2"
    using s1(2) s2(3-5) by (simp add: segment_loaded_def r zeroed_def)
  with run show ?thesis by blast
qed

interpretation user_loader: segment_loader "\<lambda>P b r. user_load_segment P b" user_fits "\<lambda>s. CDT s = genesis_cdt"
  by unfold_locales (blast intro: user_load_segment_effect, simp)

definition user_fetch_phdr :: "('pt, 'p) platform_scheme \<Rightarrow> u64 \<Rightarrow> nat \<Rightarrow> ('pt, 'm) mem_state_scheme \<Rightarrow> elf64_phdr res" where
  "user_fetch_phdr P pb i s = read_phdr P s (pb + ucast (of_nat i :: u16) * 56)"

lemma user_phdr_loop_segment_loop:
  fixes s :: "('pt, 'dev) kernel"
  shows "user_phdr_loop P b pb (map of_nat is) s = segment_loop (user_fetch_phdr P pb) (user_load_segment P b) is s"
proof (induction "is" arbitrary: s)
  case (Cons i "is")
  have "user_phdr_loop P b pb (map of_nat is) = segment_loop (user_fetch_phdr P pb) (user_load_segment P b) is"
    by (rule ext) (rule Cons.IH)
  then show ?case by (simp add: user_fetch_phdr_def [of P pb i s])
qed simp

lemma user_fetch_table:
  assumes "table_holds P entries pb 56 i phs s" "j < length phs"
  shows "user_fetch_phdr P pb (i + j) s = Inr (phs ! j)"
proof -
  let ?i = "i + j"
  have t: "?i < 2 ^ 16" "read_phdr P s (phdr_at pb 56 ?i) = Inr (phs ! j)"
    using assms by (simp_all add: table_holds_def)
  have u: "unat (of_nat ?i :: u16) = ?i" using t(1) by (intro unat_of_nat_small) simp
  have "unat (ucast (of_nat ?i :: u16) :: u64) = unat (of_nat ?i :: u16)"
    by (intro unat_ucast_small order_less_le_trans [OF u16_unat_lt]) simp
  moreover have "unat (of_nat ?i :: u64) = ?i" using t(1) by (intro unat_of_nat_small) simp
  ultimately have "(ucast (of_nat ?i :: u16) :: u64) = of_nat ?i" unfolding word_unat_eq_iff u by simp
  then show ?thesis using t(2) by (simp add: user_fetch_phdr_def phdr_at_def)
qed

lemma user_load_image:
  assumes laws: "paging_laws P entries" and inv: "mem_inv entries s" and dist: "distinct (free_frames entries s)"
    and cdt: "CDT s = genesis_cdt" and img: "image_ok P entries data hdr phs s"
    and hdr: "e_phentsize hdr = 56" "relocation (e_entry hdr) = 0" "64 \<le> len"
    and fits: "\<forall>ph \<in> set phs. loadable ph \<longrightarrow> user_fits 0 ph"
  shows "\<exists>s'. user_load P data len s = Inr (Some (e_entry hdr), s') \<and> image_loaded P entries data hdr phs s s'"
proof -
  let ?pb = "data + e_phoff hdr"
  note i = img [unfolded image_ok_def hdr]
  have fetch: "\<forall>j < length phs. \<forall>s'. undisturbed P entries s s' \<longrightarrow> user_fetch_phdr P ?pb (0 + j) s' = Inr (phs ! j)"
    using user_fetch_table [OF table_holds_later] i by blast
  have "\<exists>s'. segment_loop (user_fetch_phdr P ?pb) (user_load_segment P data) [0..<0 + length phs] s = Inr s' \<and>
      segments_placed P entries data 0 phs s s'"
    by (rule user_loader.loop_places [OF laws _ inv dist cdt fetch]) (use i fits in \<open>auto simp: page_floor_def\<close>)
  then obtain s' where s': "user_phdr_loop P data ?pb (map of_nat [0..<unat (e_phnum hdr)]) s = Inr s'"
    "segments_placed P entries data 0 phs s s'"
    using i by (auto simp: user_phdr_loop_segment_loop)
  have "undisturbed P entries s s'" using s'(2) by (simp add: segments_placed_def)
  then have "read_header P s' data = Inr hdr" using i read_header_undisturbed by metis
  moreover have "image_loaded P entries data hdr phs s s'" using segments_placed_loaded [of P entries data hdr phs s s'] s'(2) hdr(2) by simp
  ultimately show ?thesis using i s'(1) hdr(3) by (simp add: user_load_def not_less [symmetric])
qed

text \<open>The last byte of a range lies in its last page, which a shorter grant leaves unmapped.\<close>

lemma page_at_inj: "unat lo + 4096 * i < 2 ^ 64 \<Longrightarrow> unat lo + 4096 * j < 2 ^ 64 \<Longrightarrow> page_at lo i = page_at lo j \<longleftrightarrow> i = j"
  by (auto simp: word_unat_eq_iff unat_page_at)

lemma last_page:
  assumes top: "unat v + unat ms + 4095 < 2 ^ 64" and ms: "0 < ms" and n: "pages_of v ms = Suc n"
  shows "page_floor (v + of_nat (unat ms - 1)) = page_at (page_floor v) n" "unat (page_floor v) + 4096 * n < 2 ^ 64"
proof -
  have pos: "0 < unat ms" using ms by (simp add: word_less_nat_alt)
  have "(unat v + unat ms + 4095) div 4096 = Suc ((unat v + (unat ms - 1)) div 4096)"
  proof -
    have "unat v + unat ms + 4095 = unat v + (unat ms - 1) + 4096" using pos by simp
    then show ?thesis by (simp only: div_add_self2)
  qed
  then have q: "(unat v + (unat ms - 1)) div 4096 = unat v div 4096 + n"
    using n div_le_mono [of "unat v" "unat v + (unat ms - 1)" 4096] unfolding pages_of_def by linarith
  have "(unat v div 4096 + n) * 4096 \<le> unat v + (unat ms - 1)" unfolding q [symmetric] by simp
  then show lim: "unat (page_floor v) + 4096 * n < 2 ^ 64" using top by (simp add: unat_page_floor)
  have "unat (v + of_nat (unat ms - 1)) = unat v + (unat ms - 1)"
    using unat_add_no_overflow [of v "of_nat (unat ms - 1)"] unat_of_nat_small [of "unat ms - 1", where 'w = 64] top pos by simp
  then have "unat (page_floor (v + of_nat (unat ms - 1))) = (unat v div 4096 + n) * 4096" by (simp only: unat_page_floor q)
  then show "page_floor (v + of_nat (unat ms - 1)) = page_at (page_floor v) n"
    using unat_page_at [OF lim] unfolding word_unat_eq_iff by (simp add: unat_page_floor)
qed

text \<open>Writing over an unmapped byte faults.\<close>

lemma write_bytes_fault:
  "\<exists>i < length bs. translate P s (va + of_nat i) = None \<Longrightarrow> \<exists>a. write_bytes P va bs s = Inl (Page_Fault a)"
proof (induction bs arbitrary: va s)
  case (Cons b bs)
  show ?case
  proof (cases "translate P s va")
    case None
    then show ?thesis by (simp add: write_byte_def)
  next
    case (Some pa)
    obtain i where i: "i < length (b # bs)" "translate P s (va + of_nat i) = None" using Cons.prems by blast
    with Some obtain j where "i = Suc j" by (cases i) auto
    with i have "\<exists>j < length bs. translate P (s\<lparr>phys_mem := (phys_mem s)(pa := b)\<rparr>) (va + 1 + of_nat j) = None"
      by (intro exI [of _ j]) (simp add: add_ac)
    from Cons.IH [OF this] show ?thesis using Some by (simp add: write_byte_def)
  qed
qed simp

section \<open>Properties\<close>


definition user_image_kernel :: "(flat_table, (u16 \<times> nat \<times> u32) list) kernel" where
  "user_image_kernel = example_kernel\<lparr>MAPPER := Some [image_base \<mapsto> (0x300000, {PRESENT})], phys_mem := image_ram\<rparr>"

lemma user_image_kernel_facts:
  "mem_inv example_memmap user_image_kernel" "CDT user_image_kernel = genesis_cdt"
  "free_frames example_memmap user_image_kernel = [0x101000, 0x102000, 0x200000, 0x201000]"
  "address_space example_hw user_image_kernel = [image_base \<mapsto> (0x300000, {PRESENT})]" "phys_mem user_image_kernel = image_ram"
  using kernel_inv_mem [OF example_kernel_inv] example_kernel_frames
  by (simp_all add: user_image_kernel_def mem_inv_def example_kernel_def address_space_def example_hw_def)


text \<open>
  C33. The page count of the library is wrong for segments that do not start on a page boundary: it is
  computed from the size alone.  When such a segment reaches into one more page than that, the page
  stays unmapped and loading ends in a page fault of the Marshal.
\<close>

theorem unaligned_segment_faults:
  assumes "paging_laws P entries" and "mem_inv entries s" and "distinct (free_frames entries s)" and "CDT s = genesis_cdt"
    and "segment_ok P entries data 0 s ph" and "0 < p_memsz ph"
    and "unat (p_vaddr ph) + unat (p_memsz ph) + 8192 < USER_TOP"
    and "4 * ((unat (p_memsz ph) + 4095) div 4096) \<le> length (free_frames entries s)"
    and "pages_of (p_vaddr ph) (p_memsz ph) = Suc ((unat (p_memsz ph) + 4095) div 4096)"
  shows "\<exists>a. user_load_segment P data ph s = Inl (Page_Fault a)"
proof -
  let ?v = "p_vaddr ph" and ?ms = "p_memsz ph" and ?fz = "p_filesz ph"
  let ?n = "(unat ?ms + 4095) div 4096" and ?src = "data + p_offset ph"
  have "4096 * ?n \<le> unat ?ms + 4095" by simp
  then have top: "unat ?v + 4096 * (0 + ?n) < USER_TOP" "unat ?v + unat ?ms + 4095 < 2 ^ 64" using assms(7) by simp_all
  have pages: "unat ((?ms + 4095) div 4096) = ?n"
    using unat_add_no_overflow [of ?ms 4095] top(2) by (simp add: unat_div)
  have unmapped: "address_space P s (page_at (page_floor ?v) j) = None" if "j \<le> ?n" for j
  proof -
    have "page_at (page_floor ?v) j \<in> seg_pages 0 ph" using assms(9) that by (auto simp: seg_pages_def less_Suc_eq_le)
    then show ?thesis using assms(5) by (simp add: segment_ok_def)
  qed
  obtain s1 fs where s1: "grant_pages P ?v ((?ms + 4095) div 4096) s = Inr s1" "length fs = ?n"
    "granted P entries (page_floor ?v) fs s s1"
    using grant_loop_effect [OF assms(1) top(1) assms(2,4) _ _ assms(3)] unmapped assms(8,9) by (auto simp: grant_pages_def pages)
  have fsub: "set fs \<subseteq> set (free_frames entries s)" using s1(3) by (simp add: granted_def fresh_mapping_def)
  have "\<exists>pa. translate P s (?src + of_nat i) = Some pa \<and> page_floor pa \<notin> set fs" if "i < unat ?fz" for i
    using assms(5) that fsub by (fastforce simp: segment_ok_def settled_def)
  from granted_read [OF s1(3) _ this] unmapped s1(2) obtain bs where
    bs: "read_bytes P s1 ?src (unat ?fz) = Inr bs" "length bs = unat ?fz" by auto
  have fz: "?fz \<le> ?ms" "unat ?fz \<le> unat ?ms" using assms(5) by (simp_all add: segment_ok_def word_le_nat_alt)
  let ?i = "unat ?ms - 1"
  have i: "?i < unat ?ms" using assms(6) by (simp add: word_less_nat_alt)
  note last = last_page [OF top(2) assms(6,9)]
  have "page_at (page_floor ?v) ?n \<noteq> page_at (page_floor ?v) j" if "j < ?n" for j
    using page_at_inj [OF last(2), of j] last(2) that by simp
  then have "address_space P s1 (page_at (page_floor ?v) ?n) = None"
    using granted_other [OF s1(3)] s1(2) unmapped [of ?n] by simp
  then have "translate P s1 (?v + of_nat ?i) = None" by (simp only: translate_address_space last(1) option.map)
  then have "\<exists>a. write_bytes P ?v (bs @ replicate (unat ?ms - unat ?fz) 0) s1 = Inl (Page_Fault a)"
    using i fz(2) bs(2) by (intro write_bytes_fault) auto
  then show ?thesis using s1(1) fill_segment_bytes [OF fz(1) bs] by (simp add: user_load_segment_def)
qed

text \<open>Thirty-two bytes that start eight bytes before the end of a page.\<close>

definition unaligned_phdr :: elf64_phdr where
  "unaligned_phdr = \<lparr>p_type = 1, p_offset = 120, p_vaddr = 0x400FF8, p_filesz = 4, p_memsz = 32\<rparr>"

theorem unaligned_segment_faults_witness:
  "\<exists>a. user_load_segment example_hw image_base unaligned_phdr user_image_kernel = Inl (Page_Fault a)"
proof -
  note k = user_image_kernel_facts
  have ph: "p_vaddr unaligned_phdr = 0x400FF8" "p_memsz unaligned_phdr = 32" "p_filesz unaligned_phdr = 4" "p_offset unaligned_phdr = 120"
    by (simp_all add: unaligned_phdr_def)
  have n: "pages_of (p_vaddr unaligned_phdr) (p_memsz unaligned_phdr) = 2" by (simp add: ph pages_of_def)
  have "settled example_hw example_memmap user_image_kernel (image_base + 120 + of_nat i)" if "i < 4" for i
    using image_translate [of example_hw user_image_kernel "{PRESENT}" "120 + i"] settled_outside [OF k(1), of example_hw] that
    by (simp add: k(4) all_frames_example add.assoc)
  then have st: "settled_range example_hw example_memmap user_image_kernel (image_base + 120) 4" by blast
  have "page_floor 0x400FF8 = 0x400000" by (simp add: page_floor_def)
  then have "seg_pages 0 unaligned_phdr \<subseteq> (\<lambda>j. page_at 0x400000 j) ` {0, 1}"
    unfolding seg_pages_def n by (auto simp: ph less_2_cases_iff)
  moreover have "\<forall>pg \<in> (\<lambda>j. page_at 0x400000 j) ` {0, 1}. address_space example_hw user_image_kernel pg = None"
    by (simp add: page_at_def k(4))
  ultimately have "\<forall>pg \<in> seg_pages 0 unaligned_phdr. address_space example_hw user_image_kernel pg = None"
    by blast
  with st have ok: "segment_ok example_hw example_memmap image_base 0 user_image_kernel unaligned_phdr"
    by (simp add: segment_ok_def ph)
  show ?thesis
    by (rule unaligned_segment_faults [OF example_hw_laws k(1) _ k(2) ok]) (simp_all add: ph k(3) pages_of_def)
qed

end
