(* ===== verification/Struct_Layout.thy ===== *)
theory Struct_Layout
  imports User_Elf
begin

text \<open>
  The structures that the program reads from raw memory, and where their fields are: the ELF headers of
  the kernel (\<^verbatim>\<open>stardust/src/task/elf.rs\<close>, \<^verbatim>\<open>repr(C, packed)\<close>) and of the library
  (\<^verbatim>\<open>userland/libs/libstardust/src/elf.rs\<close>, \<^verbatim>\<open>repr(C)\<close>), the module descriptor of the boot loader
  (\<^verbatim>\<open>stardust/src/task/loader.rs\<close>) and the message format of the library (\<^verbatim>\<open>libstardust/src/lib.rs\<close>).

  The loaders are modelled by reads at fixed offsets.  Here the offsets are computed from the structure
  declarations by the rules of the two representations, and the lemmas show that the reads are those of
  the declared fields.
\<close>

section \<open>Model: representations\<close>

datatype field_type = U8 | U16 | U32 | U64 | Pointer | Byte_Array nat

fun type_size :: "field_type \<Rightarrow> nat" where
  "type_size U8 = 1"
| "type_size U16 = 2"
| "type_size U32 = 4"
| "type_size U64 = 8"
| "type_size Pointer = 8"
| "type_size (Byte_Array n) = n"

fun type_align :: "field_type \<Rightarrow> nat" where
  "type_align (Byte_Array n) = 1"
| "type_align t = type_size t"

datatype representation = Repr_C | Repr_C_Packed

record struct =
  struct_repr :: representation
  struct_fields :: "(string \<times> field_type) list"

definition round_up :: "nat \<Rightarrow> nat \<Rightarrow> nat" where
  "round_up a n = (n + (a - 1)) div a * a"

text \<open>\<^verbatim>\<open>repr(C)\<close>: each field at the next multiple of its alignment; \<^verbatim>\<open>packed\<close>: without gaps.\<close>

definition field_align :: "representation \<Rightarrow> field_type \<Rightarrow> nat" where
  "field_align r t = (case r of Repr_C \<Rightarrow> type_align t | Repr_C_Packed \<Rightarrow> 1)"

fun place_fields :: "representation \<Rightarrow> nat \<Rightarrow> (string \<times> field_type) list \<Rightarrow> (string \<times> nat \<times> field_type) list" where
  "place_fields r n [] = []"
| "place_fields r n ((name, t) # fs) =
     (name, round_up (field_align r t) n, t) # place_fields r (round_up (field_align r t) n + type_size t) fs"

definition struct_align :: "struct \<Rightarrow> nat" where
  "struct_align st = foldr max (map (field_align (struct_repr st) \<circ> snd) (struct_fields st)) 1"

definition struct_size :: "struct \<Rightarrow> nat" where
  "struct_size st =
     round_up (struct_align st) (foldl (\<lambda>m (_, off, t). max m (off + type_size t)) 0 (place_fields (struct_repr st) 0 (struct_fields st)))"

text \<open>The value of an integer field of a structure at address \<open>a\<close>.\<close>

definition read_field :: "('pt, 'p) platform_scheme \<Rightarrow> ('pt, 'm) mem_state_scheme \<Rightarrow> struct \<Rightarrow> u64 \<Rightarrow> string \<Rightarrow> u64 res" where
  "read_field P s st a name =
     (case map_of (place_fields (struct_repr st) 0 (struct_fields st)) name of
        None \<Rightarrow> Inl Unwrap_None
      | Some (off, t) \<Rightarrow> read_le P s (a + of_nat off) (type_size t))"

section \<open>Model: the declarations\<close>

definition Elf64Header :: struct where
  "Elf64Header =
     \<lparr>struct_repr = Repr_C_Packed,
      struct_fields = [(''e_ident'', Byte_Array 16), (''e_type'', U16), (''e_machine'', U16), (''e_version'', U32), (''e_entry'', U64),
        (''e_phoff'', U64), (''e_shoff'', U64), (''e_flags'', U32), (''e_ehsize'', U16), (''e_phentsize'', U16), (''e_phnum'', U16),
        (''e_shentsize'', U16), (''e_shnum'', U16), (''e_shstrndx'', U16)]\<rparr>"

definition Elf64Phdr :: struct where
  "Elf64Phdr =
     \<lparr>struct_repr = Repr_C_Packed,
      struct_fields = [(''p_type'', U32), (''p_flags'', U32), (''p_offset'', U64), (''p_vaddr'', U64), (''p_paddr'', U64), (''p_filesz'', U64),
        (''p_memsz'', U64), (''p_align'', U64)]\<rparr>"

definition lib_Elf64Ehdr :: struct where
  "lib_Elf64Ehdr =
     \<lparr>struct_repr = Repr_C,
      struct_fields = [(''e_ident'', Byte_Array 16), (''e_type'', U16), (''e_machine'', U16), (''e_version'', U32), (''e_entry'', U64),
        (''e_phoff'', U64), (''e_shoff'', U64), (''e_flags'', U32), (''e_ehsize'', U16), (''e_phentsize'', U16), (''e_phnum'', U16),
        (''e_shentsize'', U16), (''e_shnum'', U16), (''e_shstrndx'', U16)]\<rparr>"

definition lib_Elf64Phdr :: struct where
  "lib_Elf64Phdr =
     \<lparr>struct_repr = Repr_C,
      struct_fields = [(''p_type'', U32), (''p_flags'', U32), (''p_offset'', U64), (''p_vaddr'', U64), (''p_paddr'', U64), (''p_filesz'', U64),
        (''p_memsz'', U64), (''p_align'', U64)]\<rparr>"

definition LimineModuleSafe :: struct where
  "LimineModuleSafe =
     \<lparr>struct_repr = Repr_C,
      struct_fields = [(''revision'', U64), (''base'', Pointer), (''length'', U64), (''path'', Pointer), (''cmdline'', Pointer)]\<rparr>"

definition IpcMessage :: struct where
  "IpcMessage =
     \<lparr>struct_repr = Repr_C,
      struct_fields = [(''sender_id'', U32), (''target_id'', U32), (''action'', U16), (''flags'', U16), (''payload'', Byte_Array 52)]\<rparr>"

lemmas struct_defs = Elf64Header_def Elf64Phdr_def lib_Elf64Ehdr_def lib_Elf64Phdr_def LimineModuleSafe_def IpcMessage_def

section \<open>Offsets\<close>

text \<open>The headers, read field by field.\<close>

definition header_by_fields :: "struct \<Rightarrow> ('pt, 'p) platform_scheme \<Rightarrow> ('pt, 'm) mem_state_scheme \<Rightarrow> u64 \<Rightarrow> elf64_header res" where
  "header_by_fields st P s a =
     (if a = 0 then Inl (Bad_Pointer a) else
      bindE (read_bytes P s a 16) (\<lambda>ident.
      bindE (read_field P s st a ''e_entry'') (\<lambda>entry.
      bindE (read_field P s st a ''e_phoff'') (\<lambda>phoff.
      bindE (read_field P s st a ''e_phentsize'') (\<lambda>phentsize.
      bindE (read_field P s st a ''e_phnum'') (\<lambda>phnum.
      Inr \<lparr>e_ident = ident, e_entry = entry, e_phoff = phoff, e_phentsize = ucast phentsize, e_phnum = ucast phnum\<rparr>))))))"

definition phdr_by_fields :: "struct \<Rightarrow> ('pt, 'p) platform_scheme \<Rightarrow> ('pt, 'm) mem_state_scheme \<Rightarrow> u64 \<Rightarrow> elf64_phdr res" where
  "phdr_by_fields st P s a =
     (if a = 0 then Inl (Bad_Pointer a) else
      bindE (read_field P s st a ''p_type'') (\<lambda>ty.
      bindE (read_field P s st a ''p_offset'') (\<lambda>offset.
      bindE (read_field P s st a ''p_vaddr'') (\<lambda>vaddr.
      bindE (read_field P s st a ''p_filesz'') (\<lambda>filesz.
      bindE (read_field P s st a ''p_memsz'') (\<lambda>memsz.
      Inr \<lparr>p_type = ucast ty, p_offset = offset, p_vaddr = vaddr, p_filesz = filesz, p_memsz = memsz\<rparr>))))))"

text \<open>The offsets: no declaration has gaps, so that both representations agree.\<close>

definition ehdr_offsets :: "(string \<times> nat \<times> field_type) list" where
  "ehdr_offsets =
     [(''e_ident'', 0, Byte_Array 16), (''e_type'', 16, U16), (''e_machine'', 18, U16), (''e_version'', 20, U32), (''e_entry'', 24, U64),
      (''e_phoff'', 32, U64), (''e_shoff'', 40, U64), (''e_flags'', 48, U32), (''e_ehsize'', 52, U16), (''e_phentsize'', 54, U16),
      (''e_phnum'', 56, U16), (''e_shentsize'', 58, U16), (''e_shnum'', 60, U16), (''e_shstrndx'', 62, U16)]"

definition phdr_offsets :: "(string \<times> nat \<times> field_type) list" where
  "phdr_offsets =
     [(''p_type'', 0, U32), (''p_flags'', 4, U32), (''p_offset'', 8, U64), (''p_vaddr'', 16, U64), (''p_paddr'', 24, U64),
      (''p_filesz'', 32, U64), (''p_memsz'', 40, U64), (''p_align'', 48, U64)]"

lemma placed:
  "place_fields (struct_repr Elf64Header) 0 (struct_fields Elf64Header) = ehdr_offsets"
  "place_fields (struct_repr lib_Elf64Ehdr) 0 (struct_fields lib_Elf64Ehdr) = ehdr_offsets"
  "place_fields (struct_repr Elf64Phdr) 0 (struct_fields Elf64Phdr) = phdr_offsets"
  "place_fields (struct_repr lib_Elf64Phdr) 0 (struct_fields lib_Elf64Phdr) = phdr_offsets"
  unfolding struct_defs ehdr_offsets_def phdr_offsets_def by (simp_all add: round_up_def field_align_def)

lemma struct_aligns:
  "struct_align Elf64Header = 1" "struct_align Elf64Phdr = 1" "struct_align lib_Elf64Ehdr = 8" "struct_align lib_Elf64Phdr = 8"
  unfolding struct_align_def struct_defs by (simp_all add: field_align_def)

lemma struct_sizes:
  "struct_size Elf64Header = 64" "struct_size lib_Elf64Ehdr = 64" "struct_size Elf64Phdr = 56" "struct_size lib_Elf64Phdr = 56"
  unfolding struct_size_def placed struct_aligns ehdr_offsets_def phdr_offsets_def by (simp_all add: round_up_def)

lemma other_sizes: "struct_size LimineModuleSafe = 40" "struct_size IpcMessage = 64"
  by (simp_all add: struct_size_def struct_align_def round_up_def field_align_def LimineModuleSafe_def IpcMessage_def)

lemma ehdr_lookup:
  "map_of ehdr_offsets ''e_entry'' = Some (24, U64)" "map_of ehdr_offsets ''e_phoff'' = Some (32, U64)"
  "map_of ehdr_offsets ''e_phentsize'' = Some (54, U16)" "map_of ehdr_offsets ''e_phnum'' = Some (56, U16)"
  by (simp_all add: ehdr_offsets_def)

lemma phdr_lookup:
  "map_of phdr_offsets ''p_type'' = Some (0, U32)" "map_of phdr_offsets ''p_offset'' = Some (8, U64)"
  "map_of phdr_offsets ''p_vaddr'' = Some (16, U64)" "map_of phdr_offsets ''p_filesz'' = Some (32, U64)"
  "map_of phdr_offsets ''p_memsz'' = Some (40, U64)"
  by (simp_all add: phdr_offsets_def)

lemma read_header_fields:
  "header_by_fields Elf64Header P s a = read_header P s a" "header_by_fields lib_Elf64Ehdr P s a = read_header P s a"
  unfolding read_header_def header_by_fields_def read_field_def placed ehdr_lookup by simp_all

lemma read_phdr_fields:
  "phdr_by_fields Elf64Phdr P s a = read_phdr P s a" "phdr_by_fields lib_Elf64Phdr P s a = read_phdr P s a"
  unfolding read_phdr_def phdr_by_fields_def read_field_def placed phdr_lookup by simp_all

text \<open>The two words of the module descriptor that the kernel uses.\<close>

lemma module_fields:
  "read_field P s LimineModuleSafe a ''base'' = read_le P s (a + 8) 8"
  "read_field P s LimineModuleSafe a ''length'' = read_le P s (a + 16) 8"
  by (simp_all add: read_field_def LimineModuleSafe_def round_up_def field_align_def)

section \<open>Properties\<close>


end
