(* ===== verification/Display.thy ===== *)
theory Display
  imports Stardust_Prelude
begin

text \<open>
  Drawing: the host function \<open>draw_rect\<close> that the Marshal gives to sandboxed applications
  (\<^verbatim>\<open>userland/marshal/src/main.rs\<close>), and how the Marshal learns the geometry of the screen.

  The Marshal is compiled in release mode: its arithmetic wraps.  An \<open>i32\<close> is a 32-bit word read
  with \<open>sint\<close>; \<open>x as u64\<close> is sign extension (\<open>scast\<close>) and \<open>n as i32\<close> truncation
  (\<open>ucast\<close>).  The volatile stores to the framebuffer are a list of pixel indices and colours.
\<close>

section \<open>Signed arithmetic\<close>

type_synonym i32 = "32 word"

lemma sint_range: "- (2 ^ 31) \<le> sint (x :: i32)" "sint (x :: i32) < 2 ^ 31"
  using sint_greater_eq [of x] sint_less [of x] by simp_all

lemma sint_add_no_overflow:
  assumes "- (2 ^ 31) \<le> sint x + sint y" "sint x + sint y < 2 ^ 31"
  shows "sint (x + y :: i32) = sint x + sint y"
  using assms by (simp add: sint_word_ariths(1) signed_take_bit_int_eq_self)

lemma sint_sub_no_overflow:
  assumes "- (2 ^ 31) \<le> sint x - sint y" "sint x - sint y < 2 ^ 31"
  shows "sint (x - y :: i32) = sint x - sint y"
  using assms by (simp add: sint_word_ariths(2) signed_take_bit_int_eq_self)

lemma sint_of_int_small: "- (2 ^ 31) \<le> k \<Longrightarrow> k < 2 ^ 31 \<Longrightarrow> sint (word_of_int k :: i32) = k"
  by (simp add: sint_sbintrunc' signed_take_bit_int_eq_self)

text \<open>\<open>x as u64\<close> for an \<open>i32\<close>.\<close>

lemma uint_scast: "uint (scast (x :: i32) :: u64) = sint x mod 2 ^ 64"
  by (simp only: scast_eq uint_word_of_int) simp

lemma uint_scast_nonneg: "0 \<le> sint x \<Longrightarrow> uint (scast (x :: i32) :: u64) = sint x"
  using sint_range(2) [of x] unfolding uint_scast by (intro mod_pos_pos_trivial) auto

lemma uint_scast_neg: "sint x < 0 \<Longrightarrow> uint (scast (x :: i32) :: u64) = 2 ^ 64 + sint x"
proof -
  assume neg: "sint x < 0"
  have "sint x mod 2 ^ 64 = (2 ^ 64 + sint x) mod 2 ^ 64" by simp
  also have "\<dots> = 2 ^ 64 + sint x" using neg sint_range(1) [of x] by (intro mod_pos_pos_trivial) auto
  finally show ?thesis unfolding uint_scast .
qed

lemma uint_add_no_overflow: "uint a + uint b < 2 ^ 64 \<Longrightarrow> uint (a + b :: u64) = uint a + uint b"
  by (simp add: uint_word_ariths(1))

lemma uint_mult_no_overflow: "uint a * uint b < 2 ^ 64 \<Longrightarrow> uint (a * b :: u64) = uint a * uint b"
  by (simp add: uint_word_ariths(3))

section \<open>Model: the framebuffer of the Marshal\<close>

record screen =
  FB_PTR :: u64
  FB_WIDTH :: u64
  FB_HEIGHT :: u64

definition screen_new :: screen where
  "screen_new = \<lparr>FB_PTR = 0, FB_WIDTH = 0, FB_HEIGHT = 0\<rparr>"

text \<open>The decoding of the result of \<open>sys_map_framebuffer\<close> in \<open>_start\<close>.\<close>

definition set_screen :: "u64 \<Rightarrow> screen \<Rightarrow> screen" where
  "set_screen fb_meta F =
     (if fb_meta \<noteq> 0 \<and> fb_meta \<noteq> u64_MAX then
        let pitch = drop_bit 32 fb_meta
        in F\<lparr>FB_HEIGHT := fb_meta AND 0xFFFFFFFF, FB_WIDTH := pitch div 4, FB_PTR := 0xB0000000\<rparr>
      else F)"

section \<open>Model: draw_rect\<close>

text \<open>The clipping of one dimension, and the values of \<open>for i in 0..n\<close> over \<open>i32\<close>.\<close>

definition clip :: "u64 \<Rightarrow> i32 \<Rightarrow> i32 \<Rightarrow> i32" where
  "clip limit x len = (if scast x + scast len > limit then ucast (limit - scast x) else len)"

definition range_i32 :: "i32 \<Rightarrow> i32 list" where
  "range_i32 n = map of_nat [0..<nat (sint n)]"

definition draw_rect :: "screen \<Rightarrow> i32 \<Rightarrow> i32 \<Rightarrow> i32 \<Rightarrow> i32 \<Rightarrow> i32 \<Rightarrow> (u64 \<times> u32) list" where
  "draw_rect F x y width height color =
     (if FB_PTR F = 0 \<or> sint x < 0 \<or> sint y < 0 then []
      else
        let c = color :: u32;
            draw_w = clip (FB_WIDTH F) x width;
            draw_h = clip (FB_HEIGHT F) y height
        in concat (map (\<lambda>row. map (\<lambda>col.
             (scast (y + row) * FB_WIDTH F + scast (x + col), c)) (range_i32 draw_w)) (range_i32 draw_h)))"

section \<open>Clipping\<close>

lemma word_of_int_mod64: "(word_of_int (k mod 2 ^ 64) :: i32) = word_of_int k"
  by (simp add: word_of_int_eq_iff take_bit_eq_mod mod_mod_cancel)

lemma sint_ucast_diff:
  assumes "uint limit < 2 ^ 31" "0 \<le> sint (x :: i32)"
  shows "sint (ucast (limit - scast x :: u64) :: i32) = uint limit - sint x"
proof -
  have "uint (limit - scast x) = (uint limit - sint x mod 2 ^ 64) mod 2 ^ 64"
    using uint_word_ariths(2) [of limit "scast x"] unfolding uint_scast by simp
  also have "\<dots> = (uint limit - sint x) mod 2 ^ 64" by (rule mod_diff_right_eq)
  finally have "uint (limit - scast x) = (uint limit - sint x) mod 2 ^ 64" .
  then have "(ucast (limit - scast x) :: i32) = word_of_int (uint limit - sint x)"
    by (simp only: ucast_eq word_of_int_mod64)
  moreover have "- (2 ^ 31) \<le> uint limit - sint x" "uint limit - sint x < 2 ^ 31"
    using assms sint_range(2) [of x] uint_ge_0 [of limit] by linarith+
  ultimately show ?thesis by (simp only: sint_of_int_small)
qed

text \<open>What remains of a length: for a non-negative one, what fits.\<close>

lemma sint_clip:
  assumes "uint limit < 2 ^ 31" "0 \<le> sint x" "0 \<le> sint len"
  shows "sint (clip limit x len) = min (sint len) (uint limit - sint x)"
proof -
  have "uint (scast x + scast len :: u64) = sint x + sint len"
    using uint_add_no_overflow [of "scast x :: u64" "scast len"] assms sint_range(2) [of x] sint_range(2) [of len]
    by (simp add: uint_scast_nonneg)
  then show ?thesis
    using assms sint_ucast_diff [OF assms(1,2)] by (auto simp: clip_def word_less_def)
qed

text \<open>A negative length either leaves nothing or, if it reaches beyond the origin, everything.\<close>

lemma sint_clip_neg:
  assumes "uint limit < 2 ^ 31" "0 \<le> sint x" "sint len < 0"
  shows "sint (clip limit x len) = (if sint x + sint len < 0 then uint limit - sint x else
    if sint x + sint len > uint limit then uint limit - sint x else sint len)"
proof (cases "sint x + sint len < 0")
  case True
  then have "uint (scast x + scast len :: u64) = 2 ^ 64 + (sint x + sint len)"
    using uint_add_no_overflow [of "scast x :: u64" "scast len"] assms
    by (simp add: uint_scast_nonneg uint_scast_neg)
  moreover have "uint limit < 2 ^ 64 + (sint x + sint len)" using assms sint_range(1) [of len] by simp
  ultimately show ?thesis using True sint_ucast_diff [OF assms(1,2)] by (simp add: clip_def word_less_def)
next
  case False
  have "uint (scast x + scast len :: u64) = (uint (scast x :: u64) + uint (scast len :: u64)) mod 2 ^ 64"
    by (simp add: uint_word_ariths(1))
  also have "\<dots> = (2 ^ 64 + (sint x + sint len)) mod 2 ^ 64"
    by (simp only: uint_scast_nonneg [OF assms(2)] uint_scast_neg [OF assms(3)] add.left_commute)
  also have "\<dots> = sint x + sint len" using False assms(3) sint_range(2) [of x] by simp
  finally show ?thesis using False assms sint_ucast_diff [OF assms(1,2)] by (auto simp: clip_def word_less_def)
qed

text \<open>Whatever the length, what is drawn ends on the screen.\<close>

lemma clip_fits:
  assumes "uint limit < 2 ^ 31" "0 \<le> sint x" "0 < sint (clip limit x len)"
  shows "sint x + sint (clip limit x len) \<le> uint limit"
  using assms sint_clip [OF assms(1,2)] sint_clip_neg [OF assms(1,2)]
  by (cases "0 \<le> sint len") (auto split: if_splits)


section \<open>The pixels of a rectangle\<close>

lemma set_range_i32: "i \<in> set (range_i32 n) \<longleftrightarrow> 0 \<le> sint i \<and> sint i < sint n"
proof
  assume "i \<in> set (range_i32 n)"
  then obtain k where k: "k < nat (sint n)" "i = of_nat k" by (auto simp: range_i32_def)
  then have "int k < 2 ^ 31" using sint_range(2) [of n] by linarith
  moreover have "i = word_of_int (int k)" using k(2) by simp
  ultimately have "sint i = int k" by (simp only: sint_of_int_small)
  with k(1) show "0 \<le> sint i \<and> sint i < sint n" by simp
next
  assume i: "0 \<le> sint i \<and> sint i < sint n"
  then have "(of_nat (nat (sint i)) :: i32) = of_int (sint i)" by (metis int_nat_eq of_int_of_nat_eq)
  then have "i = of_nat (nat (sint i))" by simp
  moreover have "nat (sint i) < nat (sint n)" using i by simp
  ultimately show "i \<in> set (range_i32 n)" unfolding range_i32_def by (metis atLeast0LessThan atLeastLessThan_upt imageI lessThan_iff set_map)
qed

text \<open>The index of the pixel in column \<open>px\<close> of row \<open>py\<close>.\<close>

lemma pixel_index:
  assumes "uint W < 2 ^ 31" "0 \<le> sint x" "0 \<le> sint y" "0 \<le> sint row" "0 \<le> sint col"
    "sint y + sint row < 2 ^ 31" "sint x + sint col < uint W"
  shows "uint (scast (y + row :: i32) * W + scast (x + col :: i32) :: u64) = (sint y + sint row) * uint W + (sint x + sint col)"
proof -
  have s: "sint (y + row) = sint y + sint row" "sint (x + col) = sint x + sint col"
    using assms sint_add_no_overflow [of y row] sint_add_no_overflow [of x col] by simp_all
  have "(sint y + sint row) * uint W \<le> 2 ^ 31 * 2 ^ 31" using assms by (intro mult_mono) auto
  then have "uint (scast (y + row) * W) = (sint y + sint row) * uint W"
    using uint_mult_no_overflow [of "scast (y + row) :: u64" W] s(1) assms(3,4) by (simp add: uint_scast_nonneg)
  moreover have "(sint y + sint row) * uint W + (sint x + sint col) < 2 ^ 64"
    using \<open>(sint y + sint row) * uint W \<le> 2 ^ 31 * 2 ^ 31\<close> assms(1,7) by simp
  ultimately show ?thesis
    using uint_add_no_overflow [of "scast (y + row) * W" "scast (x + col)"] s(2) assms(2,5)
    by (simp add: uint_scast_nonneg)
qed

text \<open>The pixels written, in terms of the clipped sizes.\<close>

lemma draw_rect_pixels:
  assumes "FB_PTR F \<noteq> 0" "uint (FB_WIDTH F) < 2 ^ 31" "uint (FB_HEIGHT F) < 2 ^ 31" "0 \<le> sint x" "0 \<le> sint y"
  shows "uint ` fst ` set (draw_rect F x y w h c) =
    {py * uint (FB_WIDTH F) + px | px py.
       sint x \<le> px \<and> px < sint x + sint (clip (FB_WIDTH F) x w) \<and>
       sint y \<le> py \<and> py < sint y + sint (clip (FB_HEIGHT F) y h)}"
    (is "?L = ?R")
proof -
  let ?W = "FB_WIDTH F" and ?cw = "clip (FB_WIDTH F) x w" and ?ch = "clip (FB_HEIGHT F) y h"
  have L: "?L = (\<lambda>(row, col). uint (scast (y + row) * ?W + scast (x + col) :: u64)) `
      (set (range_i32 ?ch) \<times> set (range_i32 ?cw))"
    using assms(1,4,5) by (force simp: draw_rect_def Let_def)
  have idx: "uint (scast (y + row) * ?W + scast (x + col) :: u64) = (sint y + sint row) * uint ?W + (sint x + sint col)"
    if "row \<in> set (range_i32 ?ch)" "col \<in> set (range_i32 ?cw)" for row col
  proof (rule pixel_index [OF assms(2,4,5)])
    show "0 \<le> sint row" "0 \<le> sint col" using that by (simp_all add: set_range_i32)
    show "sint y + sint row < 2 ^ 31"
      using that(1) clip_fits [OF assms(3,5), of h] assms(3) by (simp add: set_range_i32)
    show "sint x + sint col < uint ?W" using that(2) clip_fits [OF assms(2,4), of w] by (simp add: set_range_i32)
  qed
  show ?thesis
  proof (intro equalityI subsetI)
    fix p assume "p \<in> ?L"
    then obtain row col where rc: "row \<in> set (range_i32 ?ch)" "col \<in> set (range_i32 ?cw)"
      "p = uint (scast (y + row) * ?W + scast (x + col) :: u64)" unfolding L by auto
    then show "p \<in> ?R" using idx [OF rc(1,2)]
      by (intro CollectI exI [of _ "sint x + sint col"] exI [of _ "sint y + sint row"]) (simp add: set_range_i32)
  next
    fix p assume "p \<in> ?R"
    then obtain px py where p: "p = py * uint ?W + px" "sint x \<le> px" "px < sint x + sint ?cw"
      "sint y \<le> py" "py < sint y + sint ?ch" by auto
    obtain row col :: i32 where s: "sint row = py - sint y" "sint col = px - sint x"
    proof
      show "sint (word_of_int (py - sint y) :: i32) = py - sint y"
        by (rule sint_of_int_small) (use p sint_range(2) [of ?ch] in linarith)+
      show "sint (word_of_int (px - sint x) :: i32) = px - sint x"
        by (rule sint_of_int_small) (use p sint_range(2) [of ?cw] in linarith)+
    qed
    have "row \<in> set (range_i32 ?ch)" "col \<in> set (range_i32 ?cw)"
      using p s by (simp_all add: set_range_i32)
    moreover from idx [OF this] have "p = uint (scast (y + row) * ?W + scast (x + col) :: u64)"
      using s p(1) by simp
    ultimately show "p \<in> ?L" unfolding L by force
  qed
qed

text \<open>The far border of a clipped side.\<close>

lemma below_clipped: "p < a + min b (l - a) \<longleftrightarrow> p < a + b \<and> p < (l :: int)"
  by (auto simp: min_def)

section \<open>Properties\<close>

text \<open>
  Drawing is memory safe: whatever five numbers a sandboxed application passes, every pixel that
  \<open>draw_rect\<close> writes lies on the screen (its index is below width times height), on every screen of
  less than \<open>2^31\<close> columns and rows.
\<close>

theorem draw_rect_stays_on_screen:
  assumes "uint (FB_WIDTH F) < 2 ^ 31" and "uint (FB_HEIGHT F) < 2 ^ 31" and "(i, col) \<in> set (draw_rect F x y w h c)"
  shows "uint i < uint (FB_WIDTH F) * uint (FB_HEIGHT F)"
proof -
  let ?W = "uint (FB_WIDTH F)" and ?H = "uint (FB_HEIGHT F)"
  have drawn: "FB_PTR F \<noteq> 0" "0 \<le> sint x" "0 \<le> sint y"
    using assms(3) by (auto simp: draw_rect_def split: if_splits)
  have "uint i \<in> uint ` fst ` set (draw_rect F x y w h c)" using assms(3) by force
  then obtain px py where i: "uint i = py * ?W + px" "sint x \<le> px" "px < sint x + sint (clip (FB_WIDTH F) x w)"
    "sint y \<le> py" "py < sint y + sint (clip (FB_HEIGHT F) y h)"
    unfolding draw_rect_pixels [OF drawn(1) assms(1,2) drawn(2,3)] by auto
  have "px < ?W" using clip_fits [OF assms(1) drawn(2), of w] i(2,3) by linarith
  then have "py * ?W + px < (py + 1) * ?W" by (simp add: algebra_simps)
  moreover have "py + 1 \<le> ?H" using clip_fits [OF assms(2) drawn(3), of h] i(4,5) by linarith
  then have "(py + 1) * ?W \<le> ?H * ?W" by (rule mult_right_mono) simp
  ultimately show ?thesis using i(1) by (simp add: mult.commute)
qed

definition example_screen :: screen where
  "example_screen = \<lparr>FB_PTR = 0xB0000000, FB_WIDTH = 4, FB_HEIGHT = 2\<rparr>"

lemma example_draw: "draw_rect example_screen 3 1 5 7 9 = [(7, 9)]"
  by (simp add: draw_rect_def example_screen_def clip_def range_i32_def)

theorem draw_rect_stays_on_screen_witness:
  "draw_rect example_screen 3 1 5 7 9 = [(7, 9)] \<and> uint (7 :: u64) < 4 * 2"
  using draw_rect_stays_on_screen [of example_screen 7 9 3 1 5 7 9] example_draw
  by (simp add: example_screen_def)

text \<open>
  C31. Drawing is exact: for a rectangle of non-negative size whose corner has non-negative
  coordinates, the pixels written are exactly those of the rectangle that lie on the screen.
\<close>

theorem draw_rect_draws_visible_part:
  assumes "FB_PTR F \<noteq> 0" and "uint (FB_WIDTH F) < 2 ^ 31" and "uint (FB_HEIGHT F) < 2 ^ 31"
    and "0 \<le> sint x" and "0 \<le> sint y" and "0 \<le> sint w" and "0 \<le> sint h"
  shows "uint ` fst ` set (draw_rect F x y w h c) =
    {py * uint (FB_WIDTH F) + px | px py. sint x \<le> px \<and> px < sint x + sint w \<and> px < uint (FB_WIDTH F) \<and>
       sint y \<le> py \<and> py < sint y + sint h \<and> py < uint (FB_HEIGHT F)}"
  unfolding draw_rect_pixels [OF assms(1-5)] sint_clip [OF assms(2,4,6)] sint_clip [OF assms(3,5,7)]
  by (simp only: below_clipped conj_assoc)

theorem draw_rect_draws_visible_part_witness:
  "uint ` fst ` set (draw_rect example_screen 3 1 5 7 9) =
    {py * 4 + px | px py. 3 \<le> px \<and> px < 8 \<and> px < 4 \<and> 1 \<le> py \<and> py < 8 \<and> py < 2}"
  using draw_rect_draws_visible_part [of example_screen 3 1 5 7 9] by (simp add: example_screen_def)

text \<open>
  A negative width that reaches beyond the left border is not clipped to nothing: \<open>draw_rect\<close>
  then fills every row of the rectangle up to the right border of the screen.
\<close>

theorem draw_rect_negative_width_fills_row:
  assumes "FB_PTR F \<noteq> 0" and "uint (FB_WIDTH F) < 2 ^ 31" and "uint (FB_HEIGHT F) < 2 ^ 31"
    and "0 \<le> sint x" and "0 \<le> sint y" and "sint x + sint w < 0" and "0 \<le> sint h"
  shows "uint ` fst ` set (draw_rect F x y w h c) =
    {py * uint (FB_WIDTH F) + px | px py. sint x \<le> px \<and> px < uint (FB_WIDTH F) \<and>
       sint y \<le> py \<and> py < sint y + sint h \<and> py < uint (FB_HEIGHT F)}"
proof -
  have "sint w < 0" using assms(4,6) by simp
  with sint_clip_neg [OF assms(2,4) this] assms(6) have "sint x + sint (clip (FB_WIDTH F) x w) = uint (FB_WIDTH F)"
    by simp
  then show ?thesis
    unfolding draw_rect_pixels [OF assms(1-5)] sint_clip [OF assms(3,5,7)]
    by (simp only: below_clipped conj_assoc)
qed

theorem draw_rect_negative_width_fills_row_witness:
  "uint ` fst ` set (draw_rect example_screen 1 0 (- 2) 1 9) =
    {py * 4 + px | px py. 1 \<le> px \<and> px < 4 \<and> 0 \<le> py \<and> py < 1 \<and> py < 2}"
  using draw_rect_negative_width_fills_row [of example_screen 1 0 "- 2" 1 9] by (simp add: example_screen_def)

end
