(* ===== verification/Ps2_Hid.thy ===== *)
theory Ps2_Hid
  imports Lib_Stardust
begin

text \<open>
  The keyboard and mouse driver \<^verbatim>\<open>userland/drivers/ps2_hid/src/main.rs\<close>: it sets up the PS/2 controller,
  waits for the acknowledgement of the mouse, and then forever reads bytes from the controller,
  assembles mouse bytes into packets of three and sends every packet and every key as a message.

  The controller is a device of the kernel; the driver is verified against the contract \<open>services\<close>
  (extended by what independence of ports and message slot means) and the result is then read off for
  the kernel.  The endless loop is \<open>event_loop\<close> with the number of iterations as its argument: the
  theorems hold for every number.
\<close>

section \<open>Model\<close>

record hid =
  mouse_cycle :: u64
  mouse_packet :: "u8 list"

text \<open>The messages: identifier 0x5E for a mouse packet, 0x11 for a key.\<close>

definition mouse_message :: "u8 \<Rightarrow> u8 \<Rightarrow> u8 \<Rightarrow> u64" where
  "mouse_message flags dx dy = push_bit 24 0x5E OR push_bit 16 (ucast flags) OR push_bit 8 (ucast dx) OR ucast dy"

definition key_message :: "u8 \<Rightarrow> u64" where
  "key_message data = push_bit 24 0x11 OR ucast data"

definition init_controller :: "'s kernel_call \<Rightarrow> 's \<Rightarrow> 's res" where
  "init_controller sc s =
     bindE (sys_port_out sc 0x64 0xA8 s) (\<lambda>s.
     bindE (sys_port_out sc 0x64 0xD4 s) (\<lambda>s.
     sys_port_out sc 0x60 0xF4 s))"

text \<open>The wait loop; its argument is \<open>timeout\<close>.\<close>

fun ack_loop :: "'s kernel_call \<Rightarrow> nat \<Rightarrow> 's \<Rightarrow> 's res" where
  "ack_loop sc 0 s = Inr s"
| "ack_loop sc (Suc timeout) s =
     bindE (sys_port_in sc 0x64 1 s) (\<lambda>(status, s).
     if status AND 0x01 \<noteq> 0 then
       bindE (sys_port_in sc 0x60 1 s) (\<lambda>(data, s).
       if data = 0xFA then Inr s else ack_loop sc timeout s)
     else ack_loop sc timeout s)"

definition store_mouse_byte :: "u8 \<Rightarrow> hid \<Rightarrow> hid res" where
  "store_mouse_byte data h =
     (if unat (mouse_cycle h) < length (mouse_packet h) then
        Inr (h\<lparr>mouse_packet := (mouse_packet h)[unat (mouse_cycle h) := data], mouse_cycle := mouse_cycle h + 1\<rparr>)
      else Inl Index_Out_Of_Bounds)"

definition event_iteration :: "'s kernel_call \<Rightarrow> hid \<Rightarrow> 's \<Rightarrow> (hid \<times> 's) res" where
  "event_iteration sc h s =
     bindE (sys_port_in sc 0x64 1 s) (\<lambda>(status, s).
     if status AND 0x01 \<noteq> 0 then
       bindE (sys_port_in sc 0x60 1 s) (\<lambda>(data, s).
       let data = ucast data :: u8; is_mouse = status AND 0x20 \<noteq> 0 in
       if is_mouse then
         bindE (store_mouse_byte data h) (\<lambda>h.
         if mouse_cycle h = 3 then
           let h = h\<lparr>mouse_cycle := 0\<rparr>;
               flags = mouse_packet h ! 0; dx = mouse_packet h ! 1; dy = mouse_packet h ! 2
           in bindE (sys_ipc_send sc 1 (mouse_message flags dx dy) s) (\<lambda>s. Inr (h, s))
         else Inr (h, s))
       else bindE (sys_ipc_send sc 1 (key_message data) s) (\<lambda>s. Inr (h, s)))
     else Inr (h, s))"

fun event_loop :: "'s kernel_call \<Rightarrow> nat \<Rightarrow> hid \<Rightarrow> 's \<Rightarrow> (hid \<times> 's) res" where
  "event_loop sc 0 h s = Inr (h, s)"
| "event_loop sc (Suc n) h s = bindE (event_iteration sc h s) (\<lambda>(h, s). event_loop sc n h s)"

definition hid_new :: hid where
  "hid_new = \<lparr>mouse_cycle = 0, mouse_packet = replicate 3 0\<rparr>"

definition hid_start :: "'s kernel_call \<Rightarrow> nat \<Rightarrow> 's \<Rightarrow> (hid \<times> 's) res" where
  "hid_start sc n s =
     bindE (init_controller sc s) (\<lambda>s.
     bindE (ack_loop sc 100000 s) (\<lambda>s.
     event_loop sc n hid_new s))"

section \<open>Specification\<close>

text \<open>
  What the controller delivers in \<open>n\<close> polls: bytes, each with the flag that says whether it is from the
  mouse.
\<close>

fun inputs :: "(u16 \<Rightarrow> 's \<Rightarrow> u8 \<times> 's) \<Rightarrow> nat \<Rightarrow> 's \<Rightarrow> (bool \<times> u8) list \<times> 's" where
  "inputs rd 0 s = ([], s)"
| "inputs rd (Suc n) s =
     (let (status, s) = rd 0x64 s in
      if status AND 0x01 \<noteq> 0 then
        let (data, s) = rd 0x60 s; (xs, s) = inputs rd n s in ((status AND 0x20 \<noteq> 0, data) # xs, s)
      else inputs rd n s)"

text \<open>The messages that a sequence of bytes stands for; \<open>pend\<close> are the bytes of an unfinished packet.\<close>

fun messages :: "u8 list \<Rightarrow> (bool \<times> u8) list \<Rightarrow> u64 list" where
  "messages pend [] = []"
| "messages pend ((False, b) # xs) = key_message b # messages pend xs"
| "messages [f, dx] ((True, dy) # xs) = mouse_message f dx dy # messages [] xs"
| "messages pend ((True, b) # xs) = messages (pend @ [b]) xs"

fun triples :: "'a list \<Rightarrow> ('a \<times> 'a \<times> 'a) list" where
  "triples (a # b # c # xs) = (a, b, c) # triples xs"
| "triples _ = []"

definition mouse_bytes :: "(bool \<times> u8) list \<Rightarrow> u8 list" where
  "mouse_bytes xs = map snd (filter fst xs)"

definition key_bytes :: "(bool \<times> u8) list \<Rightarrow> u8 list" where
  "key_bytes xs = map snd (filter (\<lambda>x. \<not> fst x) xs)"

definition message_id :: "u64 \<Rightarrow> u64" where
  "message_id msg = drop_bit 24 msg AND 0xFF"

lemma message_ids [simp]:
  "message_id (mouse_message flags dx dy) = 0x5E" "message_id (key_message b) = 0x11"
proof -
  have z: "drop_bit 24 (push_bit 16 (ucast flags) :: u64) = 0" "drop_bit 24 (push_bit 8 (ucast dx) :: u64) = 0"
    "drop_bit 24 (ucast dy :: u64) = 0" "drop_bit 24 (ucast b :: u64) = 0"
    by (rule bit_word_eqI, auto simp: bit_simps dest: bit_imp_le_length)+
  show "message_id (mouse_message flags dx dy) = 0x5E" "message_id (key_message b) = 0x11"
    by (simp_all add: message_id_def mouse_message_def key_message_def z)
qed

lemma messages_mouse:
  "length pend < 3 \<Longrightarrow>
   filter (\<lambda>m. message_id m = 0x5E) (messages pend xs) =
     map (\<lambda>(f, dx, dy). mouse_message f dx dy) (triples (pend @ mouse_bytes xs))"
proof (induction pend xs rule: messages.induct)
  case (1 pend)
  then show ?case by (cases pend rule: triples.cases) (simp_all add: mouse_bytes_def)
qed (simp_all add: mouse_bytes_def)

lemma messages_keys:
  "filter (\<lambda>m. message_id m = 0x11) (messages pend xs) = map key_message (key_bytes xs)"
  by (induction pend xs rule: messages.induct) (simp_all add: key_bytes_def)

lemma messages_ids: "m \<in> set (messages pend xs) \<Longrightarrow> message_id m = 0x5E \<or> message_id m = 0x11"
  by (induction pend xs rule: messages.induct) auto

section \<open>The driver against the contract\<close>

definition hid_inv :: "hid \<Rightarrow> bool" where
  "hid_inv h \<longleftrightarrow> unat (mouse_cycle h) < 3 \<and> length (mouse_packet h) = 3"

definition pending :: "hid \<Rightarrow> u8 list" where
  "pending h = take (unat (mouse_cycle h)) (mouse_packet h)"

lemma hid_new_inv [simp]: "hid_inv hid_new" "pending hid_new = []"
  by (simp_all add: hid_inv_def pending_def hid_new_def)

lemma status_bits:
  "((ucast status :: u64) AND 1 = 0) = (status AND 1 = 0)" "((ucast status :: u64) AND 0x20 = 0) = (status AND 0x20 = 0)"
  for status :: u8
proof -
  have *: "((ucast status :: u64) AND ucast k = 0) = (status AND k = 0)" for k :: u8
  proof -
    have "(ucast status :: u64) AND ucast k = ucast (status AND k)" by (rule bit_word_eqI) (auto simp: bit_simps)
    moreover have "(ucast x :: u64) = 0 \<longleftrightarrow> x = 0" for x :: u8 by (simp add: word_unat_eq_iff)
    ultimately show ?thesis by simp
  qed
  show "((ucast status :: u64) AND 1 = 0) = (status AND 1 = 0)" "((ucast status :: u64) AND 0x20 = 0) = (status AND 0x20 = 0)"
    using * [of 1] * [of "0x20"] by simp_all
qed

text \<open>A mouse byte extends the unfinished packet, and the third one completes it.\<close>

lemma store_mouse_byte_pending:
  assumes "hid_inv h"
  obtains h' where "store_mouse_byte b h = Inr h'" "length (mouse_packet h') = 3"
    "mouse_cycle h' = mouse_cycle h + 1" "take (Suc (unat (mouse_cycle h))) (mouse_packet h') = pending h @ [b]"
  using assms
  by (intro that) (auto simp: store_mouse_byte_def hid_inv_def pending_def take_Suc_conv_app_nth)

lemma pending_complete:
  assumes "hid_inv h" "unat (mouse_cycle h) = 2" "length (mouse_packet h') = 3" "take 3 (mouse_packet h') = pending h @ [b]"
  shows "\<exists>f dx. pending h = [f, dx] \<and> mouse_packet h' = [f, dx, b]"
proof -
  have "length (pending h) = 2" using assms(1,2) by (simp add: pending_def hid_inv_def)
  then obtain f dx where "pending h = [f, dx]" by (auto simp: length_Suc_conv numeral_2_eq_2)
  with assms(3,4) show ?thesis by simp
qed

text \<open>The ports and the message slot do not interfere.\<close>

locale hid_services = services +
  assumes read_post: "read8 port (post m s) = (fst (read8 port s), post m (snd (read8 port s)))"
begin

lemma inputs_post: "inputs read8 n (post m s) = (fst (inputs read8 n s), post m (snd (inputs read8 n s)))"
  by (induction n arbitrary: s) (simp_all add: read_post split_beta Let_def)

lemma ack_loop_total: "\<exists>t. ack_loop sc timeout s = Inr t"
  by (induction timeout arbitrary: s) (simp_all add: sys_port_in_8)

lemma event_iteration_idle:
  "fst (read8 0x64 s) AND 1 = 0 \<Longrightarrow> event_iteration sc h s = Inr (h, snd (read8 0x64 s))"
  by (simp add: event_iteration_def sys_port_in_8 status_bits)

lemma event_iteration_key:
  assumes "fst (read8 0x64 s) AND 1 \<noteq> 0" "fst (read8 0x64 s) AND 0x20 = 0" "read8 0x60 (snd (read8 0x64 s)) = (b, t)"
  shows "event_iteration sc h s = Inr (h, post (key_message b) t)"
  using assms by (simp add: event_iteration_def sys_port_in_8 status_bits sys_ipc_send_post)

lemma event_iteration_mouse:
  assumes "hid_inv h" "fst (read8 0x64 s) AND 1 \<noteq> 0" "fst (read8 0x64 s) AND 0x20 \<noteq> 0"
    "read8 0x60 (snd (read8 0x64 s)) = (b, t)"
  shows "\<exists>h'. hid_inv h' \<and>
    ((\<exists>f dx. pending h = [f, dx] \<and> pending h' = [] \<and> event_iteration sc h s = Inr (h', post (mouse_message f dx b) t)) \<or>
     (length (pending h) < 2 \<and> pending h' = pending h @ [b] \<and> event_iteration sc h s = Inr (h', t)))"
proof -
  obtain h1 where h1: "store_mouse_byte b h = Inr h1" "length (mouse_packet h1) = 3"
    "mouse_cycle h1 = mouse_cycle h + 1" "take (Suc (unat (mouse_cycle h))) (mouse_packet h1) = pending h @ [b]"
    using store_mouse_byte_pending [OF assms(1)] by metis
  have c: "unat (mouse_cycle h + 1) = Suc (unat (mouse_cycle h))" "unat (mouse_cycle h) < 3"
    using assms(1) unat_add_no_overflow [of "mouse_cycle h" 1] by (simp_all add: hid_inv_def)
  have full: "mouse_cycle h + 1 = 3 \<longleftrightarrow> unat (mouse_cycle h) = 2"
    using c by (simp add: word_unat_eq_iff)
  show ?thesis
  proof (cases "unat (mouse_cycle h) = 2")
    case True
    with pending_complete [OF assms(1) True h1(2)] h1(4) obtain f dx where
      p: "pending h = [f, dx]" "mouse_packet h1 = [f, dx, b]" by (auto simp: numeral_3_eq_3)
    have "event_iteration sc h s = Inr (h1\<lparr>mouse_cycle := 0\<rparr>, post (mouse_message f dx b) t)"
      using assms(2-4) True full by (simp add: event_iteration_def sys_port_in_8 status_bits h1(1,3) p sys_ipc_send_post)
    then show ?thesis
      using p by (intro exI [of _ "h1\<lparr>mouse_cycle := 0\<rparr>"]) (simp add: hid_inv_def pending_def)
  next
    case False
    have "event_iteration sc h s = Inr (h1, t)"
      using assms(2-4) False full by (simp add: event_iteration_def sys_port_in_8 status_bits h1(1,3))
    then show ?thesis
      using False c h1 by (intro exI [of _ h1]) (simp add: hid_inv_def pending_def)
  qed
qed

lemma event_loop_delivers:
  "hid_inv h \<Longrightarrow> \<exists>h'. hid_inv h' \<and> event_loop sc n h s =
     Inr (h', fold post (messages (pending h) (fst (inputs read8 n s))) (snd (inputs read8 n s)))"
proof (induction n arbitrary: h s)
  case (Suc n)
  obtain status s1 b t where rd: "read8 0x64 s = (status, s1)" "read8 0x60 s1 = (b, t)" by (meson surj_pair)
  consider "status AND 1 = 0" | "status AND 1 \<noteq> 0" "status AND 0x20 = 0" | "status AND 1 \<noteq> 0" "status AND 0x20 \<noteq> 0" by blast
  then show ?case
  proof cases
    case 1
    then show ?thesis using event_iteration_idle [of s h] Suc.IH [OF Suc.prems, of s1] by (simp add: rd)
  next
    case 2
    then show ?thesis
      using event_iteration_key [of s b t h] Suc.IH [OF Suc.prems, of "post (key_message b) t"]
      by (simp add: rd inputs_post split_beta Let_def)
  next
    case 3
    then obtain h1 where h1: "hid_inv h1" and
      "(\<exists>f dx. pending h = [f, dx] \<and> pending h1 = [] \<and> event_iteration sc h s = Inr (h1, post (mouse_message f dx b) t)) \<or>
       (length (pending h) < 2 \<and> pending h1 = pending h @ [b] \<and> event_iteration sc h s = Inr (h1, t))"
      using event_iteration_mouse [OF Suc.prems, of s b t] by (auto simp: rd)
    then consider (full) f dx where "pending h = [f, dx]" "pending h1 = []"
        "event_iteration sc h s = Inr (h1, post (mouse_message f dx b) t)"
      | (part) "length (pending h) < 2" "pending h1 = pending h @ [b]" "event_iteration sc h s = Inr (h1, t)" by blast
    then show ?thesis
    proof cases
      case full
      with 3 Suc.IH [OF h1, of "post (mouse_message f dx b) t"] show ?thesis
        by (simp add: rd inputs_post split_beta Let_def)
    next
      case part
      then have "messages (pending h) ((True, b) # xs) = messages (pending h1) xs" for xs
        by (cases "pending h" rule: triples.cases) auto
      with 3 part Suc.IH [OF h1, of t] show ?thesis by (simp add: rd split_beta Let_def)
    qed
  qed
qed simp

end

text \<open>The kernel keeps ports and message slot apart.\<close>

interpretation hid_kernel: hid_services "syscall_dispatcher P" "kernel_read8 P" "kernel_read32 P" "kernel_write8 P"
    "kernel_write32 P" kernel_post kernel_fetch kernel_irq_flag for P :: "('pt, 'dev) hw_platform"
  by unfold_locales (simp add: kernel_read8_def kernel_post_def split_beta)

lemma fold_kernel_post: "fold kernel_post ms s = s\<lparr>GLOBAL_IPC_MAILBOX := last (GLOBAL_IPC_MAILBOX s # ms)\<rparr>"
  by (induction ms arbitrary: s) (simp_all add: kernel_post_def)

lemma inputs_mailbox: "GLOBAL_IPC_MAILBOX (snd (inputs (kernel_read8 P) n s)) = GLOBAL_IPC_MAILBOX s"
  by (induction n arbitrary: s) (simp_all add: kernel_read8_def split_beta Let_def)

section \<open>Properties\<close>

text \<open>
  C8. The driver on the kernel: for every behaviour of the controller and every number of iterations,
  the driver runs without a panic (no packet index is ever out of range) and its messages are those
  that the bytes read from the controller stand for: it leaves the last of them in the message slot
  and changes nothing else of the kernel but the state of the devices it polled.
\<close>

theorem hid_driver_delivers:
  "\<exists>h. event_loop (syscall_dispatcher P) n hid_new s =
     Inr (h, (snd (inputs (kernel_read8 P) n s))
       \<lparr>GLOBAL_IPC_MAILBOX := last (GLOBAL_IPC_MAILBOX s # messages [] (fst (inputs (kernel_read8 P) n s)))\<rparr>) \<and>
     hid_inv h"
  using hid_kernel.event_loop_delivers [OF hid_new_inv(1), of P n s] by (auto simp: fold_kernel_post inputs_mailbox)

text \<open>
  The messages of a byte sequence, in which keyboard and mouse bytes may be interleaved in any way:
  the mouse messages are the mouse bytes in groups of three (an incomplete last group sends nothing),
  the key messages are the keyboard bytes one by one, each in order, and there are no others.
\<close>

theorem messages_decode_stream:
  "filter (\<lambda>m. message_id m = 0x5E) (messages [] xs) = map (\<lambda>(f, dx, dy). mouse_message f dx dy) (triples (mouse_bytes xs)) \<and>
   filter (\<lambda>m. message_id m = 0x11) (messages [] xs) = map key_message (key_bytes xs) \<and>
   set (messages [] xs) \<subseteq> {m. message_id m = 0x5E \<or> message_id m = 0x11}"
  using messages_mouse [of "[]" xs] messages_keys [of "[]" xs] messages_ids [of _ "[]" xs] by (simp add: subset_eq)

text \<open>
  Starting the driver never blocks it: the controller gets the three commands in order, the wait for
  the acknowledgement ends after at most 100000 polls whatever the controller does, and the event loop
  starts with an empty packet.
\<close>

theorem hid_start_total:
  "\<exists>t h s'. init_controller (syscall_dispatcher P) s =
       Inr (kernel_write8 P 0x60 0xF4 (kernel_write8 P 0x64 0xD4 (kernel_write8 P 0x64 0xA8 s))) \<and>
     ack_loop (syscall_dispatcher P) 100000 (kernel_write8 P 0x60 0xF4 (kernel_write8 P 0x64 0xD4 (kernel_write8 P 0x64 0xA8 s))) = Inr t \<and>
     hid_start (syscall_dispatcher P) n s = Inr (h, s') \<and> event_loop (syscall_dispatcher P) n hid_new t = Inr (h, s') \<and> hid_inv h"
proof -
  let ?s = "kernel_write8 P 0x60 0xF4 (kernel_write8 P 0x64 0xD4 (kernel_write8 P 0x64 0xA8 s))"
  have init: "init_controller (syscall_dispatcher P) s = Inr ?s"
    by (simp add: init_controller_def kernel_services.sys_port_out_8)
  obtain t where t: "ack_loop (syscall_dispatcher P) 100000 ?s = Inr t" using hid_kernel.ack_loop_total by blast
  obtain h s' where "event_loop (syscall_dispatcher P) n hid_new t = Inr (h, s')" "hid_inv h"
    using hid_kernel.event_loop_delivers [OF hid_new_inv(1), of P n t] by blast
  with init t show ?thesis by (simp add: hid_start_def)
qed

end
