(* ===== verification/Test_App.thy ===== *)
theory Test_App
  imports Display Ps2_Hid
begin

text \<open>
  The sandboxed user interface \<^verbatim>\<open>userland/apps/test_app/src/lib.rs\<close>: a desktop with one window and a
  cursor, driven by the messages of the input driver.

  The application sees the system through two host functions of the Marshal: \<open>draw_rect\<close>, whose calls
  the model collects as a list of arguments, and \<open>get_ipc_message\<close>, a poll of the message slot.
  Arithmetic is 32-bit and wraps (release build); comparisons are signed.  The endless loop is
  \<open>ui_loop\<close>, over any number of iterations.
\<close>

section \<open>Model\<close>

type_synonym draw_call = "i32 \<times> i32 \<times> i32 \<times> i32 \<times> i32"

record ui =
  mouse_x :: i32
  mouse_y :: i32
  win_x :: i32
  win_y :: i32
  is_dragging :: bool
  drag_offset_x :: i32
  drag_offset_y :: i32
  win_color :: u32

definition draw_cursor :: "i32 \<Rightarrow> i32 \<Rightarrow> draw_call list" where
  "draw_cursor x y = [(x, y, 6, 6, 0xFFFFFF), (x + 1, y + 1, 4, 4, 0x000000)]"

definition draw_window :: "i32 \<Rightarrow> i32 \<Rightarrow> i32 \<Rightarrow> i32 \<Rightarrow> u32 \<Rightarrow> draw_call list" where
  "draw_window x y w h title_color =
     [(x + 6, y + 6, w, h, 0x111111),
      (x, y, w, h, 0xDDDDDD),
      (x, y, w, 24, title_color),
      (x + w - 24, y + 4, 16, 16, 0xFF4444),
      (x + 10, y + 34, w - 20, h - 44, 0xFFFFFF),
      (x + 30, y + 60, 100, 20, 0x3366FF),
      (x + 30, y + 100, 200, 10, 0xAAAAAA),
      (x + 30, y + 120, 180, 10, 0xAAAAAA),
      (x + 30, y + 140, 220, 10, 0xAAAAAA)]"

abbreviation win_w :: i32 where "win_w \<equiv> 400"
abbreviation win_h :: i32 where "win_h \<equiv> 250"
abbreviation desktop_color :: i32 where "desktop_color \<equiv> 0x223344"

text \<open>Rust's \<open>x / 2\<close> on an \<open>i32\<close> rounds towards zero.\<close>

definition half_i32 :: "i32 \<Rightarrow> i32" where
  "half_i32 x = (if 0 \<le> sint x then word_of_int (sint x div 2) else word_of_int (- (- sint x div 2)))"

definition ui_init :: "i32 \<Rightarrow> i32 \<Rightarrow> ui" where
  "ui_init screen_w screen_h =
     \<lparr>mouse_x = half_i32 screen_w, mouse_y = half_i32 screen_h, win_x = 200, win_y = 150, is_dragging = False,
      drag_offset_x = 0, drag_offset_y = 0, win_color = 0x0055AA\<rparr>"

definition ui_init_draws :: "i32 \<Rightarrow> i32 \<Rightarrow> draw_call list" where
  "ui_init_draws screen_w screen_h =
     (let u = ui_init screen_w screen_h in
      (0, 0, screen_w, screen_h, desktop_color) #
      draw_window (win_x u) (win_y u) win_w win_h (win_color u) @ draw_cursor (mouse_x u) (mouse_y u))"

text \<open>\<open>if v < 0 { v = 0; }\<close> and \<open>if v > limit - 6 { v = limit - 6; }\<close>.\<close>

definition enforce_bounds :: "i32 \<Rightarrow> i32 \<Rightarrow> i32" where
  "enforce_bounds limit v =
     (let v = if sint v < 0 then 0 else v in if sint v > sint (limit - 6) then limit - 6 else v)"

text \<open>The drag logic.\<close>

definition handle_button :: "bool \<Rightarrow> ui \<Rightarrow> ui" where
  "handle_button left_click u =
     (if left_click then
        if \<not> is_dragging u then
          if sint (mouse_x u) \<ge> sint (win_x u) \<and> sint (mouse_x u) \<le> sint (win_x u + win_w) \<and>
             sint (mouse_y u) \<ge> sint (win_y u) \<and> sint (mouse_y u) \<le> sint (win_y u + 24) then
            u\<lparr>is_dragging := True, drag_offset_x := mouse_x u - win_x u, drag_offset_y := mouse_y u - win_y u\<rparr>
          else u
        else u\<lparr>win_x := mouse_x u - drag_offset_x u, win_y := mouse_y u - drag_offset_y u\<rparr>
      else u\<lparr>is_dragging := False\<rparr>)"

definition handle_mouse :: "i32 \<Rightarrow> i32 \<Rightarrow> u64 \<Rightarrow> ui \<Rightarrow> ui" where
  "handle_mouse screen_w screen_h msg u =
     (let flags = ucast (drop_bit 16 msg AND 0xFF) :: u8;
          dx = scast (ucast (drop_bit 8 msg AND 0xFF) :: u8) :: i32;
          dy = scast (ucast (msg AND 0xFF) :: u8) :: i32;
          left_click = flags AND 0x01 \<noteq> 0;
          u = u\<lparr>mouse_x := mouse_x u + dx, mouse_y := mouse_y u - dy\<rparr>;
          u = u\<lparr>mouse_x := enforce_bounds screen_w (mouse_x u), mouse_y := enforce_bounds screen_h (mouse_y u)\<rparr>
      in handle_button left_click u)"

text \<open>One message: the new state and whether it has to be redrawn.\<close>

definition handle_message :: "i32 \<Rightarrow> i32 \<Rightarrow> u64 \<Rightarrow> ui \<Rightarrow> ui \<times> bool" where
  "handle_message screen_w screen_h msg u =
     (let ident = drop_bit 24 msg AND 0xFF in
      if ident = 0x5E then (handle_mouse screen_w screen_h msg u, True)
      else if ident = 0x11 then
        let scancode = msg AND 0xFF in
        if scancode < 0x80 then (u\<lparr>win_color := (win_color u + 0x001133) AND 0xFFFFFF\<rparr>, True) else (u, False)
      else (u, False))"

definition redraw :: "ui \<Rightarrow> ui \<Rightarrow> draw_call list" where
  "redraw old u =
     (mouse_x old, mouse_y old, 6, 6, desktop_color) #
     (win_x old, win_y old, win_w + 6, win_h + 6, desktop_color) #
     draw_window (win_x u) (win_y u) win_w win_h (win_color u) @ draw_cursor (mouse_x u) (mouse_y u)"

text \<open>The host function \<open>get_ipc_message\<close> of the Marshal, and one iteration of the loop.\<close>

definition get_ipc_message :: "'s kernel_call \<Rightarrow> u64 \<Rightarrow> 's \<Rightarrow> (u64 \<times> 's) res" where
  "get_ipc_message sc rdx s = sys_ipc_receive sc rdx 1 s"

definition ui_iteration :: "'s kernel_call \<Rightarrow> u64 \<Rightarrow> i32 \<Rightarrow> i32 \<Rightarrow> ui \<Rightarrow> 's \<Rightarrow> (ui \<times> draw_call list \<times> 's) res" where
  "ui_iteration sc rdx screen_w screen_h u s =
     bindE (get_ipc_message sc rdx s) (\<lambda>(msg, s).
     if msg \<noteq> 0 then
       let (u', needs_redraw) = handle_message screen_w screen_h msg u
       in Inr (u', if needs_redraw then redraw u u' else [], s)
     else Inr (u, [], s))"

text \<open>
  The loop.  Other processes run between two polls, so each iteration starts in a state that the rest
  of the system has left: the list \<open>ss\<close> holds these states and the result the states after the polls.
\<close>

fun ui_loop :: "'s kernel_call \<Rightarrow> u64 \<Rightarrow> i32 \<Rightarrow> i32 \<Rightarrow> 's list \<Rightarrow> ui \<Rightarrow> (ui \<times> draw_call list \<times> 's list) res" where
  "ui_loop sc rdx screen_w screen_h [] u = Inr (u, [], [])"
| "ui_loop sc rdx screen_w screen_h (s # ss) u =
     bindE (ui_iteration sc rdx screen_w screen_h u s) (\<lambda>(u, draws, t).
     bindE (ui_loop sc rdx screen_w screen_h ss u) (\<lambda>(u, draws', ts). Inr (u, draws @ draws', t # ts)))"

definition run_ui_loop :: "'s kernel_call \<Rightarrow> u64 \<Rightarrow> i32 \<Rightarrow> i32 \<Rightarrow> 's list \<Rightarrow> (ui \<times> draw_call list \<times> 's list) res" where
  "run_ui_loop sc rdx screen_w screen_h ss =
     bindE (ui_loop sc rdx screen_w screen_h ss (ui_init screen_w screen_h)) (\<lambda>(u, draws, ts).
     Inr (u, ui_init_draws screen_w screen_h @ draws, ts))"

section \<open>Specification: a desktop over the integers\<close>

text \<open>
  The desktop as a user sees it.  Coordinates are integers; \<open>grip\<close> is the point of the window that the
  cursor holds while the button is down.
\<close>

record desktop =
  cursor :: "int \<times> int"
  window :: "int \<times> int"
  grip :: "(int \<times> int) option"
  title :: u32

datatype event = Mouse bool int int | Key | Other

definition decode :: "u64 \<Rightarrow> event" where
  "decode msg =
     (if message_id msg = 0x5E then Mouse (bit msg 16) (sint (ucast (drop_bit 8 msg) :: u8)) (sint (ucast msg :: u8))
      else if message_id msg = 0x11 \<and> \<not> bit msg 7 then Key else Other)"

definition clamp :: "int \<Rightarrow> int \<Rightarrow> int" where
  "clamp limit v = min (max 0 v) (limit - 6)"

fun react :: "int \<Rightarrow> int \<Rightarrow> event \<Rightarrow> desktop \<Rightarrow> desktop" where
  "react W H (Mouse held dx dy) d =
     (let cx = clamp W (fst (cursor d) + dx); cy = clamp H (snd (cursor d) - dy); (wx, wy) = window d;
          d = d\<lparr>cursor := (cx, cy)\<rparr>
      in if \<not> held then d\<lparr>grip := None\<rparr>
         else case grip d of
             Some (gx, gy) \<Rightarrow> d\<lparr>window := (cx - gx, cy - gy)\<rparr>
           | None \<Rightarrow> if wx \<le> cx \<and> cx \<le> wx + 400 \<and> wy \<le> cy \<and> cy \<le> wy + 24
                     then d\<lparr>grip := Some (cx - wx, cy - wy)\<rparr> else d)"
| "react W H Key d = d\<lparr>title := (title d + 0x001133) AND 0xFFFFFF\<rparr>"
| "react W H Other d = d"

definition desktop_of :: "ui \<Rightarrow> desktop" where
  "desktop_of u =
     \<lparr>cursor = (sint (mouse_x u), sint (mouse_y u)), window = (sint (win_x u), sint (win_y u)),
      grip = (if is_dragging u then Some (sint (drag_offset_x u), sint (drag_offset_y u)) else None), title = win_color u\<rparr>"

text \<open>What holds of the state after every message.\<close>

definition desktop_inv :: "int \<Rightarrow> int \<Rightarrow> desktop \<Rightarrow> bool" where
  "desktop_inv W H d \<longleftrightarrow>
     (let (cx, cy) = cursor d; (wx, wy) = window d in
        0 \<le> cx \<and> cx \<le> W - 6 \<and> 0 \<le> cy \<and> cy \<le> H - 6 \<and>
        - 400 \<le> wx \<and> wx \<le> max 200 (W - 6) \<and> - 24 \<le> wy \<and> wy \<le> max 150 (H - 6) \<and>
        (case grip d of None \<Rightarrow> True
         | Some (gx, gy) \<Rightarrow> gx = cx - wx \<and> gy = cy - wy \<and> 0 \<le> gx \<and> gx \<le> 400 \<and> 0 \<le> gy \<and> gy \<le> 24) \<and>
        unat (title d) < 2 ^ 24)"

definition screen_ok :: "i32 \<Rightarrow> bool" where
  "screen_ok n \<longleftrightarrow> 12 \<le> sint n \<and> sint n < 2 ^ 30"

section \<open>Signed arithmetic\<close>

lemma sint_byte: "- 128 \<le> sint (b :: u8)" "sint (b :: u8) < 128"
  using sint_greater_eq [of b] sint_less [of b] by simp_all

lemma sint_scast_byte: "sint (scast (b :: u8) :: i32) = sint b"
  by (intro sint_up_scast) (simp add: is_up)

lemma sint_half: "0 \<le> sint x \<Longrightarrow> sint (half_i32 x) = sint x div 2"
  using sint_range(2) [of x] by (simp add: half_i32_def sint_of_int_small)

lemma sint_enforce_bounds:
  assumes "6 \<le> sint limit"
  shows "sint (enforce_bounds limit v) = min (max 0 (sint v)) (sint limit - 6)"
proof -
  have "sint (limit - 6) = sint limit - 6"
    using assms sint_range(2) [of limit] by (subst sint_sub_no_overflow) simp_all
  then show ?thesis using assms by (auto simp: enforce_bounds_def Let_def)
qed

lemma clamp_bounds: "12 \<le> limit \<Longrightarrow> 0 \<le> clamp limit v" "clamp limit v \<le> limit - 6"
  by (simp_all add: clamp_def)

text \<open>The specification keeps its invariant.\<close>

lemma title_step: "unat ((c + 0x001133) AND 0xFFFFFF :: u32) < 2 ^ 24"
proof -
  have "(c + 0x001133) AND 0xFFFFFF = take_bit 24 (c + 0x001133)"
    by (simp add: take_bit_eq_mask mask_numeral)
  also have "unat \<dots> < 2 ^ 24" unfolding unsigned_take_bit_eq by (rule take_bit_nat_less_exp)
  finally show ?thesis .
qed

lemma react_inv:
  assumes "12 \<le> W" "12 \<le> H" "desktop_inv W H d"
  shows "desktop_inv W H (react W H e d)"
proof (cases e)
  case (Mouse held dx dy)
  define cx cy where c: "cx = clamp W (fst (cursor d) + dx)" "cy = clamp H (snd (cursor d) - dy)"
  have b: "0 \<le> cx" "cx \<le> W - 6" "0 \<le> cy" "cy \<le> H - 6"
    unfolding c using assms(1,2) by (simp_all add: clamp_bounds)
  obtain wx wy where w: "window d = (wx, wy)" by (cases "window d")
  have inv: "- 400 \<le> wx" "wx \<le> max 200 (W - 6)" "- 24 \<le> wy" "wy \<le> max 150 (H - 6)" "unat (title d) < 2 ^ 24"
    "\<And>gx gy. grip d = Some (gx, gy) \<Longrightarrow> 0 \<le> gx \<and> gx \<le> 400 \<and> 0 \<le> gy \<and> gy \<le> 24"
    using assms(3) by (auto simp: desktop_inv_def Let_def split_beta w)
  show ?thesis
  proof (cases "grip d")
    case None
    then show ?thesis using b inv by (auto simp: Mouse c [symmetric] w desktop_inv_def Let_def)
  next
    case (Some g)
    then show ?thesis using b inv(1-5) inv(6) [of "fst g" "snd g"] by (auto simp: Mouse c [symmetric] w desktop_inv_def Let_def split_beta)
  qed
qed (use assms(3) title_step in \<open>auto simp: desktop_inv_def Let_def split: option.splits\<close>)

section \<open>The application implements the desktop\<close>

lemma desktop_of_button:
  assumes "screen_ok sw" "screen_ok sh" "desktop_inv (sint sw) (sint sh) (desktop_of u\<lparr>cursor := c\<rparr>)"
    "0 \<le> sint (mouse_x u)" "sint (mouse_x u) \<le> sint sw - 6" "0 \<le> sint (mouse_y u)" "sint (mouse_y u) \<le> sint sh - 6"
  shows "desktop_of (handle_button held u) =
     (let (cx, cy) = cursor (desktop_of u); (wx, wy) = window (desktop_of u); d = desktop_of u in
      if \<not> held then d\<lparr>grip := None\<rparr>
      else case grip d of
          Some (gx, gy) \<Rightarrow> d\<lparr>window := (cx - gx, cy - gy)\<rparr>
        | None \<Rightarrow> if wx \<le> cx \<and> cx \<le> wx + 400 \<and> wy \<le> cy \<and> cy \<le> wy + 24
                  then d\<lparr>grip := Some (cx - wx, cy - wy)\<rparr> else d)"
proof -
  have w: "- 400 \<le> sint (win_x u)" "sint (win_x u) < 2 ^ 30" "- 24 \<le> sint (win_y u)" "sint (win_y u) < 2 ^ 30"
    "is_dragging u \<Longrightarrow> 0 \<le> sint (drag_offset_x u)" "is_dragging u \<Longrightarrow> sint (drag_offset_x u) \<le> 400"
    "is_dragging u \<Longrightarrow> 0 \<le> sint (drag_offset_y u)" "is_dragging u \<Longrightarrow> sint (drag_offset_y u) \<le> 24"
    using assms(1-3) by (auto simp: desktop_inv_def desktop_of_def screen_ok_def Let_def split_beta)
  have m: "sint (mouse_x u) < 2 ^ 30" "sint (mouse_y u) < 2 ^ 30" using assms by (simp_all add: screen_ok_def)
  have add: "sint (win_x u + 400) = sint (win_x u) + 400" "sint (win_y u + 24) = sint (win_y u) + 24"
    using w by (subst sint_add_no_overflow; simp)+
  have off: "sint (mouse_x u - win_x u) = sint (mouse_x u) - sint (win_x u)" "sint (mouse_y u - win_y u) = sint (mouse_y u) - sint (win_y u)"
    using w m assms(4,6) by (intro sint_sub_no_overflow; simp)+
  have win: "is_dragging u \<Longrightarrow> sint (mouse_x u - drag_offset_x u) = sint (mouse_x u) - sint (drag_offset_x u)"
    "is_dragging u \<Longrightarrow> sint (mouse_y u - drag_offset_y u) = sint (mouse_y u) - sint (drag_offset_y u)"
    using w m assms(4,6) by (intro sint_sub_no_overflow; simp)+
  show ?thesis using add off win by (auto simp: handle_button_def desktop_of_def Let_def)
qed

lemma ucast_byte_mask: "(ucast (msg AND 0xFF :: u64) :: u8) = ucast msg"
proof -
  have m: "(0xFF :: u64) = mask 8" by (simp add: mask_numeral)
  show ?thesis unfolding m by (rule bit_word_eqI) (auto simp: bit_simps)
qed

lemma left_button: "(ucast (drop_bit 16 msg AND 0xFF :: u64) :: u8) AND 0x01 \<noteq> 0 \<longleftrightarrow> bit msg 16"
proof -
  have "x AND 1 \<noteq> 0 \<longleftrightarrow> bit x 0" for x :: u8
    by (simp add: bit_0 and_one_eq even_iff_mod_2_eq_zero odd_iff_mod_2_eq_one)
  then show ?thesis by (simp add: ucast_byte_mask bit_simps)
qed

lemma mod_256_less: "n mod 256 < 128 \<longleftrightarrow> even (n div 128)" for n :: nat
proof -
  have "n mod 256 = 128 * (n div 128 mod 2) + n mod 128" using mod_mult2_eq [of n 128 2] by simp
  then show ?thesis by (cases "even (n div 128)") (simp_all add: even_iff_mod_2_eq_zero odd_iff_mod_2_eq_one)
qed

lemma key_pressed: "msg AND 0xFF < 0x80 \<longleftrightarrow> \<not> bit (msg :: u64) 7"
proof -
  have "msg AND 0xFF = take_bit 8 msg" by (simp add: take_bit_eq_mask mask_numeral)
  then have "unat (msg AND 0xFF) = unat msg mod 256" by (simp only: unsigned_take_bit_eq) (simp add: take_bit_eq_mod)
  then have "msg AND 0xFF < 0x80 \<longleftrightarrow> even (unat msg div 128)" by (simp add: word_less_nat_alt mod_256_less)
  moreover have "bit msg 7 \<longleftrightarrow> bit (unat msg) 7" by (simp add: bit_unsigned_iff)
  then have "bit msg 7 \<longleftrightarrow> odd (unat msg div 128)" by (simp only: bit_iff_odd) simp
  ultimately show ?thesis by blast
qed

lemma handle_mouse_react:
  assumes "screen_ok sw" "screen_ok sh" "desktop_inv (sint sw) (sint sh) (desktop_of u)" "message_id msg = 0x5E"
  shows "desktop_of (handle_mouse sw sh msg u) = react (sint sw) (sint sh) (decode msg) (desktop_of u)"
proof -
  let ?dx = "sint (ucast (drop_bit 8 msg) :: u8)" and ?dy = "sint (ucast msg :: u8)"
  define v where "v = u\<lparr>mouse_x := enforce_bounds sw (mouse_x u + scast (ucast (drop_bit 8 msg) :: u8)),
    mouse_y := enforce_bounds sh (mouse_y u - scast (ucast msg :: u8))\<rparr>"
  have old: "0 \<le> sint (mouse_x u)" "sint (mouse_x u) \<le> sint sw - 6" "0 \<le> sint (mouse_y u)" "sint (mouse_y u) \<le> sint sh - 6"
    using assms(3) by (auto simp: desktop_inv_def desktop_of_def)
  have scr: "12 \<le> sint sw" "sint sw < 2 ^ 30" "12 \<le> sint sh" "sint sh < 2 ^ 30" using assms(1,2) by (simp_all add: screen_ok_def)
  have "sint (mouse_x u + scast (ucast (drop_bit 8 msg) :: u8)) = sint (mouse_x u) + ?dx"
    using old scr sint_byte [of "ucast (drop_bit 8 msg)"] by (subst sint_add_no_overflow) (simp_all add: sint_scast_byte)
  moreover have "sint (mouse_y u - scast (ucast msg :: u8)) = sint (mouse_y u) - ?dy"
    using old scr sint_byte [of "ucast msg"] by (subst sint_sub_no_overflow) (simp_all add: sint_scast_byte)
  ultimately have v: "sint (mouse_x v) = clamp (sint sw) (sint (mouse_x u) + ?dx)" "sint (mouse_y v) = clamp (sint sh) (sint (mouse_y u) - ?dy)"
    using scr by (simp_all add: v_def sint_enforce_bounds clamp_def)
  have cu: "cursor (desktop_of u) = (sint (mouse_x u), sint (mouse_y u))" by (simp add: desktop_of_def)
  obtain wx wy where w: "window (desktop_of u) = (wx, wy)" by (cases "window (desktop_of u)")
  have dv: "desktop_of v = (desktop_of u)\<lparr>cursor := (sint (mouse_x v), sint (mouse_y v))\<rparr>"
    by (simp add: desktop_of_def v_def)
  have "desktop_of v\<lparr>cursor := cursor (desktop_of u)\<rparr> = desktop_of u" by (simp add: dv)
  then have "desktop_inv (sint sw) (sint sh) (desktop_of v\<lparr>cursor := cursor (desktop_of u)\<rparr>)" using assms(3) by simp
  from desktop_of_button [OF assms(1,2) this, of "bit msg 16"]
  have "desktop_of (handle_button (bit msg 16) v) = react (sint sw) (sint sh) (Mouse (bit msg 16) ?dx ?dy) (desktop_of u)"
    using clamp_bounds scr by (simp add: dv v cu w Let_def)
  moreover have "handle_mouse sw sh msg u = handle_button (bit msg 16) v"
    by (simp add: handle_mouse_def Let_def ucast_byte_mask left_button [unfolded ucast_byte_mask] v_def)
  ultimately show ?thesis using assms(4) by (simp add: decode_def)
qed

lemma handle_message_react:
  assumes "screen_ok sw" "screen_ok sh" "desktop_inv (sint sw) (sint sh) (desktop_of u)"
  shows "desktop_of (fst (handle_message sw sh msg u)) = react (sint sw) (sint sh) (decode msg) (desktop_of u)"
proof (cases "message_id msg = 0x5E")
  case True
  with handle_mouse_react [OF assms] show ?thesis by (simp add: handle_message_def message_id_def)
next
  case False
  then show ?thesis
    by (simp add: handle_message_def message_id_def decode_def key_pressed Let_def desktop_of_def)
qed

lemma desktop_of_init:
  assumes "screen_ok sw" "screen_ok sh"
  shows "desktop_of (ui_init sw sh) =
    \<lparr>cursor = (sint sw div 2, sint sh div 2), window = (200, 150), grip = None, title = 0x0055AA\<rparr>"
  using assms by (simp add: ui_init_def desktop_of_def sint_half screen_ok_def)

lemma desktop_inv_init: "screen_ok sw \<Longrightarrow> screen_ok sh \<Longrightarrow> desktop_inv (sint sw) (sint sh) (desktop_of (ui_init sw sh))"
  by (simp add: desktop_of_init desktop_inv_def) (auto simp: screen_ok_def)

text \<open>The effect of a sequence of polls that returned the given messages; 0 stands for no message.\<close>

definition receive_message :: "i32 \<Rightarrow> i32 \<Rightarrow> u64 \<Rightarrow> ui \<Rightarrow> ui" where
  "receive_message sw sh msg u = (if msg \<noteq> 0 then fst (handle_message sw sh msg u) else u)"

lemma receive_message_react:
  assumes "screen_ok sw" "screen_ok sh" "desktop_inv (sint sw) (sint sh) (desktop_of u)"
  shows "desktop_of (receive_message sw sh msg u) = react (sint sw) (sint sh) (decode msg) (desktop_of u)"
    "desktop_inv (sint sw) (sint sh) (desktop_of (receive_message sw sh msg u))"
proof -
  have "decode 0 = Other" by (simp add: decode_def message_id_def)
  then show *: "desktop_of (receive_message sw sh msg u) = react (sint sw) (sint sh) (decode msg) (desktop_of u)"
    using handle_message_react [OF assms] by (simp add: receive_message_def)
  show "desktop_inv (sint sw) (sint sh) (desktop_of (receive_message sw sh msg u))"
    unfolding * using assms by (intro react_inv) (simp_all add: screen_ok_def)
qed

lemma receive_messages_react:
  assumes "screen_ok sw" "screen_ok sh" "desktop_inv (sint sw) (sint sh) (desktop_of u)"
  shows "desktop_of (fold (receive_message sw sh) msgs u) = fold (\<lambda>m. react (sint sw) (sint sh) (decode m)) msgs (desktop_of u) \<and>
    desktop_inv (sint sw) (sint sh) (desktop_of (fold (receive_message sw sh) msgs u))"
  using assms(3)
proof (induction msgs arbitrary: u)
  case (Cons m msgs)
  note step = receive_message_react [OF assms(1,2) Cons.prems, of m]
  show ?case using Cons.IH [OF step(2)] unfolding fold_Cons o_apply step(1) .
qed simp

text \<open>The loop against the contract of the system calls: every poll succeeds.\<close>

context services
begin

lemma ui_loop_receives:
  "\<exists>draws. ui_loop sc rdx sw sh ss u =
     Inr (fold (receive_message sw sh) (map (\<lambda>s. fst (fetch s)) ss) u, draws, map (\<lambda>s. snd (fetch s)) ss)"
proof (induction ss arbitrary: u)
  case (Cons s ss)
  have "\<exists>draws. ui_iteration sc rdx sw sh u s = Inr (receive_message sw sh (fst (fetch s)) u, draws, snd (fetch s))"
    by (simp add: ui_iteration_def get_ipc_message_def sys_ipc_receive_fetch receive_message_def split_beta)
  then show ?case using Cons.IH [of "receive_message sw sh (fst (fetch s)) u"] by auto
qed simp

end

lemma run_ui_loop_kernel:
  assumes "screen_ok sw" "screen_ok sh"
  obtains u draws where
    "run_ui_loop (syscall_dispatcher P) rdx sw sh ss = Inr (u, draws, map (\<lambda>s. s\<lparr>GLOBAL_IPC_MAILBOX := 0\<rparr>) ss)"
    "desktop_of u = fold (\<lambda>s. react (sint sw) (sint sh) (decode (GLOBAL_IPC_MAILBOX s))) ss (desktop_of (ui_init sw sh))"
    "desktop_inv (sint sw) (sint sh) (desktop_of u)"
proof -
  let ?msgs = "map GLOBAL_IPC_MAILBOX ss"
  obtain draws where "ui_loop (syscall_dispatcher P) rdx sw sh ss (ui_init sw sh) =
      Inr (fold (receive_message sw sh) ?msgs (ui_init sw sh), draws, map (\<lambda>s. s\<lparr>GLOBAL_IPC_MAILBOX := 0\<rparr>) ss)"
    using kernel_services.ui_loop_receives [of P rdx sw sh ss "ui_init sw sh"] by (auto simp: kernel_fetch_def)
  then have run: "run_ui_loop (syscall_dispatcher P) rdx sw sh ss =
      Inr (fold (receive_message sw sh) ?msgs (ui_init sw sh), ui_init_draws sw sh @ draws, map (\<lambda>s. s\<lparr>GLOBAL_IPC_MAILBOX := 0\<rparr>) ss)"
    by (simp add: run_ui_loop_def)
  note r = receive_messages_react [OF assms desktop_inv_init [OF assms], of ?msgs]
  have "desktop_of (fold (receive_message sw sh) ?msgs (ui_init sw sh)) =
      fold (\<lambda>s. react (sint sw) (sint sh) (decode (GLOBAL_IPC_MAILBOX s))) ss (desktop_of (ui_init sw sh))"
    using r [THEN conjunct1] by (simp only: fold_map o_def)
  with run r [THEN conjunct2] show ?thesis by (intro that)
qed

text \<open>The messages of the input driver.\<close>

lemma message_fields:
  fixes k :: u64 and f dx dy :: u8
  defines "m \<equiv> push_bit 24 k OR push_bit 16 (ucast f) OR push_bit 8 (ucast dx) OR ucast dy"
  shows "bit m 16 = bit f 0" "(ucast (drop_bit 8 m) :: u8) = dx" "(ucast m :: u8) = dy"
proof -
  show "bit m 16 = bit f 0" by (auto simp: m_def bit_simps dest: bit_imp_le_length)
  show "(ucast (drop_bit 8 m) :: u8) = dx" "(ucast m :: u8) = dy"
    by (rule bit_word_eqI, auto simp: m_def bit_simps dest: bit_imp_le_length)+
qed

lemma decode_mouse_message: "decode (mouse_message f dx dy) = Mouse (bit f 0) (sint dx) (sint dy)"
  using message_fields [of "0x5E" f dx dy] unfolding decode_def message_ids mouse_message_def [symmetric] by simp

lemma decode_key_message: "decode (key_message b) = (if b < 0x80 then Key else Other)"
proof -
  have "bit b 7 \<longleftrightarrow> \<not> b < 0x80"
  proof -
    have "bit b 7 \<longleftrightarrow> bit (unat b) 7" by (simp add: bit_unsigned_iff)
    then have "bit b 7 \<longleftrightarrow> odd (unat b div 128)" by (simp only: bit_iff_odd) simp
    moreover have "unat b mod 256 = unat b" using unat_byte_lt [of b] by simp
    ultimately show ?thesis using mod_256_less [of "unat b"] by (simp add: word_less_nat_alt)
  qed
  moreover have "bit (key_message b) 7 = bit b 7" by (simp add: key_message_def bit_simps)
  ultimately show ?thesis by (simp add: decode_def)
qed

section \<open>Properties\<close>

text \<open>
  C9. The application implements the desktop.  However the rest of the system runs between its polls,
  the application never fails, takes the message that it finds at each poll, and its 32-bit state is
  the one that the integer specification reaches with the decoded messages.  No coordinate wraps
  around; a mouse packet moves the cursor by its deltas within the screen; pressing the button on the
  title bar grips the window, which then follows the cursor until the button is released.
\<close>

theorem ui_implements_desktop:
  assumes "screen_ok sw" and "screen_ok sh"
  shows "\<exists>u draws. run_ui_loop (syscall_dispatcher P) rdx sw sh ss = Inr (u, draws, map (\<lambda>s. s\<lparr>GLOBAL_IPC_MAILBOX := 0\<rparr>) ss) \<and>
    desktop_of u = fold (\<lambda>s. react (sint sw) (sint sh) (decode (GLOBAL_IPC_MAILBOX s))) ss
      \<lparr>cursor = (sint sw div 2, sint sh div 2), window = (200, 150), grip = None, title = 0x0055AA\<rparr>"
  by (rule run_ui_loop_kernel [OF assms, of P rdx ss]) (simp add: desktop_of_init [OF assms])

theorem ui_implements_desktop_witness:
  "\<exists>u draws ts. run_ui_loop (syscall_dispatcher example_hw) 0 1024 768
      (map (\<lambda>m. example_kernel\<lparr>GLOBAL_IPC_MAILBOX := m\<rparr>)
        [mouse_message 0 0xF6 100, 0, mouse_message 0 0 120, mouse_message 1 0 4, mouse_message 1 20 5]) = Inr (u, draws, ts) \<and>
     desktop_of u = \<lparr>cursor = (522, 155), window = (220, 145), grip = Some (302, 10), title = 0x0055AA\<rparr>"
proof -
  have ok: "screen_ok 1024" "screen_ok 768" by (simp_all add: screen_ok_def)
  have "decode 0 = Other" by (simp add: decode_def message_id_def)
  with ui_implements_desktop [OF ok, of example_hw 0 "map (\<lambda>m. example_kernel\<lparr>GLOBAL_IPC_MAILBOX := m\<rparr>)
      [mouse_message 0 0xF6 100, 0, mouse_message 0 0 120, mouse_message 1 0 4, mouse_message 1 20 5]"]
  show ?thesis by (auto simp: decode_mouse_message clamp_def Let_def bit_0)
qed

text \<open>
  The state stays sane whatever messages arrive: the cursor is on the screen with all of its six
  by six pixels, the window stays within reach, the title colour is a 24-bit colour, and while the
  window is dragged the cursor holds it at the same point of its title bar.
\<close>

theorem ui_invariant:
  assumes "screen_ok sw" and "screen_ok sh"
  shows "\<exists>u draws ts. run_ui_loop (syscall_dispatcher P) rdx sw sh ss = Inr (u, draws, ts) \<and>
    desktop_inv (sint sw) (sint sh) (desktop_of u)"
  by (rule run_ui_loop_kernel [OF assms, of P rdx ss]) blast

theorem ui_invariant_witness:
  "\<exists>u draws ts. run_ui_loop (syscall_dispatcher example_hw) 0 1024 768
      (map (\<lambda>m. example_kernel\<lparr>GLOBAL_IPC_MAILBOX := m\<rparr>) [0x5E01FF80, 0x11000010, 77]) = Inr (u, draws, ts) \<and>
     desktop_inv 1024 768 (desktop_of u)"
proof -
  have "screen_ok 1024" "screen_ok 768" by (simp_all add: screen_ok_def)
  from ui_invariant [OF this] show ?thesis by simp
qed

text \<open>
  The cursor is never cut off: on a screen of the size that the application was told, drawing the
  cursor after any messages writes exactly the six by six pixels at its position.
\<close>

theorem cursor_fully_visible:
  assumes "screen_ok sw" and "screen_ok sh" and "FB_PTR F \<noteq> 0" and "FB_WIDTH F = scast sw" and "FB_HEIGHT F = scast sh"
    and "desktop_inv (sint sw) (sint sh) (desktop_of u)" and "(x, y, w, h, c) = hd (draw_cursor (mouse_x u) (mouse_y u))"
  shows "uint ` fst ` set (draw_rect F x y w h c) =
    {py * sint sw + px | px py. sint (mouse_x u) \<le> px \<and> px < sint (mouse_x u) + 6 \<and>
       sint (mouse_y u) \<le> py \<and> py < sint (mouse_y u) + 6}"
proof -
  have c: "x = mouse_x u" "y = mouse_y u" "w = 6" "h = 6" using assms(7) by (simp_all add: draw_cursor_def)
  have scr: "12 \<le> sint sw" "sint sw < 2 ^ 30" "12 \<le> sint sh" "sint sh < 2 ^ 30" using assms(1,2) by (simp_all add: screen_ok_def)
  then have WH: "uint (FB_WIDTH F) = sint sw" "uint (FB_HEIGHT F) = sint sh"
    using assms(4,5) by (simp_all only: uint_scast_nonneg)
  have m: "0 \<le> sint x" "sint x \<le> sint sw - 6" "0 \<le> sint y" "sint y \<le> sint sh - 6"
    using assms(6) by (auto simp: desktop_inv_def desktop_of_def c)
  have "sint (clip (FB_WIDTH F) x w) = 6" "sint (clip (FB_HEIGHT F) y h) = 6"
    using m scr by (simp_all add: sint_clip WH c(3,4))
  then show ?thesis
    using draw_rect_pixels [of F x y w h c] assms(3) scr m by (simp add: WH c)
qed

theorem cursor_fully_visible_witness:
  "uint ` fst ` set (draw_rect \<lparr>FB_PTR = 0xB0000000, FB_WIDTH = 64, FB_HEIGHT = 48\<rparr> 32 24 6 6 0xFFFFFF) =
    {py * 64 + px | px py. 32 \<le> px \<and> px < 38 \<and> 24 \<le> py \<and> py < 30}"
proof -
  have ok: "screen_ok 64" "screen_ok 48" by (simp_all add: screen_ok_def)
  have u: "mouse_x (ui_init 64 48) = 32" "mouse_y (ui_init 64 48) = 24" by (simp_all add: ui_init_def half_i32_def)
  from cursor_fully_visible [OF ok _ _ _ desktop_inv_init [OF ok], of "\<lparr>FB_PTR = 0xB0000000, FB_WIDTH = 64, FB_HEIGHT = 48\<rparr>" 32 24 6 6 "0xFFFFFF"]
  show ?thesis by (simp add: u draw_cursor_def)
qed

text \<open>
  Driver and application agree on the messages: what the application decodes from a mouse packet
  or key of the driver is the button, the two signed deltas, or a key press (a release is ignored).
\<close>

theorem decode_driver_messages:
  "decode (mouse_message f dx dy) = Mouse (bit f 0) (sint dx) (sint dy) \<and>
   decode (key_message b) = (if b < 0x80 then Key else Other)"
  by (simp add: decode_mouse_message decode_key_message)

text \<open>
  A mouse movement reaches the cursor: three mouse bytes that the controller delivers, however many
  polls that takes, make the driver send one message, which the kernel keeps for the application's
  next poll; then the desktop has reacted to these three bytes and is redrawn, and the message slot is
  empty again.
\<close>

theorem mouse_movement_reaches_cursor:
  assumes "screen_ok sw" and "screen_ok sh" and "desktop_inv (sint sw) (sint sh) (desktop_of u)"
    and "inputs (kernel_read8 P) n s = ([(True, f), (True, dx), (True, dy)], t)"
  shows "\<exists>h s1 u' s2. event_loop (syscall_dispatcher P) n hid_new s = Inr (h, s1) \<and>
    ui_iteration (syscall_dispatcher P) rdx sw sh u s1 = Inr (u', redraw u u', s2) \<and>
    desktop_of u' = react (sint sw) (sint sh) (Mouse (bit f 0) (sint dx) (sint dy)) (desktop_of u) \<and>
    GLOBAL_IPC_MAILBOX s2 = 0"
proof -
  let ?m = "mouse_message f dx dy"
  have "messages [] [(True, f), (True, dx), (True, dy)] = [?m]" by simp
  then obtain h where h: "event_loop (syscall_dispatcher P) n hid_new s = Inr (h, t\<lparr>GLOBAL_IPC_MAILBOX := ?m\<rparr>)"
    using hid_kernel.event_loop_delivers [OF hid_new_inv(1), of P n s] assms(4) by (auto simp: kernel_post_def)
  have id: "message_id ?m = 0x5E" by simp
  then have m: "?m \<noteq> 0" by (auto simp: message_id_def)
  have "snd (handle_message sw sh ?m u)"
    using id by (simp add: handle_message_def message_id_def)
  then have "ui_iteration (syscall_dispatcher P) rdx sw sh u (t\<lparr>GLOBAL_IPC_MAILBOX := ?m\<rparr>) =
      Inr (fst (handle_message sw sh ?m u), redraw u (fst (handle_message sw sh ?m u)), t\<lparr>GLOBAL_IPC_MAILBOX := 0\<rparr>)"
    using m by (simp add: ui_iteration_def get_ipc_message_def kernel_services.sys_ipc_receive_fetch kernel_fetch_def split_beta)
  with h handle_message_react [OF assms(1-3), of ?m] show ?thesis
    by (auto simp: decode_mouse_message)
qed

text \<open>A controller that has a mouse byte 5 at every poll.\<close>

definition busy_mouse_hw :: "(flat_table, (u16 \<times> nat \<times> u32) list) hw_platform" where
  "busy_mouse_hw = example_hw\<lparr>port_in := (\<lambda>dev port n. (if port = 0x64 then 0x21 else 5, dev))\<rparr>"

theorem mouse_movement_reaches_cursor_witness:
  "\<exists>h s1 u' s2. event_loop (syscall_dispatcher busy_mouse_hw) 3 hid_new example_kernel = Inr (h, s1) \<and>
     ui_iteration (syscall_dispatcher busy_mouse_hw) 0 1024 768 (ui_init 1024 768) s1 =
       Inr (u', redraw (ui_init 1024 768) u', s2) \<and> cursor (desktop_of u') = (517, 379)"
proof -
  have ok: "screen_ok 1024" "screen_ok 768" by (simp_all add: screen_ok_def)
  have inp: "inputs (kernel_read8 busy_mouse_hw) 3 example_kernel = ([(True, 5), (True, 5), (True, 5)], example_kernel)"
    by (simp add: numeral_3_eq_3 kernel_read8_def busy_mouse_hw_def)
  have react: "cursor (react 1024 768 (Mouse True 5 5) (desktop_of (ui_init 1024 768))) = (517, 379)"
    by (simp add: desktop_of_init [OF ok] clamp_def Let_def)
  from mouse_movement_reaches_cursor [OF ok desktop_inv_init [OF ok] inp, of 0] react show ?thesis
    by (auto simp: bit_0)
qed

end
