(* ===== verification/Input_Pipeline.thy ===== *)
theory Input_Pipeline
  imports "HOL-Library.Sublist" Test_App
begin

text \<open>
  The keyboard and mouse driver and the user interface application running side by side over one kernel:
  what of the input reaches the desktop when the two loops are interleaved in any way.

  The driver (\<^verbatim>\<open>userland/drivers/ps2_hid/src/main.rs\<close>) sends through the message slot of the kernel and
  the application (\<^verbatim>\<open>userland/apps/test_app/src/lib.rs\<close>) polls it.  The slot holds one message, and a
  send overwrites it.  A schedule is a list of actors; a step of an actor is one iteration of its loop.
  An iteration accesses the slot at most once, and its port reads commute with the accesses of the other
  side (the laws of the locale below), so that iterations are fine enough.
\<close>

section \<open>Model\<close>

datatype actor = Driver | Application

record 's pipeline =
  driver_state :: hid
  app_state :: ui
  drawn :: "draw_call list"
  system :: 's

definition pipeline_step :: "'s kernel_call \<Rightarrow> u64 \<Rightarrow> i32 \<Rightarrow> i32 \<Rightarrow> actor \<Rightarrow> 's pipeline \<Rightarrow> 's pipeline res" where
  "pipeline_step sc rdx screen_w screen_h a p =
     (case a of
        Driver \<Rightarrow>
          bindE (event_iteration sc (driver_state p) (system p)) (\<lambda>(h, s).
          Inr (p\<lparr>driver_state := h, system := s\<rparr>))
      | Application \<Rightarrow>
          bindE (ui_iteration sc rdx screen_w screen_h (app_state p) (system p)) (\<lambda>(u, draws, s).
          Inr (p\<lparr>app_state := u, drawn := drawn p @ draws, system := s\<rparr>)))"

fun pipeline_run :: "'s kernel_call \<Rightarrow> u64 \<Rightarrow> i32 \<Rightarrow> i32 \<Rightarrow> actor list \<Rightarrow> 's pipeline \<Rightarrow> 's pipeline res" where
  "pipeline_run sc rdx screen_w screen_h [] p = Inr p"
| "pipeline_run sc rdx screen_w screen_h (a # as) p =
     bindE (pipeline_step sc rdx screen_w screen_h a p) (pipeline_run sc rdx screen_w screen_h as)"

definition pipeline_start :: "i32 \<Rightarrow> i32 \<Rightarrow> 's \<Rightarrow> 's pipeline" where
  "pipeline_start screen_w screen_h s =
     \<lparr>driver_state = hid_new, app_state = ui_init screen_w screen_h, drawn = ui_init_draws screen_w screen_h, system = s\<rparr>"

section \<open>Schedules\<close>

abbreviation driver_steps :: "actor list \<Rightarrow> nat" where
  "driver_steps as \<equiv> count_list as Driver"

text \<open>The content of the slot; 0 stands for an empty one.\<close>

definition slot_list :: "u64 \<Rightarrow> u64 list" where
  "slot_list m = (if m = 0 then [] else [m])"

text \<open>The driver never runs while the slot may be full: the application polls after each of its steps.\<close>

fun no_overrun :: "bool \<Rightarrow> actor list \<Rightarrow> bool" where
  "no_overrun full [] \<longleftrightarrow> True"
| "no_overrun full (Application # as) \<longleftrightarrow> no_overrun False as"
| "no_overrun full (Driver # as) \<longleftrightarrow> \<not> full \<and> no_overrun True as"

lemma no_overrun_mono: "no_overrun True as \<Longrightarrow> no_overrun full as"
  by (cases "(full, as)" rule: no_overrun.cases) auto

text \<open>
  What a one-slot channel guarantees: the messages that arrived are a subsequence of those that were sent,
  the newest message has arrived, and all of them have if the sender never overruns the slot.
\<close>

definition delivered :: "bool \<Rightarrow> actor list \<Rightarrow> u64 list \<Rightarrow> u64 list \<Rightarrow> bool" where
  "delivered full as sent got \<longleftrightarrow>
     subseq got sent \<and> (sent \<noteq> [] \<longrightarrow> got \<noteq> [] \<and> last got = last sent) \<and> (no_overrun full as \<longrightarrow> got = sent)"

lemma delivered_nil: "delivered full [] (slot_list b) (slot_list b)"
  by (simp add: delivered_def)

lemma delivered_driver:
  assumes "delivered (b' \<noteq> 0) as (slot_list b' @ rest) got" "b' = (if m = 0 then b else m)"
  shows "delivered (b \<noteq> 0) (Driver # as) (slot_list b @ slot_list m @ rest) got"
proof (cases "m = 0")
  case True
  then show ?thesis using assms no_overrun_mono [of as "b \<noteq> 0"] by (auto simp: delivered_def slot_list_def)
next
  case False
  then have "delivered True as (m # rest) got" using assms by (simp add: slot_list_def)
  then show ?thesis using False
    by (auto simp: delivered_def slot_list_def intro: list_emb_Cons)
qed

lemma delivered_application:
  assumes "delivered False as rest got"
  shows "delivered (b \<noteq> 0) (Application # as) (slot_list b @ rest) (slot_list b @ got)"
  using assms by (auto simp: delivered_def slot_list_def)

lemma messages_nonzero: "0 \<notin> set (messages pend xs)"
  using messages_ids [of 0 pend xs] by (auto simp: message_id_def)

section \<open>The pipeline against the contract of the services\<close>

locale pipeline_services = hid_services +
  assumes fetch_post: "fetch (post m s) = (m, snd (fetch s))"
    and fetch_empties: "fst (fetch (snd (fetch s))) = 0"
    and fetch_read: "fst (fetch (snd (read8 port s))) = fst (fetch s)"
    and read_fetch: "read8 port (snd (fetch s)) = (fst (read8 port s), snd (fetch (snd (read8 port s))))"
begin

lemma inputs_fetch: "fst (inputs read8 n (snd (fetch s))) = fst (inputs read8 n s)"
  by (induction n arbitrary: s) (simp_all add: read_fetch split_beta Let_def)

text \<open>One iteration of the driver puts at most one message into the slot, the next one of the stream.\<close>

lemma driver_iteration:
  assumes "hid_inv h"
  obtains h' s' m where "event_iteration sc h s = Inr (h', s')" "hid_inv h'"
    "fst (fetch s') = (if m = 0 then fst (fetch s) else m)"
    "\<And>n. messages (pending h) (fst (inputs read8 (Suc n) s)) = slot_list m @ messages (pending h') (fst (inputs read8 n s'))"
proof -
  obtain status s1 b t where rd: "read8 0x64 s = (status, s1)" "read8 0x60 s1 = (b, t)" by (meson surj_pair)
  have slot: "fst (fetch s1) = fst (fetch s)" "fst (fetch t) = fst (fetch s1)"
    using fetch_read [of "0x64" s] fetch_read [of "0x60" s1] by (simp_all add: rd)
  have nz: "key_message b \<noteq> 0" "mouse_message f dx b \<noteq> 0" for f dx
    using messages_nonzero [of "[]" "[(False, b)]"] messages_nonzero [of "[f, dx]" "[(True, b)]"] by auto
  consider "status AND 1 = 0" | "status AND 1 \<noteq> 0" "status AND 0x20 = 0" | "status AND 1 \<noteq> 0" "status AND 0x20 \<noteq> 0" by blast
  then show ?thesis
  proof cases
    case 1
    show ?thesis
      by (rule that [of h s1 0]) (use 1 event_iteration_idle [of s h] assms slot in \<open>simp_all add: rd slot_list_def\<close>)
  next
    case 2
    show ?thesis
      by (rule that [of h "post (key_message b) t" "key_message b"])
        (use 2 event_iteration_key [of s b t h] assms nz in
          \<open>simp_all add: rd slot_list_def fetch_post inputs_post split_beta Let_def\<close>)
  next
    case 3
    then obtain h1 where h1: "hid_inv h1" and
      cs: "(\<exists>f dx. pending h = [f, dx] \<and> pending h1 = [] \<and> event_iteration sc h s = Inr (h1, post (mouse_message f dx b) t)) \<or>
       (length (pending h) < 2 \<and> pending h1 = pending h @ [b] \<and> event_iteration sc h s = Inr (h1, t))"
      using event_iteration_mouse [OF assms, of s b t] by (auto simp: rd)
    from cs show ?thesis
    proof (elim disjE exE conjE)
      fix f dx assume "pending h = [f, dx]" "pending h1 = []" "event_iteration sc h s = Inr (h1, post (mouse_message f dx b) t)"
      then show ?thesis
        by (intro that [of h1 "post (mouse_message f dx b) t" "mouse_message f dx b"])
          (use 3 h1 nz in \<open>simp_all add: rd slot_list_def fetch_post inputs_post split_beta Let_def\<close>)
    next
      assume p: "length (pending h) < 2" "pending h1 = pending h @ [b]" "event_iteration sc h s = Inr (h1, t)"
      have "messages (pending h) ((True, b) # xs) = messages (pending h @ [b]) xs" for xs
        using p(1) by (cases "pending h" rule: triples.cases) (auto simp: neq_Nil_conv)
      then show ?thesis
        by (intro that [of h1 t 0]) (use 3 h1 p slot in \<open>simp_all add: rd slot_list_def split_beta Let_def\<close>)
    qed
  qed
qed

lemma application_iteration:
  "\<exists>draws. ui_iteration sc rdx sw sh u s = Inr (receive_message sw sh (fst (fetch s)) u, draws, snd (fetch s))"
  by (simp add: ui_iteration_def get_ipc_message_def sys_ipc_receive_fetch receive_message_def split_beta)

text \<open>
  What the application has taken and what is still in the slot, against what was in the slot and what
  the driver has sent.
\<close>

definition delivers :: "u64 \<Rightarrow> i32 \<Rightarrow> i32 \<Rightarrow> actor list \<Rightarrow> 'a pipeline \<Rightarrow> bool" where
  "delivers rdx sw sh as p \<longleftrightarrow> (\<exists>q taken. pipeline_run sc rdx sw sh as p = Inr q \<and> hid_inv (driver_state q) \<and>
    app_state q = fold (receive_message sw sh) taken (app_state p) \<and>
    delivered (fst (fetch (system p)) \<noteq> 0) as
      (slot_list (fst (fetch (system p))) @ messages (pending (driver_state p)) (fst (inputs read8 (driver_steps as) (system p))))
      (taken @ slot_list (fst (fetch (system q)))))"

lemma delivers_driver:
  assumes inv: "hid_inv (driver_state p)" and rest: "\<And>p. hid_inv (driver_state p) \<Longrightarrow> delivers rdx sw sh as p"
  shows "delivers rdx sw sh (Driver # as) p"
proof -
  obtain h s m where it: "event_iteration sc (driver_state p) (system p) = Inr (h, s)" "hid_inv h"
    "fst (fetch s) = (if m = 0 then fst (fetch (system p)) else m)"
    "\<And>n. messages (pending (driver_state p)) (fst (inputs read8 (Suc n) (system p))) = slot_list m @ messages (pending h) (fst (inputs read8 n s))"
    by (rule driver_iteration [OF inv, of "system p"]) (rule that)
  define p1 where "p1 = p\<lparr>driver_state := h, system := s\<rparr>"
  have p1: "driver_state p1 = h" "system p1 = s" "app_state p1 = app_state p" by (simp_all add: p1_def)
  have steps: "driver_steps (Driver # as) = Suc (driver_steps as)" by simp
  have first: "pipeline_run sc rdx sw sh (Driver # as) p = pipeline_run sc rdx sw sh as p1"
    by (simp add: pipeline_step_def it(1) p1_def)
  obtain q taken where q: "pipeline_run sc rdx sw sh as p1 = Inr q" "hid_inv (driver_state q)"
    "app_state q = fold (receive_message sw sh) taken (app_state p)"
    "delivered (fst (fetch s) \<noteq> 0) as (slot_list (fst (fetch s)) @ messages (pending h) (fst (inputs read8 (driver_steps as) s)))
      (taken @ slot_list (fst (fetch (system q))))"
    using rest [of p1] it(2) unfolding delivers_def p1 by blast
  show ?thesis
    unfolding delivers_def
    by (intro exI [of _ q] exI [of _ taken] conjI)
      (use q(1-3) delivered_driver [OF q(4) it(3)] in \<open>simp_all only: first steps it(4)\<close>)
qed

lemma delivers_application:
  assumes inv: "hid_inv (driver_state p)" and rest: "\<And>p. hid_inv (driver_state p) \<Longrightarrow> delivers rdx sw sh as p"
  shows "delivers rdx sw sh (Application # as) p"
proof -
  define m s where ms: "m = fst (fetch (system p))" "s = snd (fetch (system p))"
  obtain draws where it: "ui_iteration sc rdx sw sh (app_state p) (system p) = Inr (receive_message sw sh m (app_state p), draws, s)"
    using application_iteration unfolding ms by blast
  define p1 where "p1 = p\<lparr>app_state := receive_message sw sh m (app_state p), drawn := drawn p @ draws, system := s\<rparr>"
  have p1: "driver_state p1 = driver_state p" "system p1 = s" "app_state p1 = receive_message sw sh m (app_state p)"
    by (simp_all add: p1_def)
  have s: "fst (fetch s) = 0" "fst (inputs read8 n s) = fst (inputs read8 n (system p))" for n
    by (simp_all add: ms fetch_empties inputs_fetch)
  have steps: "driver_steps (Application # as) = driver_steps as" by simp
  have first: "pipeline_run sc rdx sw sh (Application # as) p = pipeline_run sc rdx sw sh as p1"
    by (simp add: pipeline_step_def it p1_def)
  have take: "fold (receive_message sw sh) taken (receive_message sw sh m u) =
      fold (receive_message sw sh) (slot_list m @ taken) u" for taken u
    by (simp add: slot_list_def receive_message_def)
  have empty: "slot_list 0 = []" by (simp add: slot_list_def)
  have inv1: "hid_inv (driver_state p1)" using inv by (simp only: p1)
  obtain q taken where q: "pipeline_run sc rdx sw sh as p1 = Inr q" "hid_inv (driver_state q)"
    "app_state q = fold (receive_message sw sh) taken (receive_message sw sh m (app_state p))"
    "delivered False as (messages (pending (driver_state p)) (fst (inputs read8 (driver_steps as) (system p))))
      (taken @ slot_list (fst (fetch (system q))))"
    using rest [OF inv1] unfolding delivers_def p1 s empty append_Nil by (elim exE conjE) (simp only: HOL.simp_thms)
  show ?thesis
    unfolding delivers_def
    by (intro exI [of _ q] exI [of _ "slot_list m @ taken"] conjI)
      (use q(1-3) delivered_application [OF q(4), of m] in
        \<open>simp_all only: first steps take ms(1) [symmetric] append_assoc\<close>)
qed

lemma pipeline_delivers: "hid_inv (driver_state p) \<Longrightarrow> delivers rdx sw sh as p"
proof (induction as arbitrary: p)
  case Nil
  then show ?case unfolding delivers_def by (intro exI [of _ p] exI [of _ "[]"]) (use delivered_nil in simp)
next
  case (Cons a as)
  then show ?case by (cases a) (blast intro: delivers_driver delivers_application)+
qed

end

interpretation pipeline_kernel: pipeline_services "syscall_dispatcher P" "kernel_read8 P" "kernel_read32 P" "kernel_write8 P"
    "kernel_write32 P" kernel_post kernel_fetch kernel_irq_flag for P :: "('pt, 'dev) hw_platform"
  by unfold_locales (simp_all add: kernel_read8_def kernel_post_def kernel_fetch_def split_beta)

section \<open>Properties\<close>

text \<open>
  C6. However driver and application are interleaved, neither fails, and the desktop has reacted to a
  subsequence of the messages that the controller's bytes stand for: no message is invented, repeated or
  reordered.  The newest message is never lost, it has been handled or is still in the slot; and if the
  application polls after every iteration of the driver, no message is.
\<close>

theorem input_reaches_desktop:
  assumes "screen_ok sw" and "screen_ok sh"
  shows "\<exists>q taken. pipeline_run (syscall_dispatcher P) rdx sw sh as (pipeline_start sw sh s) = Inr q \<and>
    desktop_of (app_state q) = fold (\<lambda>m. react (sint sw) (sint sh) (decode m)) taken
      \<lparr>cursor = (sint sw div 2, sint sh div 2), window = (200, 150), grip = None, title = 0x0055AA\<rparr> \<and>
    (let sent = slot_list (GLOBAL_IPC_MAILBOX s) @ messages [] (fst (inputs (kernel_read8 P) (driver_steps as) s));
         got = taken @ slot_list (GLOBAL_IPC_MAILBOX (system q))
     in subseq got sent \<and> (sent \<noteq> [] \<longrightarrow> got \<noteq> [] \<and> last got = last sent) \<and>
        (no_overrun (GLOBAL_IPC_MAILBOX s \<noteq> 0) as \<longrightarrow> got = sent))"
proof -
  let ?p = "pipeline_start sw sh s"
  have p: "driver_state ?p = hid_new" "app_state ?p = ui_init sw sh" "system ?p = s" by (simp_all add: pipeline_start_def)
  obtain q taken where q: "pipeline_run (syscall_dispatcher P) rdx sw sh as ?p = Inr q"
    "app_state q = fold (receive_message sw sh) taken (ui_init sw sh)"
    "delivered (fst (kernel_fetch s) \<noteq> 0) as
      (slot_list (fst (kernel_fetch s)) @ messages [] (fst (inputs (kernel_read8 P) (driver_steps as) s)))
      (taken @ slot_list (fst (kernel_fetch (system q))))"
    using pipeline_kernel.pipeline_delivers [of ?p P rdx sw sh as] unfolding pipeline_kernel.delivers_def p hid_new_inv(2) by auto
  have "desktop_of (app_state q) = fold (\<lambda>m. react (sint sw) (sint sh) (decode m)) taken (desktop_of (ui_init sw sh))"
    using receive_messages_react [OF assms desktop_inv_init [OF assms], of taken] by (simp add: q(2))
  with q show ?thesis
    unfolding desktop_of_init [OF assms] delivered_def kernel_fetch_def fst_conv Let_def by blast
qed

theorem input_reaches_desktop_witness:
  "\<exists>q taken. pipeline_run (syscall_dispatcher busy_mouse_hw) 0 1024 768 (concat (replicate 3 [Driver, Application]))
       (pipeline_start 1024 768 example_kernel) = Inr q \<and>
     taken @ slot_list (GLOBAL_IPC_MAILBOX (system q)) = [mouse_message 5 5 5] \<and>
     desktop_of (app_state q) = fold (\<lambda>m. react 1024 768 (decode m)) taken
       \<lparr>cursor = (512, 384), window = (200, 150), grip = None, title = 0x0055AA\<rparr>"
proof -
  have ok: "screen_ok 1024" "screen_ok 768" by (simp_all add: screen_ok_def)
  let ?as = "concat (replicate 3 [Driver, Application])"
  have steps: "driver_steps ?as = 3" and fair: "no_overrun False ?as" by (simp_all add: numeral_3_eq_3)
  have inp: "inputs (kernel_read8 busy_mouse_hw) 3 example_kernel = ([(True, 5), (True, 5), (True, 5)], example_kernel)"
    by (simp add: numeral_3_eq_3 kernel_read8_def busy_mouse_hw_def)
  have box: "GLOBAL_IPC_MAILBOX example_kernel = 0" by (simp add: example_kernel_def)
  show ?thesis
    using input_reaches_desktop [OF ok, of busy_mouse_hw 0 ?as example_kernel] fair
    by (auto simp: steps inp box slot_list_def Let_def)
qed

end
