(* ===== verification/Gpu_Driver.thy ===== *)
theory Gpu_Driver
  imports Kernel_Elf Lib_Stardust
begin

text \<open>
  The display driver \<^verbatim>\<open>userland/drivers/gpu_driver/src/main.rs\<close>: it enumerates the PCI bus through the
  configuration ports and reports every display controller to the kernel's log.

  A report is a one-element command array on the driver's stack that the kernel reads back with its
  batch service; \<open>cmd\<close> is the address of that array.  The PCI bus is a device of the kernel,
  described by the hypothesis \<open>pci_law\<close>: the configuration word at an address written to port 0xCF8 is
  what port 0xCFC returns.
\<close>

section \<open>Model\<close>

text \<open>The eight bytes of a \<open>u64\<close> in memory.\<close>

definition u64_bytes :: "u64 \<Rightarrow> u8 list" where
  "u64_bytes v = map (\<lambda>i. ucast (drop_bit (8 * i) v)) [0..<8]"

definition trace_event :: "('pt, 'dev) hw_platform \<Rightarrow> u64 \<Rightarrow> u64 \<Rightarrow> ('pt, 'dev) kernel \<Rightarrow> ('pt, 'dev) kernel res" where
  "trace_event P cmd data s =
     bindE (write_bytes P cmd (u64_bytes (0x0000DB6000000000 OR data)) s) (\<lambda>s.
     bindE (sys_batch_execute (syscall_dispatcher P) cmd 1 s) (\<lambda>(_, s). Inr s))"

definition pci_address :: "u8 \<Rightarrow> u8 \<Rightarrow> u8 \<Rightarrow> u8 \<Rightarrow> u32" where
  "pci_address b sl fn off =
     0x80000000 OR push_bit 16 (ucast b) OR push_bit 11 (ucast sl) OR push_bit 8 (ucast fn) OR (ucast off AND 0xFC)"

definition pci_read_32 :: "'s kernel_call \<Rightarrow> u8 \<Rightarrow> u8 \<Rightarrow> u8 \<Rightarrow> u8 \<Rightarrow> 's \<Rightarrow> (u32 \<times> 's) res" where
  "pci_read_32 sc b sl fn off s =
     (let address = pci_address b sl fn off in
      bindE (sys_port_out32 sc 0xCF8 address s) (\<lambda>s.
      bindE (sys_port_in sc 0xCFC 4 s) (\<lambda>(v, s). Inr (ucast v, s))))"

text \<open>The body of the two nested loops.\<close>

definition probe :: "('pt, 'dev) hw_platform \<Rightarrow> u64 \<Rightarrow> u8 \<Rightarrow> u8 \<Rightarrow> ('pt, 'dev) kernel \<Rightarrow> ('pt, 'dev) kernel res" where
  "probe P cmd b sl s =
     bindE (pci_read_32 (syscall_dispatcher P) b sl 0 0 s) (\<lambda>(vendor_device, s).
     let vendor = vendor_device AND 0xFFFF in
     if vendor \<noteq> 0xFFFF then
       bindE (pci_read_32 (syscall_dispatcher P) b sl 0 8 s) (\<lambda>(class_reg, s).
       let cls = drop_bit 24 class_reg AND 0xFF in
       if cls = 0x03 then
         bindE (trace_event P cmd 0x7001 s) (\<lambda>s.
         let device = drop_bit 16 vendor_device AND 0xFFFF;
             payload = 0x90000000 OR push_bit 16 (ucast vendor) OR ucast device
         in trace_event P cmd payload s)
       else Inr s)
     else Inr s)"

fun scan_loop :: "('pt, 'dev) hw_platform \<Rightarrow> u64 \<Rightarrow> (u8 \<times> u8) list \<Rightarrow> ('pt, 'dev) kernel \<Rightarrow> ('pt, 'dev) kernel res" where
  "scan_loop P cmd [] s = Inr s"
| "scan_loop P cmd ((b, sl) # rest) s = bindE (probe P cmd b sl s) (\<lambda>s. scan_loop P cmd rest s)"

text \<open>\<open>for bus in 0..=255 { for slot in 0..32 { .. } }\<close>\<close>

definition pci_slots :: "(u8 \<times> u8) list" where
  "pci_slots = List.product (map of_nat [0..<256]) (map of_nat [0..<32])"

definition gpu_start :: "('pt, 'dev) hw_platform \<Rightarrow> u64 \<Rightarrow> ('pt, 'dev) kernel \<Rightarrow> ('pt, 'dev) kernel res" where
  "gpu_start P cmd s =
     bindE (trace_event P cmd 0x7000 s) (\<lambda>s.
     bindE (scan_loop P cmd pci_slots s) (\<lambda>s.
     trace_event P cmd 0x700F s))"

section \<open>A word in memory\<close>

lemma le_value_bytes: "le_value (map (\<lambda>i. ucast (drop_bit (8 * i) v)) [0..<n]) = take_bit (8 * n) v"
proof (induction n arbitrary: v)
  case (Suc n)
  have upt: "[0..<Suc n] = 0 # map Suc [0..<n]" by (simp add: upt_conv_Cons map_Suc_upt del: upt_Suc)
  have "ucast (ucast v :: u8) = take_bit 8 v" by (rule bit_word_eqI) (auto simp: bit_simps)
  moreover have "drop_bit (8 * Suc i) v = drop_bit (8 * i) (drop_bit 8 v)" for i by (simp add: drop_bit_drop_bit add_ac)
  ultimately have "le_value (map (\<lambda>i. ucast (drop_bit (8 * i) v)) [0..<Suc n]) =
      take_bit 8 v + 256 * take_bit (8 * n) (drop_bit 8 v)"
    using Suc.IH [of "drop_bit 8 v"] unfolding upt by (simp add: comp_def)
  also have "\<dots> = take_bit 8 v + push_bit 8 (take_bit (8 * n) (drop_bit 8 v))" by (simp add: push_bit_eq_mult)
  also have "\<dots> = take_bit 8 v OR push_bit 8 (take_bit (8 * n) (drop_bit 8 v))"
    by (rule disjunctive_add) (auto simp: bit_simps)
  also have "\<dots> = take_bit (8 * Suc n) v" by (rule bit_word_eqI) (auto simp: bit_simps)
  finally show ?case .
qed simp

lemma le_value_u64_bytes [simp]: "le_value (u64_bytes v) = v"
  using le_value_bytes [of v 8] unfolding u64_bytes_def by (simp add: take_bit_word_eq_self)

lemma length_u64_bytes [simp]: "length (u64_bytes v) = 8"
  by (simp add: u64_bytes_def)

section \<open>Reports\<close>

text \<open>Where the command array can be: eight aligned bytes of a mapped user page.\<close>

definition cmd_ok :: "('pt, 'p) platform_scheme \<Rightarrow> ('pt, 'm) mem_state_scheme \<Rightarrow> u64 \<Rightarrow> bool" where
  "cmd_ok P s cmd \<longleftrightarrow>
     cmd \<noteq> 0 \<and> unat cmd mod 8 = 0 \<and> is_safe_user_ptr cmd 8 \<and> address_space P s (page_floor cmd) \<noteq> None"

text \<open>What the kernel prints for a one-command batch.\<close>

definition trace_text :: "u64 \<Rightarrow> u8 list" where
  "trace_text data =
     str_bytes ''\<newline>[*] IPC ROUTER: Processing Batched Syscalls...\<newline>'' @ str_bytes ''    -> Action 0x'' @ hex_bytes 0xDB60 @
     str_bytes '', Payload 0x'' @ hex_bytes data @ str_bytes ''\<newline>''"

lemma div_mod_add_small:
  assumes "n mod m + i < (m :: nat)"
  shows "(n + i) div m = n div m" "(n + i) mod m = n mod m + i"
proof -
  have n: "n + i = n mod m + i + n div m * m" by simp
  show "(n + i) div m = n div m" unfolding n using assms by (simp only: div_mult_self1) simp
  show "(n + i) mod m = n mod m + i" unfolding n using assms by (simp only: mod_mult_self1) simp
qed

lemma multiple_of_8_room: "n mod 8 = 0 \<Longrightarrow> n < 8 * k \<Longrightarrow> i < 8 \<Longrightarrow> n + i < 8 * k" for n :: nat
  by (auto elim!: dvdE simp: mod_eq_0_iff_dvd)

lemma aligned_word_in_page:
  assumes "unat a mod 8 = 0" "i < 8"
  shows "page_floor (a + of_nat i) = page_floor a" "page_offset (a + of_nat i) = page_offset a + of_nat i"
proof -
  have "unat a mod 4096 mod 8 = 0" using assms(1) by (simp add: mod_mod_cancel)
  then have al: "unat a mod 4096 + i < 8 * 512" using assms(2) by (intro multiple_of_8_room) simp_all
  have "unat a + i < 8 * 2305843009213693952"
    using assms u64_unat_lt [of a] by (intro multiple_of_8_room) simp_all
  then have "unat a + i < 2 ^ 64" using u64_unat_lt [of a] by simp
  then have u: "unat (a + of_nat i) = unat a + i"
    using assms(2) by (subst unat_add_no_overflow) (simp_all add: unat_of_nat_small)
  have dm: "(unat a + i) div 4096 = unat a div 4096" "(unat a + i) mod 4096 = unat a mod 4096 + i"
    using al by (simp_all add: div_mod_add_small)
  show "page_floor (a + of_nat i) = page_floor a" by (simp only: page_floor_eq_iff u dm)
  have "unat (page_offset a + of_nat i) = unat (page_offset a) + unat (of_nat i :: u64)"
    using al assms(2) by (intro unat_add_no_overflow) (simp add: unat_page_offset unat_of_nat_small)
  then show "page_offset (a + of_nat i) = page_offset a + of_nat i"
    using assms(2) by (simp add: word_unat_eq_iff unat_page_offset u dm unat_of_nat_small)
qed

lemma cmd_translate:
  assumes "cmd_ok P s cmd"
  obtains f where "\<And>i. i < 8 \<Longrightarrow> translate P s (cmd + of_nat i) = Some (f + of_nat i)"
proof -
  obtain fr fl where fr: "address_space P s (page_floor cmd) = Some (fr, fl)" using assms by (auto simp: cmd_ok_def)
  have "translate P s (cmd + of_nat i) = Some (fr + page_offset cmd + of_nat i)" if "i < 8" for i
    using aligned_word_in_page [OF _ that, of cmd] assms by (simp add: translate_address_space fr add_ac cmd_ok_def)
  then show ?thesis by (rule that)
qed

lemma trace_word:
  assumes "unat data < 2 ^ 32"
  shows "drop_bit 32 (0x0000DB6000000000 OR data) = (0xDB60 :: u64)" "(0x0000DB6000000000 OR data) AND 0xFFFFFFFF = (data :: u64)"
proof -
  have data: "take_bit 32 data = data"
    using assms by (simp add: word_unat_eq_iff unsigned_take_bit_eq take_bit_nat_eq_self)
  have "drop_bit 32 (take_bit 32 data) = 0" by (rule bit_word_eqI) (simp add: bit_simps)
  then show "drop_bit 32 (0x0000DB6000000000 OR data) = (0xDB60 :: u64)" by (simp add: data)
  have "(0x0000DB6000000000 OR data) AND 0xFFFFFFFF = take_bit 32 data"
    by (simp add: bit.conj_disj_distrib2 take_bit_eq_mask mask_numeral)
  then show "(0x0000DB6000000000 OR data) AND 0xFFFFFFFF = data" by (simp only: data)
qed

lemma of_nat_inj_8: "i < 8 \<Longrightarrow> j < 8 \<Longrightarrow> (of_nat i :: u64) = of_nat j \<longleftrightarrow> i = j"
  by (simp add: word_unat_eq_iff unat_of_nat_small)

lemma store_load_word:
  assumes "cmd_ok P s cmd"
  obtains m where "write_bytes P cmd (u64_bytes v) s = Inr (s\<lparr>phys_mem := m\<rparr>)"
    "\<And>log. ptr_read_u64 P (s\<lparr>phys_mem := m, serial := log\<rparr>) cmd = Inr v"
proof -
  obtain f where tr: "\<And>i. i < 8 \<Longrightarrow> translate P s (cmd + of_nat i) = Some (f + of_nat i)"
    using cmd_translate [OF assms] by blast
  let ?m = "poke (translate P s) cmd (u64_bytes v) (phys_mem s)"
  have wr: "write_bytes P cmd (u64_bytes v) s = Inr (s\<lparr>phys_mem := ?m\<rparr>)"
    by (rule write_bytes_poke) (simp add: tr)
  have inj: "inj_on (\<lambda>i. the (translate P s (cmd + of_nat i))) {..<length (u64_bytes v)}"
    by (rule inj_onI) (simp add: tr of_nat_inj_8)
  have "ptr_read_u64 P (s\<lparr>phys_mem := ?m, serial := log\<rparr>) cmd = Inr v" for log
  proof -
    let ?t = "s\<lparr>phys_mem := ?m, serial := log\<rparr>"
    have t: "translate P ?t = translate P s" by (simp add: translate_def fun_eq_iff)
    have "read_bytes P ?t cmd 8 = Inr (map (\<lambda>i. phys_mem ?t (the (translate P ?t (cmd + of_nat i)))) [0..<8])"
      by (rule read_bytes_map) (simp add: t tr)
    also have "map (\<lambda>i. phys_mem ?t (the (translate P ?t (cmd + of_nat i)))) [0..<8] = map (\<lambda>i. u64_bytes v ! i) [0..<8]"
      using poke_at [OF inj] by (intro map_cong) (simp_all add: t)
    also have "\<dots> = u64_bytes v" by (rule nth_equalityI) simp_all
    finally show ?thesis using assms by (simp add: ptr_read_u64_def cmd_ok_def)
  qed
  with wr show ?thesis by (rule that)
qed

lemma trace_event_effect:
  assumes "cmd_ok P s cmd" "unat data < 2 ^ 32"
  obtains m where "trace_event P cmd data s = Inr (s\<lparr>phys_mem := m, serial := serial s @ trace_text data\<rparr>)"
proof -
  obtain m where m: "write_bytes P cmd (u64_bytes (0x0000DB6000000000 OR data)) s = Inr (s\<lparr>phys_mem := m\<rparr>)"
    "\<And>log. ptr_read_u64 P (s\<lparr>phys_mem := m, serial := log\<rparr>) cmd = Inr (0x0000DB6000000000 OR data)"
    using store_load_word [OF assms(1)] by blast
  have "is_safe_user_ptr cmd 8" using assms(1) by (simp add: cmd_ok_def)
  then have "sys_batch_execute (syscall_dispatcher P) cmd 1 (s\<lparr>phys_mem := m\<rparr>) =
      Inr (0, s\<lparr>phys_mem := m, serial := serial s @ trace_text data\<rparr>)"
    using m(2) trace_word [OF assms(2)]
    by (simp add: sys_batch_execute_def syscall_dispatcher_def sys_batch_def mul_chk_def say_def speak_append trace_text_def Let_def)
  with m(1) show ?thesis by (intro that) (simp add: trace_event_def)
qed

section \<open>The scan\<close>

text \<open>The PCI bus behind the two configuration ports, as a function of the device state.\<close>

definition pci_law :: "('pt, 'dev) hw_platform \<Rightarrow> ('dev \<Rightarrow> u32 \<Rightarrow> u32) \<Rightarrow> bool" where
  "pci_law P config \<longleftrightarrow>
     (\<forall>dev a. case port_in P (port_out P dev 0xCF8 4 a) 0xCFC 4 of (v, dev') \<Rightarrow> v = config dev a \<and> config dev' = config dev)"

text \<open>What the driver reports for one slot of a bus with configuration words \<open>c\<close>.\<close>

definition gpu_payload :: "u32 \<Rightarrow> u64" where
  "gpu_payload vd = 0x90000000 OR push_bit 16 (ucast (vd AND 0xFFFF)) OR ucast (drop_bit 16 vd AND 0xFFFF)"

definition slot_report :: "(u32 \<Rightarrow> u32) \<Rightarrow> u8 \<times> u8 \<Rightarrow> u64 list" where
  "slot_report c = (\<lambda>(b, sl).
     let vd = c (pci_address b sl 0 0); cl = c (pci_address b sl 0 8) in
     if vd AND 0xFFFF \<noteq> 0xFFFF \<and> drop_bit 24 cl AND 0xFF = 3 then [0x7001, gpu_payload vd] else [])"

lemma gpu_payload_small: "unat (gpu_payload vd) < 2 ^ 32"
proof -
  have m: "(0xFFFF :: u32) = mask 16" by (simp add: mask_numeral)
  have "take_bit 32 (push_bit 16 (ucast (vd AND mask 16)) :: u64) = push_bit 16 (ucast (vd AND mask 16))"
    "take_bit 32 (ucast (drop_bit 16 vd AND mask 16) :: u64) = ucast (drop_bit 16 vd AND mask 16)"
    by (rule bit_word_eqI, auto simp: bit_simps)+
  then have "take_bit 32 (gpu_payload vd) = gpu_payload vd" by (simp add: gpu_payload_def m)
  then have "unat (gpu_payload vd) = take_bit 32 (unat (gpu_payload vd))" by (metis unsigned_take_bit_eq)
  then show ?thesis by (metis take_bit_nat_less_exp)
qed

lemma pci_read_32_config:
  assumes "pci_law P config"
  obtains d where "pci_read_32 (syscall_dispatcher P) b sl fn off s = Inr (config (devices s) (pci_address b sl fn off), s\<lparr>devices := d\<rparr>)"
    "config d = config (devices s)"
proof -
  let ?a = "pci_address b sl fn off"
  obtain v d where v: "port_in P (port_out P (devices s) 0xCF8 4 ?a) 0xCFC 4 = (v, d)" by (meson surj_pair)
  with assms [unfolded pci_law_def, THEN spec, THEN spec, of "devices s" ?a]
  have "v = config (devices s) ?a" "config d = config (devices s)" by simp_all
  with v show ?thesis
    by (intro that [of d])
      (simp_all add: pci_read_32_def kernel_services.sys_port_out_32 kernel_services.sys_port_in_32 kernel_write32_def kernel_read32_def)
qed

text \<open>What a part of the scan leaves: the log extended, scratch memory and bus state changed.\<close>

definition reported :: "('dev \<Rightarrow> u32 \<Rightarrow> u32) \<Rightarrow> u64 list \<Rightarrow> ('pt, 'dev) kernel \<Rightarrow> ('pt, 'dev) kernel \<Rightarrow> bool" where
  "reported config rs s s' \<longleftrightarrow>
     s' = s\<lparr>serial := serial s @ concat (map trace_text rs), phys_mem := phys_mem s', devices := devices s'\<rparr> \<and>
     config (devices s') = config (devices s)"

lemma reported_trans:
  assumes "reported config rs s t" "reported config rs' t u"
  shows "reported config (rs @ rs') s u"
proof -
  have t: "t = s\<lparr>serial := serial s @ concat (map trace_text rs), phys_mem := phys_mem t, devices := devices t\<rparr>"
    and u: "u = t\<lparr>serial := serial t @ concat (map trace_text rs'), phys_mem := phys_mem u, devices := devices u\<rparr>"
    using assms by (simp_all add: reported_def)
  have "serial t = serial s @ concat (map trace_text rs)" by (subst t) simp
  then have "u = s\<lparr>serial := serial s @ concat (map trace_text (rs @ rs')), phys_mem := phys_mem u, devices := devices u\<rparr>"
    by (subst u, subst t) simp
  with assms show ?thesis by (simp add: reported_def)
qed

lemma reported_cmd_ok: "reported config rs s s' \<Longrightarrow> cmd_ok P s cmd \<Longrightarrow> cmd_ok P s' cmd"
proof -
  assume "reported config rs s s'"
  then have s': "s' = s\<lparr>serial := serial s @ concat (map trace_text rs), phys_mem := phys_mem s', devices := devices s'\<rparr>"
    by (simp add: reported_def)
  have "MAPPER s' = MAPPER s" by (subst s') simp
  moreover assume "cmd_ok P s cmd"
  ultimately show ?thesis by (simp add: cmd_ok_def address_space_def)
qed

lemma trace_event_reported:
  assumes "cmd_ok P s cmd" "unat data < 2 ^ 32"
  obtains s' where "trace_event P cmd data s = Inr s'" "reported config [data] s s'"
  by (rule trace_event_effect [OF assms]) (simp add: reported_def that)

lemma probe_reports:
  assumes law: "pci_law P config" and cmd: "cmd_ok P s cmd"
  shows "\<exists>s'. probe P cmd b sl s = Inr s' \<and> reported config (slot_report (config (devices s)) (b, sl)) s s'"
proof -
  let ?vd = "config (devices s) (pci_address b sl 0 0)" and ?cl = "config (devices s) (pci_address b sl 0 8)"
  obtain d1 where d1: "pci_read_32 (syscall_dispatcher P) b sl 0 0 s = Inr (?vd, s\<lparr>devices := d1\<rparr>)" "config d1 = config (devices s)"
    using pci_read_32_config [OF law] by blast
  obtain d2 where d2: "pci_read_32 (syscall_dispatcher P) b sl 0 8 (s\<lparr>devices := d1\<rparr>) = Inr (?cl, s\<lparr>devices := d2\<rparr>)"
      "config d2 = config (devices s)"
    using pci_read_32_config [OF law, of b sl 0 8 "s\<lparr>devices := d1\<rparr>"] d1(2) by auto
  have r1: "reported config [] s (s\<lparr>devices := d1\<rparr>)" and r2: "reported config [] s (s\<lparr>devices := d2\<rparr>)"
    using d1(2) d2(2) by (simp_all add: reported_def)
  consider "?vd AND 0xFFFF = 0xFFFF" | "?vd AND 0xFFFF \<noteq> 0xFFFF" "drop_bit 24 ?cl AND 0xFF \<noteq> 3"
    | "?vd AND 0xFFFF \<noteq> 0xFFFF" "drop_bit 24 ?cl AND 0xFF = 3" by blast
  then show ?thesis
  proof cases
    case 1
    then show ?thesis using d1(1) r1 by (simp add: probe_def slot_report_def)
  next
    case 2
    then show ?thesis using d1(1) d2(1) r2 by (simp add: probe_def slot_report_def)
  next
    case 3
    obtain s3 where s3: "trace_event P cmd 0x7001 (s\<lparr>devices := d2\<rparr>) = Inr s3" "reported config [0x7001] (s\<lparr>devices := d2\<rparr>) s3"
      using trace_event_reported [OF reported_cmd_ok [OF r2 cmd], of "0x7001"] by auto
    note r3 = reported_trans [OF r2 s3(2)]
    obtain s4 where s4: "trace_event P cmd (gpu_payload ?vd) s3 = Inr s4" "reported config [gpu_payload ?vd] s3 s4"
      using trace_event_reported [OF reported_cmd_ok [OF r3 cmd] gpu_payload_small] by blast
    from reported_trans [OF r3 s4(2)] show ?thesis
      using 3 d1(1) d2(1) s3(1) s4(1) by (simp add: probe_def slot_report_def gpu_payload_def Let_def)
  qed
qed

lemma scan_loop_reports:
  assumes law: "pci_law P config"
  shows "cmd_ok P s cmd \<Longrightarrow> \<exists>s'. scan_loop P cmd slots s = Inr s' \<and>
    reported config (concat (map (slot_report (config (devices s))) slots)) s s'"
proof (induction slots arbitrary: s)
  case (Cons x slots)
  obtain b sl where x: "x = (b, sl)" by (cases x)
  obtain t where t: "probe P cmd b sl s = Inr t" "reported config (slot_report (config (devices s)) x) s t"
    using probe_reports [OF law Cons.prems] x by blast
  have "config (devices t) = config (devices s)" using t(2) by (simp add: reported_def)
  with Cons.IH [OF reported_cmd_ok [OF t(2) Cons.prems]] t reported_trans [OF t(2)] show ?case by (auto simp: x)
qed (simp add: reported_def)

section \<open>Properties\<close>


text \<open>A bus with one display controller, and its device state: the address selected last.\<close>

definition pci_example_hw :: "(flat_table, u32) hw_platform" where
  "pci_example_hw =
     \<lparr>memmap_response = Some example_memmap, hhdm_response = Some 0xFFFF800000000000,
      cr3_start_address = 0x1000, offset_page_table = (\<lambda>l4 offset. Map.empty),
      virt_addr = Some, virt_addr_add = (\<lambda>a b. Some (a + b)),
      phys_frame = (\<lambda>a. Some (page_floor a)), virt_page = (\<lambda>a. Some (page_floor a)),
      map_to = flat_map_to, page_view = (\<lambda>pt. pt), framebuffer_response = None,
      port_in = (\<lambda>dev port n. (if port = 0xCFC then if dev = 0x80001000 then 0x11111234 else if dev = 0x80001008 then 0x03000000 else - 1 else 0, dev)),
      port_out = (\<lambda>dev port n v. if port = 0xCF8 then v else dev)\<rparr>"

definition pci_example_kernel :: "(flat_table, u32) kernel" where
  "pci_example_kernel =
     \<lparr>ALLOCATOR = frame_allocator_new, MAPPER = Some [0x400000 \<mapsto> (0x101000, {PRESENT, WRITABLE, USER_ACCESSIBLE})],
      HHDM_OFFSET = 0xFFFF800000000000, CDT = genesis_cdt, serial = [], phys_mem = (\<lambda>_. 0), SCHEDULER = scheduler_new,
      GLOBAL_IPC_MAILBOX = 0, IRQ_MAILBOXES = replicate 256 0, SHOOTDOWN_ADDR = 0, SHOOTDOWN_ACK = 0,
      SUPERVISOR_MAILBOX = 0, devices = 0\<rparr>"


end
