(* ===== verification/Tar.thy ===== *)
theory Tar
  imports Stardust_Prelude
begin

text \<open>
  The archive parser of the runtime library, \<^verbatim>\<open>userland/libs/libstardust/src/tar.rs\<close>.

  An archive is its list of bytes.  The offsets of the source are \<open>usize\<close>; here they are natural
  numbers, and \<open>offsets_fit\<close> shows that for a slice (at most \<open>2^63 - 1\<close> bytes) none of the
  sums of the source reaches \<open>2^64\<close>, so that the two agree.  Slicing out of range is a panic.
  Strings are their UTF-8 bytes.
\<close>

section \<open>Model: slices and UTF-8\<close>

definition slice :: "nat \<Rightarrow> nat \<Rightarrow> 'a list \<Rightarrow> 'a list res" where
  "slice a b xs = (if a \<le> b \<and> b \<le> length xs then Inr (take (b - a) (drop a xs)) else Inl Index_Out_Of_Bounds)"

definition cont :: "u8 \<Rightarrow> bool" where
  "cont b \<longleftrightarrow> 0x80 \<le> b \<and> b \<le> 0xBF"

text \<open>\<open>core::str::from_utf8\<close>: the scalar values of a well-formed byte sequence.\<close>

fun from_utf8 :: "u8 list \<Rightarrow> nat list option" where
  "from_utf8 [] = Some []"
| "from_utf8 (a # rest) =
     (if a < 0x80 then map_option (Cons (unat a)) (from_utf8 rest)
      else case rest of
        [] \<Rightarrow> None
      | b # rest \<Rightarrow>
          if 0xC2 \<le> a \<and> a \<le> 0xDF \<and> cont b then
            map_option (Cons ((unat a - 0xC0) * 64 + (unat b - 0x80))) (from_utf8 rest)
          else case rest of
            [] \<Rightarrow> None
          | c # rest \<Rightarrow>
              if cont c \<and>
                 (a = 0xE0 \<and> 0xA0 \<le> b \<and> b \<le> 0xBF \<or> 0xE1 \<le> a \<and> a \<le> 0xEC \<and> cont b \<or>
                  a = 0xED \<and> 0x80 \<le> b \<and> b \<le> 0x9F \<or> 0xEE \<le> a \<and> a \<le> 0xEF \<and> cont b) then
                map_option (Cons ((unat a - 0xE0) * 4096 + (unat b - 0x80) * 64 + (unat c - 0x80))) (from_utf8 rest)
              else case rest of
                [] \<Rightarrow> None
              | d # rest \<Rightarrow>
                  if cont c \<and> cont d \<and>
                     (a = 0xF0 \<and> 0x90 \<le> b \<and> b \<le> 0xBF \<or> 0xF1 \<le> a \<and> a \<le> 0xF3 \<and> cont b \<or>
                      a = 0xF4 \<and> 0x80 \<le> b \<and> b \<le> 0x8F) then
                    map_option (Cons ((unat a - 0xF0) * 262144 + (unat b - 0x80) * 4096 +
                      (unat c - 0x80) * 64 + (unat d - 0x80))) (from_utf8 rest)
                  else None)"

definition bytes :: "string \<Rightarrow> u8 list" where
  "bytes = map (\<lambda>c. of_nat (of_char c))"

section \<open>Model: the parser\<close>

record tar_object =
  obj_id :: u64
  obj_name :: "u8 list"
  obj_data :: "u8 list"

definition generate_object_id :: "u8 list \<Rightarrow> u64" where
  "generate_object_id name = foldl (\<lambda>hash b. (hash XOR ucast b) * 0x100000001b3) 0xcbf29ce484222325 name"

function name_len_loop :: "u8 list \<Rightarrow> nat \<Rightarrow> nat res" where
  "name_len_loop name_bytes name_len =
     (if name_len < 100 then
        if name_len < length name_bytes then
          if name_bytes ! name_len \<noteq> 0 then name_len_loop name_bytes (name_len + 1) else Inr name_len
        else Inl Index_Out_Of_Bounds
      else Inr name_len)"
  by pat_completeness auto
termination by (relation "measure (\<lambda>(_, n). 100 - n)") auto

declare name_len_loop.simps [simp del]

definition parse_size :: "u8 list \<Rightarrow> nat" where
  "parse_size size_bytes =
     foldl (\<lambda>size b. if b \<ge> 48 \<and> b \<le> 55 then size * 8 + unat (b - 48) else size) 0 size_bytes"

definition unknown_name :: "u8 list" where
  "unknown_name = bytes ''UNKNOWN''"

text \<open>One iteration: the member whose header is at \<open>offset\<close> and the offset of the next header;
  \<open>None\<close> at the end of the archive.\<close>

definition parse_member :: "u8 list \<Rightarrow> nat \<Rightarrow> (tar_object option \<times> nat) option res" where
  "parse_member archive offset =
     bindE (slice offset (offset + 100) archive) (\<lambda>name_bytes.
     if name_bytes ! 0 = 0 then Inr None
     else
       bindE (name_len_loop name_bytes 0) (\<lambda>name_len.
       bindE (slice 0 name_len name_bytes) (\<lambda>name.
       let name_str = (if from_utf8 name = None then unknown_name else name) in
       bindE (slice (offset + 124) (offset + 135) archive) (\<lambda>size_bytes.
       let size = parse_size size_bytes;
           data_start = offset + 512;
           data_end = data_start + size;
           next_offset = data_start + (size + 511) div 512 * 512
       in if data_end \<le> length archive then
            bindE (slice data_start data_end archive) (\<lambda>data.
            Inr (Some (Some \<lparr>obj_id = generate_object_id name_str, obj_name = name_str, obj_data = data\<rparr>, next_offset)))
          else Inr (Some (None, next_offset))))))"

lemma parse_member_next:
  assumes "parse_member archive offset = Inr (Some (ob, next_offset))"
  shows "offset + 512 \<le> next_offset"
  using assms by (auto simp: parse_member_def res_simps Let_def split: if_splits)

function parse_loop :: "u8 list \<Rightarrow> nat \<Rightarrow> tar_object list \<Rightarrow> tar_object list res" where
  "parse_loop archive offset objects =
     (if offset + 512 \<le> length archive then
        bindE (parse_member archive offset) (\<lambda>r.
        case r of
          None \<Rightarrow> Inr objects
        | Some (ob, next_offset) \<Rightarrow>
            parse_loop archive next_offset (case ob of None \<Rightarrow> objects | Some x \<Rightarrow> objects @ [x]))
      else Inr objects)"
  by pat_completeness auto
termination
proof (relation "measure (\<lambda>(archive, offset, _). Suc (length archive) - offset)", goal_cases)
  case (2 archive offset objects r p ob next_offset)
  then have "offset + 512 \<le> next_offset" using parse_member_next by metis
  with 2(1) show ?case by simp
qed simp

declare parse_loop.simps [simp del]

definition parse :: "u8 list \<Rightarrow> tar_object list res" where
  "parse archive = parse_loop archive 0 []"

section \<open>Lemmas\<close>

lemma slice_ok: "a \<le> b \<Longrightarrow> b \<le> length xs \<Longrightarrow> slice a b xs = Inr (take (b - a) (drop a xs))"
  by (simp add: slice_def)

text \<open>The first loop finds the terminating zero, or the end of the field.\<close>

lemma name_len_loop_takeWhile:
  assumes "length nb = 100" "n \<le> 100"
  shows "name_len_loop nb n = Inr (n + length (takeWhile (\<lambda>b. b \<noteq> 0) (drop n nb)))"
  using assms(2)
proof (induction "100 - n" arbitrary: n)
  case 0
  then have "n = 100" by simp
  then show ?case using assms(1) by (subst name_len_loop.simps) simp
next
  case (Suc d)
  then have n: "n < 100" by simp
  then have "drop n nb = nb ! n # drop (Suc n) nb" using assms(1) by (simp add: Cons_nth_drop_Suc)
  moreover have "name_len_loop nb (Suc n) = Inr (Suc n + length (takeWhile (\<lambda>b. b \<noteq> 0) (drop (Suc n) nb)))"
    if "nb ! n \<noteq> 0" using Suc.hyps n by simp
  ultimately show ?case using n assms(1) by (subst name_len_loop.simps) simp
qed

lemma parse_size_append:
  "parse_size (xs @ [b]) = (if b \<ge> 48 \<and> b \<le> 55 then parse_size xs * 8 + unat (b - 48) else parse_size xs)"
  by (simp add: parse_size_def)

lemma parse_size_bound: "parse_size xs < 8 ^ length xs"
proof (induction xs rule: rev_induct)
  case (snoc b xs)
  have "unat (b - 48) < 8" if "48 \<le> b" "b \<le> 55"
    using that by (simp add: word_le_nat_alt unat_sub)
  then show ?case using snoc by (auto simp: parse_size_append)
qed (simp add: parse_size_def)

text \<open>One member: always defined, inside of the archive.\<close>

definition object_ok :: "u8 list \<Rightarrow> tar_object \<Rightarrow> bool" where
  "object_ok archive ob \<longleftrightarrow>
     obj_id ob = generate_object_id (obj_name ob) \<and>
     from_utf8 (obj_name ob) \<noteq> None \<and> obj_name ob \<noteq> [] \<and> length (obj_name ob) \<le> 100 \<and>
     (\<exists>start. start + length (obj_data ob) \<le> length archive \<and>
        obj_data ob = take (length (obj_data ob)) (drop start archive))"

lemma unknown_name_ok: "from_utf8 unknown_name \<noteq> None" "unknown_name \<noteq> []" "length unknown_name \<le> 100"
  by (simp_all add: unknown_name_def bytes_def)

lemma parse_member_ok:
  assumes "offset + 512 \<le> length archive"
  shows "(\<exists>r. parse_member archive offset = Inr r) \<and>
    (\<forall>ob nx. parse_member archive offset = Inr (Some (Some ob, nx)) \<longrightarrow> object_ok archive ob) \<and>
    (\<forall>ob nx. parse_member archive offset = Inr (Some (ob, nx)) \<longrightarrow> nx < offset + 512 + 8 ^ 11 + 512)"
proof -
  define nb where "nb = take 100 (drop offset archive)"
  have nb: "length nb = 100" using assms by (simp add: nb_def)
  define name where "name = takeWhile (\<lambda>b. b \<noteq> 0) nb"
  have len: "length name \<le> 100" using nb length_takeWhile_le [of _ nb] by (simp add: name_def)
  have loop: "name_len_loop nb 0 = Inr (length name)"
    using name_len_loop_takeWhile [OF nb, of 0] by (simp add: name_def)
  have pre: "take (length name) nb = name" by (simp add: name_def takeWhile_eq_take [symmetric])
  have ne: "nb ! 0 \<noteq> 0 \<Longrightarrow> name \<noteq> []" using nb by (cases nb) (auto simp: name_def)
  define sz where "sz = parse_size (take 11 (drop (offset + 124) archive))"
  have sz: "sz < 8 ^ 11"
    using parse_size_bound [of "take 11 (drop (offset + 124) archive)"] assms by (simp add: sz_def)
  have slices: "slice offset (offset + 100) archive = Inr nb" "slice 0 (length name) nb = Inr name"
    "slice (offset + 124) (offset + 135) archive = Inr (take 11 (drop (offset + 124) archive))"
    using assms nb len pre by (simp_all add: slice_ok nb_def)
  let ?nm = "if from_utf8 name = None then unknown_name else name"
  let ?nx = "offset + 512 + (sz + 511) div 512 * 512"
  have run: "parse_member archive offset =
      (if nb ! 0 = 0 then Inr None
       else if offset + 512 + sz \<le> length archive then
         Inr (Some (Some \<lparr>obj_id = generate_object_id ?nm, obj_name = ?nm,
           obj_data = take sz (drop (offset + 512) archive)\<rparr>, ?nx))
       else Inr (Some (None, ?nx)))"
    by (simp add: parse_member_def slices loop Let_def sz_def [symmetric] slice_ok)
  have nx: "?nx < offset + 512 + 8 ^ 11 + 512"
  proof -
    have "(sz + 511) div 512 * 512 \<le> sz + 511" by simp
    with sz show ?thesis by linarith
  qed
  have nm: "from_utf8 ?nm \<noteq> None" "nb ! 0 \<noteq> 0 \<Longrightarrow> ?nm \<noteq> []" "length ?nm \<le> 100"
    using unknown_name_ok ne len by auto
  have "object_ok archive \<lparr>obj_id = generate_object_id ?nm, obj_name = ?nm,
      obj_data = take sz (drop (offset + 512) archive)\<rparr>"
    if "nb ! 0 \<noteq> 0" "offset + 512 + sz \<le> length archive"
    unfolding object_ok_def using nm that
    by (intro conjI) (auto intro!: exI [of _ "offset + 512"])
  then show ?thesis unfolding run using nx by auto
qed

lemma parse_loop_ok:
  assumes "list_all (object_ok archive) objects" "512 * length objects \<le> offset" "512 * length objects \<le> length archive"
  shows "\<exists>r. parse_loop archive offset objects = Inr r \<and> list_all (object_ok archive) r \<and>
    512 * length r \<le> length archive"
  using assms
proof (induction archive offset objects rule: parse_loop.induct)
  case (1 archive offset objects)
  show ?case
  proof (cases "offset + 512 \<le> length archive")
    case False
    then show ?thesis using "1.prems" by (subst parse_loop.simps) simp
  next
    case True
    note m = parse_member_ok [OF True]
    then obtain r where r: "parse_member archive offset = Inr r" by blast
    show ?thesis
    proof (cases r)
      case None
      then show ?thesis using True r "1.prems" by (subst parse_loop.simps) simp
    next
      case (Some p)
      obtain ob nx where p: "p = (ob, nx)" by (cases p)
      let ?objs = "case ob of None \<Rightarrow> objects | Some x \<Rightarrow> objects @ [x]"
      have nx: "offset + 512 \<le> nx" using parse_member_next r Some p by metis
      have objs: "list_all (object_ok archive) ?objs" "512 * length ?objs \<le> nx" "512 * length ?objs \<le> length archive"
        using m r Some p "1.prems" nx True by (auto split: option.splits)
      have "parse_loop archive offset objects = parse_loop archive nx ?objs"
        using True r Some p by (subst parse_loop.simps) simp
      then show ?thesis using "1.IH" [OF True r Some p [symmetric] objs] by simp
    qed
  qed
qed

section \<open>A reference encoder\<close>

text \<open>
  A USTAR member: its name, the fields between name and size (mode, owner), the fields behind the
  size (time, checksum, type, \<dots>) and its contents.  The size is written in eleven octal digits and
  the contents are padded to a block.
\<close>

record tar_file =
  f_name :: "u8 list"
  f_meta :: "u8 list"
  f_tail :: "u8 list"
  f_data :: "u8 list"

fun octal :: "nat \<Rightarrow> nat \<Rightarrow> u8 list" where
  "octal 0 n = []"
| "octal (Suc k) n = octal k (n div 8) @ [48 + of_nat (n mod 8)]"

definition padding :: "nat \<Rightarrow> nat" where
  "padding n = (n + 511) div 512 * 512 - n"

definition tar_header :: "tar_file \<Rightarrow> u8 list" where
  "tar_header f = f_name f @ replicate (100 - length (f_name f)) 0 @ f_meta f @
     octal 11 (length (f_data f)) @ f_tail f"

definition tar_entry :: "tar_file \<Rightarrow> u8 list" where
  "tar_entry f = tar_header f @ f_data f @ replicate (padding (length (f_data f))) 0"

definition tar_archive :: "tar_file list \<Rightarrow> u8 list" where
  "tar_archive files = concat (map tar_entry files) @ replicate 1024 0"

definition file_ok :: "tar_file \<Rightarrow> bool" where
  "file_ok f \<longleftrightarrow> f_name f \<noteq> [] \<and> length (f_name f) \<le> 100 \<and> 0 \<notin> set (f_name f) \<and>
     from_utf8 (f_name f) \<noteq> None \<and> length (f_meta f) = 24 \<and> length (f_tail f) = 377 \<and>
     length (f_data f) < 8 ^ 11"

definition object_of :: "tar_file \<Rightarrow> tar_object" where
  "object_of f = \<lparr>obj_id = generate_object_id (f_name f), obj_name = f_name f, obj_data = f_data f\<rparr>"

lemma length_octal [simp]: "length (octal k n) = k"
  by (induction k arbitrary: n) simp_all

lemma parse_octal: "n < 8 ^ k \<Longrightarrow> parse_size (octal k n) = n"
proof (induction k arbitrary: n)
  case (Suc k)
  let ?d = "48 + of_nat (n mod 8) :: u8"
  have u: "unat (of_nat (n mod 8) :: u8) = n mod 8" by (intro unat_of_nat_small) (simp add: less_trans [of _ 8])
  then have "unat ?d = 48 + n mod 8" using unat_add_no_overflow [of 48 "of_nat (n mod 8) :: u8"] by simp
  then have d: "48 \<le> ?d" "?d \<le> 55" "unat (?d - 48) = n mod 8"
    using u by (simp_all add: word_le_nat_alt)
  have "n div 8 < 8 ^ k" using Suc.prems by (simp add: less_mult_imp_div_less)
  then show ?case using Suc.IH [of "n div 8"] d by (simp add: parse_size_append)
qed (simp add: parse_size_def)

lemma length_tar_header: "file_ok f \<Longrightarrow> length (tar_header f) = 512"
  by (simp add: file_ok_def tar_header_def)

lemma padding_block: "n + padding n = (n + 511) div 512 * 512"
proof -
  have "(n + 511) mod 512 < 512" by simp
  then have "n \<le> (n + 511) div 512 * 512" using div_mult_mod_eq [of "n + 511" 512] by linarith
  then show ?thesis by (simp add: padding_def)
qed


text \<open>Parsing the member that starts at the end of \<open>pre\<close>.\<close>

lemma takeWhile_zero_padded: "0 \<notin> set xs \<Longrightarrow> takeWhile (\<lambda>b. b \<noteq> 0) (xs @ replicate n (0::u8)) = xs"
  by (induction xs) auto

lemma parse_member_entry:
  assumes ok: "file_ok f" and archive: "archive = pre @ tar_entry f @ post"
  shows "parse_member archive (length pre) = Inr (Some (Some (object_of f), length pre + length (tar_entry f)))"
proof -
  let ?name = "f_name f" and ?n = "length (f_data f)"
  let ?nb = "?name @ replicate (100 - length ?name) 0"
  have len: "length ?name \<le> 100" "length (f_meta f) = 24" "length (f_tail f) = 377" "?name \<noteq> []"
    using ok by (simp_all add: file_ok_def)
  have nb: "length ?nb = 100" using len(1) by simp
  have a: "archive = pre @ ?nb @ f_meta f @ octal 11 ?n @ f_tail f @ f_data f @ replicate (padding ?n) 0 @ post"
    by (simp add: archive tar_entry_def tar_header_def)
  have s1: "slice (length pre) (length pre + 100) archive = Inr ?nb"
    unfolding slice_def a using nb by (simp del: append_assoc add: append_assoc [symmetric] len(1))
  have s2: "slice (length pre + 124) (length pre + 135) archive = Inr (octal 11 ?n)"
    unfolding slice_def a using len by simp
  have s3: "slice (length pre + 512) (length pre + 512 + ?n) archive = Inr (f_data f)"
    unfolding slice_def a using len by simp
  have loop: "name_len_loop ?nb 0 = Inr (length ?name)"
    using name_len_loop_takeWhile [OF nb, of 0] ok by (simp add: takeWhile_zero_padded file_ok_def)
  have s4: "slice 0 (length ?name) ?nb = Inr ?name" by (simp add: slice_def)
  have first: "?nb ! 0 \<noteq> 0" using ok len(4) by (cases ?name) (auto simp: file_ok_def)
  have size: "parse_size (octal 11 ?n) = ?n" using ok by (intro parse_octal) (simp add: file_ok_def)
  have "length (tar_entry f) = 512 + (?n + 511) div 512 * 512"
    using length_tar_header [OF ok] padding_block [of ?n] by (simp add: tar_entry_def)
  moreover have "length pre + 512 + ?n \<le> length archive"
    using length_tar_header [OF ok] by (simp add: archive tar_entry_def)
  moreover obtain chars where "from_utf8 ?name = Some chars" using ok by (auto simp: file_ok_def)
  ultimately show ?thesis
    using first by (simp add: parse_member_def s1 s2 s3 s4 loop size Let_def object_of_def)
qed

lemma parse_loop_entries:
  assumes "list_all file_ok files"
  shows "parse_loop (pre @ concat (map tar_entry files) @ replicate 1024 0) (length pre) objects =
    Inr (objects @ map object_of files)"
  using assms
proof (induction files arbitrary: pre objects)
  case Nil
  have "parse_member (pre @ replicate 1024 0) (length pre) = Inr None"
    by (simp add: parse_member_def slice_def)
  then show ?case by (subst parse_loop.simps) simp
next
  case (Cons f files)
  let ?a = "pre @ concat (map tar_entry (f # files)) @ replicate 1024 0"
  have ok: "file_ok f" "list_all file_ok files" using Cons.prems by simp_all
  have m: "parse_member ?a (length pre) = Inr (Some (Some (object_of f), length (pre @ tar_entry f)))"
    using parse_member_entry [OF ok(1), of ?a pre "concat (map tar_entry files) @ replicate 1024 0"] by simp
  have "parse_loop ?a (length pre) objects = parse_loop ?a (length (pre @ tar_entry f)) (objects @ [object_of f])"
    using m by (subst parse_loop.simps) simp
  also have "\<dots> = Inr ((objects @ [object_of f]) @ map object_of files)"
    using Cons.IH [OF ok(2), of "pre @ tar_entry f" "objects @ [object_of f]"] by simp
  finally show ?case by simp
qed

section \<open>Properties\<close>

text \<open>
  C39. The parser is total and stays inside the archive: on every sequence of bytes it returns, no
  slice is out of range, there is at most one object per 512-byte block, and every object has a
  non-empty UTF-8 name of at most 100 bytes, the hash of that name as its id and a contiguous piece of
  the archive as its data.
\<close>

theorem parse_total:
  "\<exists>objects. parse archive = Inr objects \<and> list_all (object_ok archive) objects \<and>
     512 * length objects \<le> length archive"
  unfolding parse_def by (rule parse_loop_ok) simp_all

text \<open>
  C25. The parser inverts the archive format: for all files with proper names and sizes, and whatever
  the other header fields are, parsing the USTAR archive of the files yields exactly their names and
  contents in order.
\<close>

theorem parse_tar_archive:
  assumes "list_all file_ok files"
  shows "parse (tar_archive files) = Inr (map object_of files)"
  using parse_loop_entries [OF assms, of "[]" "[]"] by (simp add: parse_def tar_archive_def)

definition example_file :: tar_file where
  "example_file =
     \<lparr>f_name = bytes ''init.rc'', f_meta = replicate 24 0, f_tail = replicate 377 0, f_data = bytes ''driver:ps2''\<rparr>"

theorem parse_tar_archive_witness:
  "parse (tar_archive [example_file, example_file]) = Inr [object_of example_file, object_of example_file]"
proof -
  have "file_ok example_file" by (simp add: file_ok_def example_file_def bytes_def)
  then show ?thesis using parse_tar_archive [of "[example_file, example_file]"] by simp
qed

text \<open>The sums of the source fit into \<open>usize\<close>.\<close>

lemma offsets_fit:
  assumes "length archive < 2 ^ 63" "offset + 512 \<le> length archive"
    "parse_member archive offset = Inr (Some (ob, next_offset))"
  shows "next_offset + 512 < 2 ^ 64"
proof -
  have "next_offset < offset + 512 + 8 ^ 11 + 512" using parse_member_ok [OF assms(2)] assms(3) by blast
  with assms(1,2) show ?thesis by simp
qed

end
