(* ===== verification/Marshal.thy ===== *)
theory Marshal
  imports "HOL-Library.Sublist" User_Elf Gpu_Driver Tar Test_App
begin

text \<open>
  The god process, \<^verbatim>\<open>userland/marshal/src/main.rs\<close>: its heap, the protocol of \<^verbatim>\<open>init.rc\<close> by which it starts
  the drivers and selects the application, the layout of the address space that it sets up, and the stage
  that runs the application.  The two functions that the host gives to applications are \<open>draw_rect\<close> in theory \<open>Display\<close> and \<open>get_ipc_message\<close> in theory \<open>Test_App\<close>.

  Code outside of the repository is a parameter: the heap of \<^verbatim>\<open>linked_list_allocator\<close> (\<open>inner_alloc\<close>,
  \<open>inner_dealloc\<close>, \<open>inner_init\<close>) and the interpreter of the \<^verbatim>\<open>wasmi\<close> crate (\<open>run_func\<close>).  \<open>as_ptr\<close> gives the
  address of the data of an archive member (members with equal names and contents are identified), and
  the linker symbols are arguments.

  The lemmas show that the allocator serves every layout, that the protocol starts exactly the drivers
  and selects the application that \<^verbatim>\<open>init.rc\<close> names (against \<open>requests\<close>, what the file asks for), that a
  configuration is read as it is written, which stacks of the address space layout are disjoint, and,
  with the kernel's framebuffer call, that drawing stays inside of the framebuffer and the application runs
  on the screen that the kernel has mapped.
\<close>

section \<open>Model: the allocator\<close>

record layout =
  layout_size :: u64
  layout_align :: u64

text \<open>\<open>Layout::from_size_align\<close>.\<close>

definition is_power_of_two :: "u64 \<Rightarrow> bool" where
  "is_power_of_two a = list_ex (\<lambda>k. a = 2 ^ k) [0..<64]"

definition from_size_align :: "u64 \<Rightarrow> u64 \<Rightarrow> layout option" where
  "from_size_align sz al =
     (if is_power_of_two al \<and> unat sz + (unat al - 1) < 2 ^ 63 then Some \<lparr>layout_size = sz, layout_align = al\<rparr> else None)"

definition aligned_layout :: "layout \<Rightarrow> layout option" where
  "aligned_layout lay =
     (let al = max (layout_align lay) 16;
          sz = (layout_size lay + al - 1) AND NOT (al - 1)
      in from_size_align sz al)"

definition aligned_alloc :: "(layout \<Rightarrow> 'h \<Rightarrow> u64 \<times> 'h) \<Rightarrow> layout \<Rightarrow> 'h \<Rightarrow> u64 \<times> 'h" where
  "aligned_alloc inner_alloc lay h = (case aligned_layout lay of Some l \<Rightarrow> inner_alloc l h | None \<Rightarrow> (0, h))"

definition aligned_dealloc :: "(u64 \<Rightarrow> layout \<Rightarrow> 'h \<Rightarrow> 'h) \<Rightarrow> u64 \<Rightarrow> layout \<Rightarrow> 'h \<Rightarrow> 'h" where
  "aligned_dealloc inner_dealloc ptr lay h = (case aligned_layout lay of Some l \<Rightarrow> inner_dealloc ptr l h | None \<Rightarrow> h)"

section \<open>Model: strings\<close>

text \<open>Strings are lists of scalar values, as \<open>from_utf8\<close> returns them.\<close>

definition scalars :: "string \<Rightarrow> nat list" where
  "scalars = map of_char"

text \<open>\<open>str::lines\<close>: a carriage return is removed only before a line feed.\<close>

definition strip_cr :: "nat list \<Rightarrow> nat list" where
  "strip_cr l = (if l \<noteq> [] \<and> last l = 13 then butlast l else l)"

function str_lines :: "nat list \<Rightarrow> nat list list" where
  "str_lines cs =
     (if cs = [] then []
      else case dropWhile (\<lambda>c. c \<noteq> 10) cs of
          [] \<Rightarrow> [cs]
        | _ # rest \<Rightarrow> strip_cr (takeWhile (\<lambda>c. c \<noteq> 10) cs) # str_lines rest)"
  by pat_completeness auto
termination
proof (relation "measure length", goal_cases)
  case (2 cs x rest)
  have "length (dropWhile (\<lambda>c. c \<noteq> 10) cs) \<le> length cs" by (rule length_dropWhile_le)
  with 2 show ?case by simp
qed simp

declare str_lines.simps [simp del]

text \<open>\<open>char::is_whitespace\<close> and \<open>str::trim\<close>.\<close>

definition whitespace :: "nat list" where
  "whitespace = [9, 10, 11, 12, 13, 32, 0x85, 0xA0, 0x1680, 0x2000, 0x2001, 0x2002, 0x2003, 0x2004, 0x2005, 0x2006, 0x2007,
     0x2008, 0x2009, 0x200A, 0x2028, 0x2029, 0x202F, 0x205F, 0x3000]"

definition str_trim :: "nat list \<Rightarrow> nat list" where
  "str_trim l = rev (dropWhile (\<lambda>c. c \<in> set whitespace) (rev (dropWhile (\<lambda>c. c \<in> set whitespace) l)))"

definition starts_with :: "nat list \<Rightarrow> nat list \<Rightarrow> bool" where
  "starts_with pre l = (take (length pre) l = pre)"

section \<open>Model: the start of the Marshal\<close>

record ('pt, 'dev, 'h) marshal =
  current_stack_base :: u64
  WASM_DATA_PTR :: u64
  WASM_DATA_LEN :: u64
  marshal_screen :: screen
  heap :: 'h
  sys :: "('pt, 'dev) kernel"

definition HEAP_START :: u64 where "HEAP_START = 0x0000400000000000"
definition HEAP_SIZE :: u64 where "HEAP_SIZE = 16 * 1024 * 1024"

text \<open>A system call or memory access of the process.\<close>

definition on_sys :: "(('pt, 'dev) kernel \<Rightarrow> ('pt, 'dev) kernel res) \<Rightarrow> ('pt, 'dev, 'h) marshal \<Rightarrow> ('pt, 'dev, 'h) marshal res" where
  "on_sys f m = bindE (f (sys m)) (\<lambda>s. Inr (m\<lparr>sys := s\<rparr>))"

text \<open>The intrinsic \<open>memset\<close> (theory \<open>Intrinsics\<close>) on the mapped memory.\<close>

definition user_memset :: "('pt, 'dev) hw_platform \<Rightarrow> u64 \<Rightarrow> u8 \<Rightarrow> u64 \<Rightarrow> ('pt, 'dev) kernel \<Rightarrow> ('pt, 'dev) kernel res" where
  "user_memset P a c n s = write_bytes P a (replicate (unat n) c) s"

definition init_heap :: "('pt, 'dev) hw_platform \<Rightarrow> (u64 \<Rightarrow> u64 \<Rightarrow> 'h \<Rightarrow> 'h) \<Rightarrow> ('pt, 'dev, 'h) marshal \<Rightarrow> ('pt, 'dev, 'h) marshal res" where
  "init_heap P inner_init m =
     bindE (on_sys (grant_pages P HEAP_START (HEAP_SIZE div 4096)) m) (\<lambda>m.
     bindE (on_sys (user_memset P HEAP_START 0 HEAP_SIZE) m) (\<lambda>m.
     Inr (m\<lparr>heap := inner_init HEAP_START HEAP_SIZE (heap m)\<rparr>)))"

definition trace_checkpoint :: "('pt, 'dev) hw_platform \<Rightarrow> u64 \<Rightarrow> u64 \<Rightarrow> ('pt, 'dev) kernel \<Rightarrow> ('pt, 'dev) kernel res" where
  "trace_checkpoint P cmd ident s =
     bindE (write_bytes P cmd (u64_bytes (0x0000DB6000000000 OR ident)) s) (\<lambda>s.
     bindE (sys_batch_execute (syscall_dispatcher P) cmd 1 s) (\<lambda>(_, s). Inr s))"

text \<open>Starting one driver: load it, give it a stack, spawn it, advance the stack base.\<close>

definition start_driver :: "('pt, 'dev) hw_platform \<Rightarrow> (tar_object \<Rightarrow> u64) \<Rightarrow> tar_object \<Rightarrow> ('pt, 'dev, 'h) marshal \<Rightarrow>
    ('pt, 'dev, 'h) marshal res" where
  "start_driver P as_ptr drv m =
     bindE (user_load P (as_ptr drv) (of_nat (length (obj_data drv))) (sys m)) (\<lambda>(entry, s).
     let m = m\<lparr>sys := s\<rparr> in
     case entry of
       None \<Rightarrow> Inr m
     | Some entry_point \<Rightarrow>
         let stack_base = current_stack_base m in
         bindE (on_sys (grant_pages P stack_base 16) m) (\<lambda>m.
         bindE (sys_spawn_process (syscall_dispatcher P) entry_point (stack_base + 16 * 4096) (sys m)) (\<lambda>(_, s).
         Inr (m\<lparr>sys := s, current_stack_base := current_stack_base m + 0x100000\<rparr>))))"

fun driver_loop :: "('pt, 'dev) hw_platform \<Rightarrow> (tar_object \<Rightarrow> u64) \<Rightarrow> nat list \<Rightarrow> tar_object list \<Rightarrow> ('pt, 'dev, 'h) marshal \<Rightarrow>
    ('pt, 'dev, 'h) marshal res" where
  "driver_loop P as_ptr driver_name [] m = Inr m"
| "driver_loop P as_ptr driver_name (drv # rest) m =
     bindE (if from_utf8 (obj_name drv) = Some driver_name then start_driver P as_ptr drv m else Inr m) (\<lambda>m.
     driver_loop P as_ptr driver_name rest m)"

fun app_loop :: "(tar_object \<Rightarrow> u64) \<Rightarrow> nat list \<Rightarrow> tar_object list \<Rightarrow> ('pt, 'dev, 'h) marshal \<Rightarrow> ('pt, 'dev, 'h) marshal" where
  "app_loop as_ptr app_name [] m = m"
| "app_loop as_ptr app_name (app # rest) m =
     app_loop as_ptr app_name rest
       (if from_utf8 (obj_name app) = Some app_name
        then m\<lparr>WASM_DATA_PTR := as_ptr app, WASM_DATA_LEN := of_nat (length (obj_data app))\<rparr> else m)"

definition handle_line :: "('pt, 'dev) hw_platform \<Rightarrow> (tar_object \<Rightarrow> u64) \<Rightarrow> tar_object list \<Rightarrow> nat list \<Rightarrow>
    ('pt, 'dev, 'h) marshal \<Rightarrow> ('pt, 'dev, 'h) marshal res" where
  "handle_line P as_ptr object_table line m =
     (let line = str_trim line in
      if starts_with (scalars ''driver:'') line then driver_loop P as_ptr (drop 7 line) object_table m
      else if starts_with (scalars ''app:'') line then Inr (app_loop as_ptr (drop 4 line) object_table m)
      else Inr m)"

fun line_loop :: "('pt, 'dev) hw_platform \<Rightarrow> (tar_object \<Rightarrow> u64) \<Rightarrow> tar_object list \<Rightarrow> nat list list \<Rightarrow>
    ('pt, 'dev, 'h) marshal \<Rightarrow> ('pt, 'dev, 'h) marshal res" where
  "line_loop P as_ptr object_table [] m = Inr m"
| "line_loop P as_ptr object_table (line # lines) m =
     bindE (handle_line P as_ptr object_table line m) (\<lambda>m. line_loop P as_ptr object_table lines m)"

fun init_loop :: "('pt, 'dev) hw_platform \<Rightarrow> (tar_object \<Rightarrow> u64) \<Rightarrow> tar_object list \<Rightarrow> tar_object list \<Rightarrow>
    ('pt, 'dev, 'h) marshal \<Rightarrow> ('pt, 'dev, 'h) marshal res" where
  "init_loop P as_ptr object_table [] m = Inr m"
| "init_loop P as_ptr object_table (object # rest) m =
     bindE (if from_utf8 (obj_name object) = Some (scalars ''init.rc'') then
              case from_utf8 (obj_data object) of
                Some config_str \<Rightarrow> line_loop P as_ptr object_table (str_lines config_str) m
              | None \<Rightarrow> Inr m
            else Inr m) (\<lambda>m.
     init_loop P as_ptr object_table rest m)"

text \<open>The stack of the application stage.\<close>

definition deep_stack_base :: u64 where "deep_stack_base = 0x0000600000F00000"
definition deep_stack_size :: u64 where "deep_stack_size = 16 * 1024 * 1024"

definition set_up_devices :: "('pt, 'dev) hw_platform \<Rightarrow> u64 \<Rightarrow> ('pt, 'dev, 'h) marshal \<Rightarrow> ('pt, 'dev, 'h) marshal res" where
  "set_up_devices P rdx m =
     bindE (sys_grant_shared_memory (syscall_dispatcher P) 0 0x40000000 (sys m)) (\<lambda>(_, s).
     bindE (sys_iommu_lockdown (syscall_dispatcher P) 0x10DE 0xA0000000 s) (\<lambda>(_, s).
     bindE (sys_map_framebuffer (syscall_dispatcher P) rdx 0xB0000000 s) (\<lambda>(fb_meta, s).
     Inr (m\<lparr>sys := s, marshal_screen := set_screen fb_meta (marshal_screen m)\<rparr>))))"

definition set_up_stack :: "('pt, 'dev) hw_platform \<Rightarrow> ('pt, 'dev, 'h) marshal \<Rightarrow> (u64 \<times> ('pt, 'dev, 'h) marshal) res" where
  "set_up_stack P m =
     bindE (on_sys (grant_pages P deep_stack_base (deep_stack_size div 4096)) m) (\<lambda>m.
     bindE (on_sys (user_memset P deep_stack_base 0 deep_stack_size) m) (\<lambda>m.
     Inr ((deep_stack_base + deep_stack_size) AND NOT 0xF, m)))"

text \<open>\<open>_start\<close> up to the jump to \<open>wasm_execution_stage\<close>; the result is the stack pointer it jumps with.\<close>

definition marshal_start :: "('pt, 'dev) hw_platform \<Rightarrow> (u64 \<Rightarrow> u64 \<Rightarrow> 'h \<Rightarrow> 'h) \<Rightarrow> (tar_object \<Rightarrow> u64) \<Rightarrow> u64 \<Rightarrow> u64 \<Rightarrow> u64 \<Rightarrow>
    u8 list \<Rightarrow> ('pt, 'dev, 'h) marshal \<Rightarrow> (u64 \<times> ('pt, 'dev, 'h) marshal) res" where
  "marshal_start P inner_init as_ptr rdx bss_start bss_end initramfs m =
     bindE (on_sys (user_memset P bss_start 0 (bss_end - bss_start)) m) (\<lambda>m.
     bindE (init_heap P inner_init m) (\<lambda>m.
     bindE (parse initramfs) (\<lambda>object_table.
     let m = m\<lparr>current_stack_base := 0x0000600000000000\<rparr> in
     bindE (init_loop P as_ptr object_table object_table m) (\<lambda>m.
     bindE (set_up_devices P rdx m) (\<lambda>m.
     set_up_stack P m)))))"

text \<open>
  \<open>wasm_execution_stage\<close>, up to the endless loop at its end.  The interpreter is a parameter: \<open>run_func\<close>
  maps the bytes of a module to the exported function \<open>run_ui_loop\<close>, if the module is valid, can be
  instantiated and started and has that export.  The result is that of the call, if it is made.
\<close>

definition wasm_execution_stage :: "('pt, 'dev) hw_platform \<Rightarrow> (u8 list \<Rightarrow> (i32 \<Rightarrow> i32 \<Rightarrow> ('pt, 'dev) kernel \<Rightarrow> 'r res) option) \<Rightarrow> u64 \<Rightarrow>
    ('pt, 'dev, 'h) marshal \<Rightarrow> 'r option res" where
  "wasm_execution_stage P run_func cmd m =
     bindE (read_bytes P (sys m) (WASM_DATA_PTR m) (unat (WASM_DATA_LEN m))) (\<lambda>wasm_data.
     case run_func wasm_data of
       None \<Rightarrow> Inr None
     | Some f \<Rightarrow>
         bindE (trace_checkpoint P cmd 0x8060 (sys m)) (\<lambda>s.
         bindE (f (ucast (FB_WIDTH (marshal_screen m))) (ucast (FB_HEIGHT (marshal_screen m))) s) (\<lambda>r. Inr (Some r))))"

section \<open>Layouts\<close>

lemma is_power_of_two_iff: "is_power_of_two a \<longleftrightarrow> (\<exists>k < 64. a = 2 ^ k)"
  by (auto simp: is_power_of_two_def list_ex_iff)

lemma unat_power_u64: "k < 64 \<Longrightarrow> unat (2 ^ k :: u64) = 2 ^ k"
  using unat_of_nat_small [of "2 ^ k", where 'w = 64] power_strict_increasing [of k 64 "2::nat"] by simp

lemma max_16_power:
  assumes "is_power_of_two a"
  obtains k where "k < 64" "4 \<le> k" "max a 16 = 2 ^ k" "unat (max a 16) = max (unat a) 16"
proof -
  from assms obtain j where j: "j < 64" "a = 2 ^ j" by (auto simp: is_power_of_two_iff)
  have u: "unat a = 2 ^ j" using j by (simp add: unat_power_u64)
  have m: "unat (max a 16) = max (unat a) 16" by (simp add: max_def word_le_nat_alt)
  show ?thesis
  proof (cases "4 \<le> j")
    case True
    then have "(2::nat) ^ 4 \<le> 2 ^ j" by (intro power_increasing) auto
    then have "16 \<le> a" by (simp add: word_le_nat_alt u)
    then have "max a 16 = a" by (rule max_absorb1)
    with that [of j] j True m show ?thesis by simp
  next
    case False
    then have "(2::nat) ^ j \<le> 2 ^ 4" by (intro power_increasing) auto
    then have "max a 16 = (16 :: u64)" by (auto simp: max_def word_le_nat_alt u)
    with that [of 4] m show ?thesis by simp
  qed
qed

lemma round_up_ge: "0 < a \<Longrightarrow> (x::nat) \<le> (x + (a - 1)) div a * a"
  using div_mult_mod_eq [of "x + (a - 1)" a] mod_less_divisor [of a "x + (a - 1)"] by linarith

lemma round_up_power:
  assumes "k < 64" "unat (x::u64) + 2 ^ k \<le> 2 ^ 64"
  shows "unat ((x + 2 ^ k - 1) AND NOT (2 ^ k - 1)) = (unat x + (2 ^ k - 1)) div 2 ^ k * 2 ^ k"
proof -
  have m: "(2 ^ k - 1 :: u64) = mask k" by (simp add: mask_eq_exp_minus_1)
  have u: "unat (mask k :: u64) = 2 ^ k - 1" 
  proof -
    have "unat (2 ^ k - 1 :: u64) = unat (2 ^ k :: u64) - unat (1 :: u64)"
      by (rule unat_sub) (simp add: word_le_nat_alt unat_power_u64 [OF assms(1)])
    then show ?thesis by (simp add: m unat_power_u64 [OF assms(1)])
  qed
  have e: "x + 2 ^ k - 1 = x + mask k" by (simp add: m [symmetric])
  have "(1 :: nat) \<le> 2 ^ k" by simp
  then have "unat x + unat (mask k :: u64) < 2 ^ LENGTH(64)" using assms(2) unfolding u by simp
  from unat_add_no_overflow [OF this] have "unat (x + 2 ^ k - 1) = unat x + (2 ^ k - 1)"
    unfolding e u .
  then show ?thesis unfolding m by (simp add: unat_and_not_mask)
qed

lemma aligned_layout_eq:
  assumes al: "is_power_of_two (layout_align lay)" and sz: "unat (layout_size lay) + unat (layout_align lay) \<le> 2 ^ 63"
  defines "al \<equiv> max (unat (layout_align lay)) 16"
  defines "n \<equiv> (unat (layout_size lay) + (al - 1)) div al * al"
  shows "aligned_layout lay =
    (if n + al \<le> 2 ^ 63 then Some \<lparr>layout_size = of_nat n, layout_align = of_nat al\<rparr> else None)"
proof -
  obtain k where k: "k < 64" "4 \<le> k" "max (layout_align lay) 16 = 2 ^ k" "unat (max (layout_align lay) 16) = al"
    using max_16_power [OF al] unfolding al_def by blast
  have al2: "al = 2 ^ k" using k(1,3,4) by (simp add: unat_power_u64)
  have "unat (layout_align lay) \<le> 2 ^ 63" using sz by simp
  then have "al \<le> 2 ^ 63" by (simp add: al_def)
  then have fit: "unat (layout_size lay) + 2 ^ k \<le> 2 ^ 64" using sz unfolding al2 by simp
  let ?s = "(layout_size lay + 2 ^ k - 1) AND NOT (2 ^ k - 1)"
  have u: "unat ?s = n" using round_up_power [OF k(1) fit] by (simp add: n_def al2)
  have s: "?s = of_nat n" using arg_cong [OF u, of "of_nat :: nat \<Rightarrow> u64"] by simp
  have "is_power_of_two (2 ^ k)" using k(1) by (auto simp: is_power_of_two_iff)
  moreover have "unat (2 ^ k :: u64) = al" using k(1) al2 by (simp add: unat_power_u64)
  moreover have "of_nat al = (2 ^ k :: u64)" by (simp add: al2)
  moreover have "0 < al" by (simp add: al2)
  ultimately show ?thesis
    unfolding aligned_layout_def Let_def k(3) from_size_align_def u unfolding s by auto
qed

section \<open>The framebuffer\<close>

text \<open>The metadata word of the framebuffer call: pitch in the upper, height in the lower half.\<close>

lemma fb_meta_parts:
  assumes "unat (height :: u64) < 2 ^ 32" "unat (pitch :: u64) < 2 ^ 32"
  shows "drop_bit 32 (push_bit 32 pitch OR height) = pitch" "(push_bit 32 pitch OR height) AND 0xFFFFFFFF = height"
proof -
  have small: "drop_bit 32 x = 0" "x AND mask 32 = x" "take_bit 32 x = x" if "unat x < 2 ^ 32" for x :: u64
  proof -
    have "unat (drop_bit 32 x) = 0" using that by (simp add: drop_bit_eq_div unat_div)
    then show "drop_bit 32 x = 0" by (simp only: unat_eq_zero_iff)
    have "unat (take_bit 32 x) = unat x" using that by (simp add: unsigned_take_bit_eq take_bit_nat_eq_self)
    then show t: "take_bit 32 x = x" by (simp only: word_unat_eq_iff)
    then show "x AND mask 32 = x" by (simp add: take_bit_eq_mask)
  qed
  have m: "(0xFFFFFFFF :: u64) = mask 32" by (simp add: mask_numeral)
  have "drop_bit 32 (push_bit 32 pitch) = take_bit 32 pitch"
    by (rule bit_word_eqI) (auto simp: bit_simps dest: bit_imp_le_length)
  then show "drop_bit 32 (push_bit 32 pitch OR height) = pitch"
    using small [OF assms(1)] small [OF assms(2)] by (simp add: drop_bit_or)
  have "push_bit 32 pitch AND mask 32 = 0" by (rule bit_word_eqI) (auto simp: bit_simps)
  then show "(push_bit 32 pitch OR height) AND 0xFFFFFFFF = height"
    unfolding m using small [OF assms(1)] by (simp add: bit.conj_disj_distrib2)
qed

lemma uint_less_31: "unat (x :: u64) < 2 ^ 31 \<Longrightarrow> uint x < 2 ^ 31"
proof -
  assume "unat x < 2 ^ 31"
  then have "int (unat x) < int (2 ^ 31)" by (simp only: of_nat_less_iff)
  then show ?thesis by simp
qed

lemma draw_without_framebuffer: "FB_PTR F = 0 \<Longrightarrow> draw_rect F x y w h c = []"
  by (simp add: draw_rect_def)

lemma pixels_below_pitch:
  assumes i: "uint (i::u64) < uint (pitch div 4) * uint (height :: u64)"
  shows "4 * (unat i + 1) \<le> unat height * unat (pitch :: u64)"
proof -
  have "uint (pitch div 4) = int (unat pitch div 4)" by (simp add: uint_div zdiv_int)
  with i have "int (unat i) < int (unat pitch div 4 * unat height)" by simp
  then have "unat i < unat pitch div 4 * unat height" by linarith
  then have "4 * (unat i + 1) \<le> 4 * (unat pitch div 4) * unat height" by simp
  also have "\<dots> \<le> unat pitch * unat height" by (rule mult_right_mono) simp_all
  finally show ?thesis by (simp add: mult.commute)
qed

text \<open>The screen that the device set-up leaves behind.\<close>

lemma set_up_devices_screen:
  assumes laws: "paging_laws P entries" and inv: "kernel_inv entries (sys m)"
    and fb: "get_framebuffer_details P (sys m) = Some (phys_addr, width, height, pitch)"
    and size: "unat height < 2 ^ 32" "unat pitch < 2 ^ 32"
    and up: "set_up_devices P rdx m = Inr m'" "marshal_screen m = screen_new" "FB_PTR (marshal_screen m') \<noteq> 0"
  shows "FB_WIDTH (marshal_screen m') = pitch div 4" "FB_HEIGHT (marshal_screen m') = height"
proof -
  obtain r1 s1 r2 s2 fb_meta s3 where run:
    "sys_grant_shared_memory (syscall_dispatcher P) 0 0x40000000 (sys m) = Inr (r1, s1)"
    "sys_iommu_lockdown (syscall_dispatcher P) 0x10DE 0xA0000000 s1 = Inr (r2, s2)"
    "sys_map_framebuffer (syscall_dispatcher P) rdx 0xB0000000 s2 = Inr (fb_meta, s3)"
    and m': "marshal_screen m' = set_screen fb_meta screen_new"
    using up(1,2) by (auto simp: set_up_devices_def res_simps)
  obtain x where g: "syscall_dispatcher P SYS_GRANT_SHARED_MEMORY 0 0x40000000 (sys m) = Inr (x, s1)"
    using run(1) by (auto simp: sys_grant_shared_memory_def res_simps)
  note k1 = syscall_kept [OF laws inv g]
  have k2: "kernel_inv entries s2 \<and> kernel_half_kept P s1 s2"
    by (rule syscall_kept [OF laws _ run(2) [unfolded sys_iommu_lockdown_def]]) (use k1 in simp)
  have "HHDM_OFFSET s2 = HHDM_OFFSET (sys m)" using k1 k2 by (simp add: kernel_half_kept_def)
  then have fb2: "get_framebuffer_details P s2 = Some (phys_addr, width, height, pitch)"
    using fb unfolding get_framebuffer_details_def by (simp only:)
  have meta: "fb_meta \<noteq> 0" "fb_meta \<noteq> u64_MAX"
    using up(3) unfolding m' by (auto simp: set_screen_def screen_new_def split: if_splits)
  have "sys_map_fb P 0xB0000000 s2 = Inr (fb_meta, s3)"
    using run(3) by (simp add: sys_map_framebuffer_def syscall_dispatcher_def)
  then have "fb_meta = push_bit 32 pitch OR height"
    by (cases rule: sys_map_fb_cases) (use meta fb2 in auto)
  from fb_meta_parts [OF size, folded this] meta
  show "FB_WIDTH (marshal_screen m') = pitch div 4" "FB_HEIGHT (marshal_screen m') = height"
    unfolding m' by (simp_all add: set_screen_def)
qed

lemma sint_ucast_small:
  assumes "unat (x :: u64) < 2 ^ 30"
  shows "sint (ucast x :: i32) = int (unat x)"
proof -
  define n where "n = unat x"
  have n: "n < 2 ^ 30" using assms by (simp add: n_def)
  have "x = of_nat n" by (simp add: n_def)
  then have "(ucast x :: i32) = word_of_int (int n)" using n by (simp add: word_unat_eq_iff unat_of_nat unsigned_ucast_eq take_bit_eq_mod)
  moreover have "sint (word_of_int (int n) :: i32) = int n" using n by (intro sint_of_int_small) simp_all
  ultimately show ?thesis unfolding n_def [symmetric] by (simp only:)
qed

lemma scast_ucast_small:
  assumes "unat (x :: u64) < 2 ^ 30"
  shows "x = scast (ucast x :: i32)"
proof -
  note s = sint_ucast_small [OF assms]
  then have "uint (scast (ucast x :: i32) :: u64) = int (unat x)" by (simp only: uint_scast_nonneg of_nat_0_le_iff)
  then show ?thesis by (simp add: word_uint_eq_iff)
qed

lemma screen_ok_nat: "sint w = int n \<Longrightarrow> 12 \<le> n \<Longrightarrow> n < 2 ^ 30 \<Longrightarrow> screen_ok w"
  by (simp add: screen_ok_def)

section \<open>The protocol of init.rc\<close>

text \<open>
  What a configuration asks for, without any state: the lines of all members \<^verbatim>\<open>init.rc\<close>, the members
  that their driver lines name, and those that their application lines name.
\<close>

definition named :: "tar_object list \<Rightarrow> nat list \<Rightarrow> tar_object list" where
  "named table name = filter (\<lambda>ob. from_utf8 (obj_name ob) = Some name) table"

definition directive :: "string \<Rightarrow> nat list \<Rightarrow> nat list option" where
  "directive keyword line =
     (if starts_with (scalars keyword) (str_trim line) then Some (drop (length keyword) (str_trim line)) else None)"

definition requests :: "string \<Rightarrow> tar_object list \<Rightarrow> nat list list \<Rightarrow> tar_object list" where
  "requests keyword table ls = concat (map (\<lambda>l. case directive keyword l of Some name \<Rightarrow> named table name | None \<Rightarrow> []) ls)"

definition member_lines :: "tar_object \<Rightarrow> nat list list" where
  "member_lines ob = (case from_utf8 (obj_data ob) of Some config_str \<Rightarrow> str_lines config_str | None \<Rightarrow> [])"

definition config_lines :: "tar_object list \<Rightarrow> nat list list" where
  "config_lines table = concat (map member_lines (named table (scalars ''init.rc'')))"

text \<open>The stack of the \<open>k\<close>-th driver that is started, and the entries of the ready queue.\<close>

fun stack_plan :: "u64 \<Rightarrow> u64 list \<Rightarrow> (u64 \<times> u64) list" where
  "stack_plan b [] = []"
| "stack_plan b (ip # ips) = (ip, b + 0x10000) # stack_plan (b + 0x100000) ips"

lemma length_stack_plan [simp]: "length (stack_plan b es) = length es"
  by (induction es arbitrary: b) auto

lemma stack_plan_append:
  "stack_plan b (es @ fs) = stack_plan b es @ stack_plan (b + of_nat (length es) * 0x100000) fs"
  by (induction es arbitrary: b) (simp_all add: algebra_simps)

lemma stack_plan_nth: "k < length es \<Longrightarrow> stack_plan b es ! k = (es ! k, b + of_nat k * 0x100000 + 0x10000)"
proof (induction es arbitrary: b k)
  case (Cons e es)
  then show ?case by (cases k) (simp_all add: algebra_simps)
qed simp

text \<open>The effect of the protocol when it has started the drivers \<open>starts\<close> and seen the applications \<open>apps\<close>.\<close>

definition protocol_effect :: "(tar_object \<Rightarrow> u64) \<Rightarrow> (tar_object \<times> u64) list \<Rightarrow> tar_object list \<Rightarrow> ('pt, 'dev, 'h) marshal \<Rightarrow>
    ('pt, 'dev, 'h) marshal \<Rightarrow> bool" where
  "protocol_effect as_ptr starts apps m m' \<longleftrightarrow>
     current_stack_base m' = current_stack_base m + of_nat (length starts) * 0x100000 \<and>
     (let q = SCHEDULER (sys m); q' = SCHEDULER (sys m') in
       sched_inv q' \<and> free_slots q' = free_slots q - length starts \<and>
       ready_queue q' = ready_queue q @ take (free_slots q) (stack_plan (current_stack_base m) (map snd starts))) \<and>
     (WASM_DATA_PTR m', WASM_DATA_LEN m') =
       (if apps = [] then (WASM_DATA_PTR m, WASM_DATA_LEN m) else (as_ptr (last apps), of_nat (length (obj_data (last apps)))))"

lemma protocol_effect_refl:
  "sched_inv (SCHEDULER (sys m)) \<Longrightarrow> protocol_effect as_ptr [] [] m m"
  by (simp add: protocol_effect_def)

lemma protocol_effect_trans:
  assumes "protocol_effect as_ptr st1 apps1 m m1" "protocol_effect as_ptr st2 apps2 m1 m2"
  shows "protocol_effect as_ptr (st1 @ st2) (apps1 @ apps2) m m2"
  using assms by (auto simp: protocol_effect_def Let_def stack_plan_append algebra_simps)

lemma grant_scheduler:
  assumes "sys_grant_shared_memory (syscall_dispatcher P) tid va s = Inr (r, s')"
  shows "SCHEDULER s' = SCHEDULER s \<and> CDT s' = CDT s \<and> HHDM_OFFSET s' = HHDM_OFFSET s"
proof -
  from assms obtain x where "sys_grant P tid va s = Inr (x, s')"
    by (auto simp: sys_grant_shared_memory_def syscall_dispatcher_def res_simps)
  then show ?thesis
    by (auto simp: sys_grant_def grant_frame_def allocate_expect_def map_page_def say_def res_simps Let_def split: if_splits)
qed

lemma grant_pages_scheduler: "grant_pages P vbase pages s = Inr s' \<Longrightarrow> SCHEDULER s' = SCHEDULER s \<and> CDT s' = CDT s \<and> HHDM_OFFSET s' = HHDM_OFFSET s"
proof -
  have "grant_loop P vbase ps s = Inr s' \<Longrightarrow> SCHEDULER s' = SCHEDULER s \<and> CDT s' = CDT s \<and> HHDM_OFFSET s' = HHDM_OFFSET s" for ps
    by (induction ps arbitrary: s) (auto simp: res_simps dest!: grant_scheduler)
  then show "grant_pages P vbase pages s = Inr s' \<Longrightarrow> SCHEDULER s' = SCHEDULER s \<and> CDT s' = CDT s \<and> HHDM_OFFSET s' = HHDM_OFFSET s" by (simp add: grant_pages_def)
qed

lemma write_bytes_scheduler: "write_bytes P va bs (s :: ('pt, 'dev) kernel) = Inr s' \<Longrightarrow> SCHEDULER s' = SCHEDULER s \<and> CDT s' = CDT s \<and> HHDM_OFFSET s' = HHDM_OFFSET s"
  by (induction bs arbitrary: va s) (auto simp: write_byte_def res_simps split: option.splits)

lemma user_load_scheduler:
  assumes "user_load P data len s = Inr (r, s')"
  shows "SCHEDULER s' = SCHEDULER s \<and> CDT s' = CDT s \<and> HHDM_OFFSET s' = HHDM_OFFSET s"
proof -
  have fill: "fill_segment P dest src filesz memsz s = Inr s' \<Longrightarrow> SCHEDULER s' = SCHEDULER s \<and> CDT s' = CDT s \<and> HHDM_OFFSET s' = HHDM_OFFSET s" for dest src filesz memsz s s'
    by (auto simp: fill_segment_def res_simps Let_def split: if_splits dest!: write_bytes_scheduler)
  have seg: "user_load_segment P data phdr s = Inr s' \<Longrightarrow> SCHEDULER s' = SCHEDULER s \<and> CDT s' = CDT s \<and> HHDM_OFFSET s' = HHDM_OFFSET s" for phdr s s'
    by (auto simp: user_load_segment_def res_simps Let_def dest!: grant_pages_scheduler fill)
  have loop: "user_phdr_loop P data ptr is s = Inr s' \<Longrightarrow> SCHEDULER s' = SCHEDULER s \<and> CDT s' = CDT s \<and> HHDM_OFFSET s' = HHDM_OFFSET s" for ptr "is" s s'
    by (induction "is" arbitrary: s) (auto simp: res_simps split: if_splits dest!: seg)
  show ?thesis using assms by (auto simp: user_load_def res_simps split: if_splits dest!: loop)
qed

lemma spawn_effect:
  assumes inv: "sched_inv (SCHEDULER s)" and run: "sys_spawn_process (syscall_dispatcher P) ip sp s = Inr (r, s')"
  shows "sched_inv (SCHEDULER s') \<and> free_slots (SCHEDULER s') = free_slots (SCHEDULER s) - 1 \<and>
    ready_queue (SCHEDULER s') = ready_queue (SCHEDULER s) @ take (free_slots (SCHEDULER s)) [(ip, sp)]"
proof -
  let ?q = "SCHEDULER s"
  have spawn: "global_spawn_thread ip sp ?q = Inr (SCHEDULER s')"
    using run by (auto simp: sys_spawn_process_def syscall_dispatcher_def sys_spawn_handler_def res_simps)
  show ?thesis
  proof (cases "unat (thread_count ?q) < MAX_THREADS")
    case True
    with spawn have "SCHEDULER s' = ?q\<lparr>thread_count := thread_count ?q + 1,
        threads := (threads ?q)[unat (thread_count ?q) := new_thread (thread_count ?q + 1) 1 sp ip]\<rparr>"
      by (simp add: global_spawn_thread_def spawn_thread_room [OF inv])
    then show ?thesis
      using spawn_thread_inv [OF inv True, of 1 sp ip] spawn_thread_queue [OF inv True, of 1 sp ip] thread_count_Suc(2) [OF inv True] True
      by (simp add: free_slots_def)
  next
    case False
    then have full: "unat (thread_count ?q) = MAX_THREADS" using sched_inv_count [OF inv] by simp
    with spawn have "SCHEDULER s' = ?q" by (simp add: global_spawn_thread_def spawn_thread_full [OF inv])
    with inv full show ?thesis by (simp add: free_slots_def)
  qed
qed

lemma start_driver_effect:
  assumes inv: "sched_inv (SCHEDULER (sys m))" and run: "start_driver P as_ptr drv m = Inr m'"
  obtains starts where "starts = [] \<or> (\<exists>entry. starts = [(drv, entry)])" "protocol_effect as_ptr starts [] m m'"
proof -
  obtain entry s1 where load: "user_load P (as_ptr drv) (of_nat (length (obj_data drv))) (sys m) = Inr (entry, s1)"
    using run by (auto simp: start_driver_def res_simps)
  have s1: "SCHEDULER s1 = SCHEDULER (sys m)" using user_load_scheduler [OF load] by simp
  show ?thesis
  proof (cases entry)
    case None
    then have "m' = m\<lparr>sys := s1\<rparr>" using run load by (simp add: start_driver_def)
    with inv s1 have "protocol_effect as_ptr [] [] m m'" by (simp add: protocol_effect_def)
    with that show ?thesis by blast
  next
    case (Some ip)
    let ?b = "current_stack_base m"
    obtain s2 s3 r where g: "grant_pages P ?b 16 s1 = Inr s2"
      and sp: "sys_spawn_process (syscall_dispatcher P) ip (?b + 16 * 4096) s2 = Inr (r, s3)"
      and m': "m' = m\<lparr>sys := s3, current_stack_base := ?b + 0x100000\<rparr>"
      using run load Some by (auto simp: start_driver_def on_sys_def res_simps Let_def)
    have s2: "SCHEDULER s2 = SCHEDULER (sys m)" using grant_pages_scheduler [OF g] s1 by simp
    from spawn_effect [OF _ sp] inv have "protocol_effect as_ptr [(drv, ip)] [] m m'"
      unfolding s2 by (simp add: protocol_effect_def m')
    with that show ?thesis by blast
  qed
qed

lemma protocol_effect_inv: "protocol_effect as_ptr starts apps m m' \<Longrightarrow> sched_inv (SCHEDULER (sys m'))"
  by (simp add: protocol_effect_def Let_def)

text \<open>A part of the protocol: it starts some of the drivers \<open>reqs\<close>, in order, and sees the applications \<open>apps\<close>.\<close>

definition follows :: "(tar_object \<Rightarrow> u64) \<Rightarrow> tar_object list \<Rightarrow> tar_object list \<Rightarrow> ('pt, 'dev, 'h) marshal \<Rightarrow>
    ('pt, 'dev, 'h) marshal \<Rightarrow> bool" where
  "follows as_ptr reqs apps m m' \<longleftrightarrow> (\<exists>starts. subseq (map fst starts) reqs \<and> protocol_effect as_ptr starts apps m m')"

lemma follows_refl: "sched_inv (SCHEDULER (sys m)) \<Longrightarrow> follows as_ptr [] [] m m"
  unfolding follows_def by (rule exI [of _ "[]"]) (simp add: protocol_effect_refl)

lemma follows_trans:
  assumes "follows as_ptr r1 a1 m m1" "follows as_ptr r2 a2 m1 m2"
  shows "follows as_ptr (r1 @ r2) (a1 @ a2) m m2"
proof -
  from assms obtain st1 st2 where st: "subseq (map fst st1) r1" "protocol_effect as_ptr st1 a1 m m1"
    "subseq (map fst st2) r2" "protocol_effect as_ptr st2 a2 m1 m2"
    by (auto simp: follows_def)
  have "subseq (map fst (st1 @ st2)) (r1 @ r2)" using list_emb_append_mono [OF st(1,3)] by simp
  with protocol_effect_trans [OF st(2,4)] show ?thesis unfolding follows_def by blast
qed

lemma follows_inv: "follows as_ptr reqs apps m m' \<Longrightarrow> sched_inv (SCHEDULER (sys m'))"
  by (auto simp: follows_def dest: protocol_effect_inv)

text \<open>Each loop of the protocol follows what the configuration asks for.\<close>

lemma driver_loop_follows:
  "driver_loop P as_ptr name table m = Inr m' \<Longrightarrow> sched_inv (SCHEDULER (sys m)) \<Longrightarrow> follows as_ptr (named table name) [] m m'"
proof (induction table arbitrary: m)
  case Nil
  then show ?case by (simp add: named_def follows_refl)
next
  case (Cons drv table)
  show ?case
  proof (cases "from_utf8 (obj_name drv) = Some name")
    case True
    then obtain m1 where m1: "start_driver P as_ptr drv m = Inr m1" "driver_loop P as_ptr name table m1 = Inr m'"
      using Cons.prems(1) by (auto simp: res_simps)
    from start_driver_effect [OF Cons.prems(2) m1(1)] obtain starts where
      "starts = [] \<or> (\<exists>entry. starts = [(drv, entry)])" "protocol_effect as_ptr starts [] m m1" .
    then have one: "follows as_ptr [drv] [] m m1" unfolding follows_def by (intro exI [of _ starts]) auto
    from follows_trans [OF one Cons.IH [OF m1(2) follows_inv [OF one]]] True show ?thesis by (simp add: named_def)
  next
    case False
    with Cons show ?thesis by (simp add: named_def)
  qed
qed

lemma app_loop_follows:
  "sched_inv (SCHEDULER (sys m)) \<Longrightarrow> follows as_ptr [] (named table name) m (app_loop as_ptr name table m)"
proof (induction table arbitrary: m)
  case Nil
  then show ?case by (simp add: named_def follows_refl)
next
  case (Cons app table)
  show ?case
  proof (cases "from_utf8 (obj_name app) = Some name")
    case True
    let ?m1 = "m\<lparr>WASM_DATA_PTR := as_ptr app, WASM_DATA_LEN := of_nat (length (obj_data app))\<rparr>"
    have one: "follows as_ptr [] [app] m ?m1"
      unfolding follows_def using Cons.prems by (intro exI [of _ "[]"]) (simp add: protocol_effect_def)
    from follows_trans [OF one Cons.IH] Cons.prems True show ?thesis by (simp add: named_def)
  next
    case False
    with Cons show ?thesis by (simp add: named_def)
  qed
qed

lemma not_driver_and_app:
  "starts_with (scalars ''driver:'') l \<Longrightarrow> \<not> starts_with (scalars ''app:'') l"
  by (cases l) (auto simp: starts_with_def scalars_def)

lemma handle_line_follows:
  assumes "handle_line P as_ptr table line m = Inr m'" "sched_inv (SCHEDULER (sys m))"
  shows "follows as_ptr (requests ''driver:'' table [line]) (requests ''app:'' table [line]) m m'"
proof (cases "starts_with (scalars ''driver:'') (str_trim line)")
  case True
  with assms(1) have "driver_loop P as_ptr (drop 7 (str_trim line)) table m = Inr m'" by (simp add: handle_line_def)
  from driver_loop_follows [OF this assms(2)] True not_driver_and_app [OF True] show ?thesis
    by (simp add: requests_def directive_def eval_nat_numeral)
next
  case False
  with assms app_loop_follows [OF assms(2), of as_ptr table] follows_refl [OF assms(2), of as_ptr] show ?thesis
    by (auto simp: requests_def directive_def handle_line_def Let_def eval_nat_numeral split: if_splits)
qed

lemma requests_append: "requests kw table (xs @ ys) = requests kw table xs @ requests kw table ys"
  by (simp add: requests_def)

lemma line_loop_follows:
  "line_loop P as_ptr table ls m = Inr m' \<Longrightarrow> sched_inv (SCHEDULER (sys m)) \<Longrightarrow>
   follows as_ptr (requests ''driver:'' table ls) (requests ''app:'' table ls) m m'"
proof (induction ls arbitrary: m)
  case Nil
  then show ?case by (simp add: requests_def follows_refl)
next
  case (Cons l ls)
  then obtain m1 where m1: "handle_line P as_ptr table l m = Inr m1" "line_loop P as_ptr table ls m1 = Inr m'"
    by (auto simp: res_simps)
  note one = handle_line_follows [OF m1(1) Cons.prems(2)]
  from follows_trans [OF one Cons.IH [OF m1(2) follows_inv [OF one]]]
    requests_append [of _ table "[l]" ls] show ?case by simp
qed

lemma init_loop_follows:
  "init_loop P as_ptr table obs m = Inr m' \<Longrightarrow> sched_inv (SCHEDULER (sys m)) \<Longrightarrow>
   follows as_ptr (requests ''driver:'' table (config_lines obs)) (requests ''app:'' table (config_lines obs)) m m'"
proof (induction obs arbitrary: m)
  case Nil
  then show ?case by (simp add: config_lines_def named_def requests_def follows_refl)
next
  case (Cons ob obs)
  let ?R = "\<lambda>kw. requests kw table"
  show ?case
  proof (cases "from_utf8 (obj_name ob) = Some (scalars ''init.rc'')")
    case True
    then obtain m1 where m1: "line_loop P as_ptr table (member_lines ob) m = Inr m1" "init_loop P as_ptr table obs m1 = Inr m'"
      using Cons.prems(1) by (auto simp: res_simps member_lines_def split: option.splits)
    note one = line_loop_follows [OF m1(1) Cons.prems(2)]
    from follows_trans [OF one Cons.IH [OF m1(2) follows_inv [OF one]]] True show ?thesis
      by (simp add: config_lines_def named_def requests_append)
  next
    case False
    with Cons show ?thesis by (simp add: config_lines_def named_def)
  qed
qed

section \<open>Reading a configuration\<close>

text \<open>A configuration file: one directive per line.\<close>

definition render :: "(string \<times> nat list) list \<Rightarrow> nat list" where
  "render ds = concat (map (\<lambda>(keyword, name). scalars keyword @ name @ [10]) ds)"

definition directive_ok :: "string \<times> nat list \<Rightarrow> bool" where
  "directive_ok d \<longleftrightarrow> fst d \<in> {''driver:'', ''app:''} \<and> snd d \<noteq> [] \<and> 10 \<notin> set (snd d) \<and> last (snd d) \<notin> set whitespace"

lemma str_lines_Nil [simp]: "str_lines [] = []"
  by (simp add: str_lines.simps)

lemma str_lines_line:
  assumes "10 \<notin> set l"
  shows "str_lines (l @ 10 # rest) = strip_cr l # str_lines rest"
proof -
  have neq: "\<forall>c \<in> set l. c \<noteq> 10" using assms by auto
  have "dropWhile (\<lambda>c. c \<noteq> 10) (l @ 10 # rest) = 10 # rest" "takeWhile (\<lambda>c. c \<noteq> 10) (l @ 10 # rest) = l"
    using neq by (simp_all add: dropWhile_append1 dropWhile_append2 takeWhile_append2)
  then show ?thesis by (subst str_lines.simps) simp
qed

lemma dropWhile_first: "xs \<noteq> [] \<Longrightarrow> \<not> Q (hd xs) \<Longrightarrow> dropWhile Q xs = xs"
  by (cases xs) auto

lemma str_trim_id:
  assumes "l \<noteq> []" "hd l \<notin> set whitespace" "last l \<notin> set whitespace"
  shows "str_trim l = l"
proof -
  have "dropWhile (\<lambda>c. c \<in> set whitespace) l = l" using assms(1,2) by (rule dropWhile_first)
  moreover have "dropWhile (\<lambda>c. c \<in> set whitespace) (rev l) = rev l"
    using assms(1,3) by (intro dropWhile_first) (simp_all add: hd_rev)
  ultimately show ?thesis by (simp add: str_trim_def)
qed

lemma directive_line:
  assumes "directive_ok (k, name)" "kw \<in> {''driver:'', ''app:''}"
  shows "strip_cr (scalars k @ name) = scalars k @ name" "10 \<notin> set (scalars k @ name)"
    "directive kw (scalars k @ name) = (if k = kw then Some name else None)"
proof -
  have n: "name \<noteq> []" "last name \<notin> set whitespace" "10 \<notin> set name" and k: "k = ''driver:'' \<or> k = ''app:''"
    using assms(1) by (auto simp: directive_ok_def)
  have l: "last (scalars k @ name) \<notin> set whitespace" "scalars k @ name \<noteq> []" using n by simp_all
  then show "strip_cr (scalars k @ name) = scalars k @ name" by (auto simp: strip_cr_def whitespace_def)
  show "10 \<notin> set (scalars k @ name)" using n(3) k by (auto simp: scalars_def)
  have "hd (scalars k @ name) \<notin> set whitespace" using k by (auto simp: scalars_def whitespace_def)
  from str_trim_id [OF l(2) this l(1)] have t: "str_trim (scalars k @ name) = scalars k @ name" .
  show "directive kw (scalars k @ name) = (if k = kw then Some name else None)"
    unfolding directive_def t using k assms(2) by (auto simp: starts_with_def scalars_def)
qed

text \<open>What a list of directives means.\<close>

fun run_directives :: "('pt, 'dev) hw_platform \<Rightarrow> (tar_object \<Rightarrow> u64) \<Rightarrow> tar_object list \<Rightarrow> (string \<times> nat list) list \<Rightarrow>
    ('pt, 'dev, 'h) marshal \<Rightarrow> ('pt, 'dev, 'h) marshal res" where
  "run_directives P as_ptr table [] m = Inr m"
| "run_directives P as_ptr table ((keyword, name) # ds) m =
     bindE (if keyword = ''driver:'' then driver_loop P as_ptr name table m else Inr (app_loop as_ptr name table m)) (\<lambda>m.
     run_directives P as_ptr table ds m)"

lemma handle_directive:
  assumes "directive_ok (k, name)"
  shows "handle_line P as_ptr table (scalars k @ name) m =
    (if k = ''driver:'' then driver_loop P as_ptr name table m else Inr (app_loop as_ptr name table m))"
proof -
  have k: "k = ''driver:'' \<or> k = ''app:''" using assms by (auto simp: directive_ok_def)
  show ?thesis
    using k directive_line(3) [OF assms, of "''driver:''"] directive_line(3) [OF assms, of "''app:''"]
    by (auto simp: handle_line_def directive_def Let_def eval_nat_numeral split: if_splits)
qed

lemma str_lines_render:
  "\<forall>d \<in> set ds. directive_ok d \<Longrightarrow> str_lines (render ds) = map (\<lambda>(k, name). scalars k @ name) ds"
proof (induction ds)
  case (Cons d ds)
  obtain k name where d: "d = (k, name)" by (cases d)
  with Cons.prems have ok: "directive_ok (k, name)" by simp
  have "render (d # ds) = (scalars k @ name) @ 10 # render ds" by (simp add: d render_def)
  with str_lines_line [OF directive_line(2) [OF ok], of "''app:''" "render ds"] directive_line(1) [OF ok, of "''app:''"] Cons
  show ?case by (simp add: d)
qed (simp add: render_def)

section \<open>Properties\<close>


text \<open>A Marshal with a driver that is only a header, and frames for its stack.\<close>

definition init_memmap :: "mem_entry list" where
  "init_memmap = [\<lparr>base = 0x100000, region_length = 0x40000, usable = True\<rparr>]"

definition init_hw :: "(flat_table, (u16 \<times> nat \<times> u32) list) hw_platform" where
  "init_hw = example_hw\<lparr>memmap_response := Some init_memmap\<rparr>"

definition init_ram :: "u64 \<Rightarrow> u8" where
  "init_ram = (\<lambda>_. 0)(0x300000 := 0x7F, 0x300001 := 0x45, 0x300002 := 0x4C, 0x300003 := 0x46, 0x300018 := 0x40)"

definition init_marshal :: "(flat_table, (u16 \<times> nat \<times> u32) list, nat) marshal" where
  "init_marshal =
     \<lparr>current_stack_base = 0x600000000000, WASM_DATA_PTR = 0, WASM_DATA_LEN = 0, marshal_screen = screen_new, heap = 0,
      sys = example_kernel\<lparr>MAPPER := Some [0x300000 \<mapsto> (0x300000, {PRESENT})], phys_mem := init_ram\<rparr>\<rparr>"

definition init_table :: "tar_object list" where
  "init_table =
     [\<lparr>obj_id = 0, obj_name = bytes ''init.rc'', obj_data = bytes ''driver:a\<newline>''\<rparr>,
      \<lparr>obj_id = 1, obj_name = bytes ''a'', obj_data = replicate 64 0\<rparr>]"

lemma init_read_byte:
  "n < 4096 \<Longrightarrow> read_byte init_hw (sys init_marshal) (0x300000 + of_nat n) = Inr (init_ram (0x300000 + of_nat n))"
proof -
  assume n: "n < 4096"
  have u: "unat (0x300000 + of_nat n :: u64) = 0x300000 + n"
    using n by (subst unat_add_no_overflow) (simp_all add: unat_of_nat_small)
  have "page_floor (0x300000 + of_nat n) = (0x300000 :: u64)"
    using n by (simp add: word_unat_eq_iff unat_page_floor u)
  moreover from this have "0x300000 + page_offset (0x300000 + of_nat n) = (0x300000 + of_nat n :: u64)"
    using page_floor_plus_offset [of "0x300000 + of_nat n"] by simp
  ultimately show ?thesis
    by (simp add: read_byte_def translate_def init_hw_def example_hw_def init_marshal_def)
qed

lemma init_read_bytes:
  "n + k \<le> 4096 \<Longrightarrow> read_bytes init_hw (sys init_marshal) (0x300000 + of_nat n) k =
    Inr (map (\<lambda>i. init_ram (0x300000 + of_nat i)) [n..<n + k])"
proof (induction k arbitrary: n)
  case (Suc k)
  have "0x300000 + of_nat n + 1 = (0x300000 + of_nat (Suc n) :: u64)" by simp
  with Suc.IH [of "Suc n"] Suc.prems init_read_byte [of n] show ?case by (simp add: upt_conv_Cons del: upt_Suc)
qed simp

lemma init_driver_loads:
  "user_load init_hw 0x300000 64 (sys init_marshal) = Inr (Some 0x40, sys init_marshal)"
  using init_read_bytes [of 0 16] init_read_bytes [of 24 8] init_read_bytes [of 32 8] init_read_bytes [of 54 2] init_read_bytes [of 56 2]
  by (simp add: user_load_def read_header_def read_le_def ELF_MAGIC_def init_ram_def upt_rec)

lemma init_hw_laws: "paging_laws init_hw init_memmap"
proof -
  have "map_to_law init_hw init_memmap"
    by (rule flat_map_to_law) (simp_all add: init_hw_def example_hw_def)
  then show ?thesis
    by (simp add: paging_laws_def address_laws_def init_hw_def example_hw_def)
      (simp add: init_memmap_def entry_end_def)
qed

lemma init_marshal_facts:
  "mem_inv init_memmap (sys init_marshal)" "CDT (sys init_marshal) = genesis_cdt" "SCHEDULER (sys init_marshal) = scheduler_new"
  "length (free_frames init_memmap (sys init_marshal)) = 64" "distinct (free_frames init_memmap (sys init_marshal))"
  "address_space init_hw (sys init_marshal) = [0x300000 \<mapsto> (0x300000, {PRESENT})]" "current_stack_base init_marshal = 0x600000000000"
proof -
  have wf: "wf_memmap init_memmap" by (simp add: wf_memmap_def init_memmap_def entry_end_def)
  have f: "free_frames init_memmap (sys init_marshal) = all_frames init_memmap"
    by (simp add: init_marshal_def example_kernel_def frames_left_new)
  then show "length (free_frames init_memmap (sys init_marshal)) = 64"
    by (simp add: all_frames_def init_memmap_def entry_frames_def entry_end_def region_frames_def)
  show "distinct (free_frames init_memmap (sys init_marshal))"
    unfolding f by (rule distinct_all_frames [OF wf]) (simp add: disjoint_memmap_def init_memmap_def)
  show "mem_inv init_memmap (sys init_marshal)"
    by (simp add: mem_inv_def init_marshal_def example_kernel_def fa_inv_new wf)
qed (simp_all add: init_marshal_def example_kernel_def address_space_def init_hw_def example_hw_def)

lemma init_runs: "\<exists>m'. init_loop init_hw (\<lambda>_. 0x300000) init_table init_table init_marshal = Inr m'"
proof -
  have a: "from_utf8 (bytes ''init.rc'') = Some (scalars ''init.rc'')" "from_utf8 (bytes ''driver:a\<newline>'') = Some (scalars ''driver:a\<newline>'')"
    "from_utf8 (bytes ''a'') = Some (scalars ''a'')" by (simp_all add: bytes_def scalars_def)
  have b: "scalars ''a'' \<noteq> scalars ''init.rc''" "starts_with (scalars ''driver:'') (scalars ''driver:a'')"
    "drop 7 (scalars ''driver:a'') = scalars ''a''" by (simp_all add: scalars_def starts_with_def)
  have l: "str_lines (scalars ''driver:a\<newline>'') = [scalars ''driver:a'']"
    using str_lines_line [of "scalars ''driver:a''" "[]"] by (simp add: scalars_def strip_cr_def)
  have t: "str_trim (scalars ''driver:a'') = scalars ''driver:a''" by (rule str_trim_id) (simp_all add: scalars_def whitespace_def)
  let ?b = "0x600000000000"
  note m = init_marshal_facts
  have none: "address_space init_hw (sys init_marshal) (page_at (page_floor ?b) (0 + j)) = None" if "j < 16" for j
    using that unfolding m(6) by (simp add: page_floor_def word_unat_eq_iff unat_page_at)
  obtain s1 where g: "grant_pages init_hw ?b 16 (sys init_marshal) = Inr s1"
    using grant_loop_effect [OF init_hw_laws, of ?b 0 16 "sys init_marshal", OF _ m(1,2) none] m(4,5)
    by (auto simp: grant_pages_def)
  have "sched_inv (SCHEDULER s1)" using grant_pages_scheduler [OF g] sched_inv_new m(3) by simp
  then obtain sch where sp: "global_spawn_thread 0x40 (?b + 16 * 4096) (SCHEDULER s1) = Inr sch"
    using global_spawn_thread_total by blast
  have "start_driver init_hw (\<lambda>_. 0x300000) \<lparr>obj_id = 1, obj_name = bytes ''a'', obj_data = replicate 64 0\<rparr> init_marshal =
      Inr (init_marshal\<lparr>sys := s1\<lparr>SCHEDULER := sch\<rparr>, current_stack_base := ?b + 0x100000\<rparr>)"
    using init_driver_loads g sp
    by (simp add: start_driver_def on_sys_def m(7) sys_spawn_process_def syscall_dispatcher_def sys_spawn_handler_def)
  then show ?thesis
    by (simp add: init_table_def a b b(1) [symmetric] l t handle_line_def)
qed


text \<open>
  C19. A configuration is read as it is written: on the lines of a file with one directive per line,
  \<open>_start\<close> performs these directives, each for exactly the given name, one after the other; for names
  that are not empty, contain no line feed and do not end in white space.
\<close>

theorem config_round_trip:
  assumes "\<forall>d \<in> set ds. directive_ok d"
  shows "line_loop P as_ptr table (str_lines (render ds)) m = run_directives P as_ptr table ds m"
  unfolding str_lines_render [OF assms] using assms
proof (induction ds arbitrary: m)
  case (Cons d ds)
  obtain k name where d: "d = (k, name)" by (cases d)
  with Cons.prems have ok: "directive_ok (k, name)" by simp
  with Cons show ?case by (simp add: d handle_directive [OF ok] cong: bindE_cong)
qed simp

theorem config_round_trip_witness:
  "render [(''driver:'', [97]), (''app:'', [98])] = scalars ''driver:a\<newline>app:b\<newline>'' \<and>
   line_loop init_hw (\<lambda>_. 5) [\<lparr>obj_id = 1, obj_name = [98], obj_data = [7]\<rparr>] (str_lines (render [(''driver:'', [97]), (''app:'', [98])]))
     init_marshal = Inr (init_marshal\<lparr>WASM_DATA_PTR := 5, WASM_DATA_LEN := 1\<rparr>)"
proof -
  have "\<forall>d \<in> set [(''driver:'', [97]), (''app:'', [98])]. directive_ok d" by (simp add: directive_ok_def whitespace_def)
  from config_round_trip [OF this, of init_hw "\<lambda>_. 5" "[\<lparr>obj_id = 1, obj_name = [98], obj_data = [7]\<rparr>]" init_marshal] show ?thesis
    by (simp add: render_def scalars_def)
qed



text \<open>
  C20. The allocator serves every valid layout: when the heap below it returns aligned blocks of the
  requested size inside of an area and takes a block back under the layout it was allocated with,
  then a block of the global allocator lies inside of the area, is as large as the program asked
  for, aligned for it and at 16 bytes, and \<open>dealloc\<close> with the program's layout gives exactly this
  block back.
\<close>

theorem aligned_alloc_serves_layout:
  assumes valid: "from_size_align (layout_size lay) (layout_align lay) = Some lay"
    and inner: "\<And>l h p h'. inner_alloc l h = (p, h') \<Longrightarrow> p \<noteq> 0 \<Longrightarrow>
      unat p mod unat (layout_align l) = 0 \<and> lo \<le> unat p \<and> unat p + unat (layout_size l) \<le> hi"
    and undo: "\<And>l h p h'. inner_alloc l h = (p, h') \<Longrightarrow> p \<noteq> 0 \<Longrightarrow> inner_dealloc p l h' = h"
    and alloc: "aligned_alloc inner_alloc lay h = (p, h')" "p \<noteq> 0"
  shows "unat p mod unat (layout_align lay) = 0 \<and> unat p mod 16 = 0 \<and> lo \<le> unat p \<and>
    unat p + unat (layout_size lay) \<le> hi \<and> aligned_dealloc inner_dealloc p lay h' = h"
proof -
  have al: "is_power_of_two (layout_align lay)" and "unat (layout_size lay) + (unat (layout_align lay) - 1) < 2 ^ 63"
    using valid by (auto simp: from_size_align_def split: if_splits)
  moreover from al have "0 < unat (layout_align lay)" by (auto simp: is_power_of_two_iff unat_power_u64)
  ultimately have sz: "unat (layout_size lay) + unat (layout_align lay) \<le> 2 ^ 63" by linarith
  define al where "al = max (unat (layout_align lay)) 16"
  define n where "n = (unat (layout_size lay) + (al - 1)) div al * al"
  have eq: "aligned_layout lay = (if n + al \<le> 2 ^ 63 then Some \<lparr>layout_size = of_nat n, layout_align = of_nat al\<rparr> else None)"
    using aligned_layout_eq [OF al sz] unfolding n_def al_def .
  from alloc have fit: "n + al \<le> 2 ^ 63" by (auto simp: aligned_alloc_def eq split: if_splits)
  let ?l = "\<lparr>layout_size = of_nat n, layout_align = of_nat al\<rparr>"
  have l: "aligned_layout lay = Some ?l" using eq fit by simp
  have run: "inner_alloc ?l h = (p, h')" using alloc(1) by (simp add: aligned_alloc_def l)
  have u: "unat (layout_size ?l) = n" "unat (layout_align ?l) = al" using fit by (simp_all add: unat_of_nat_small)
  obtain k where k: "4 \<le> k" "al = 2 ^ k"
    using max_16_power [OF al] unfolding al_def by (metis unat_power_u64)
  obtain j where j: "unat (layout_align lay) = 2 ^ j" using al by (auto simp: is_power_of_two_iff unat_power_u64)
  have "2 ^ j \<le> (2::nat) ^ k" using j k(2) unfolding al_def by (metis max.cobounded1)
  then have "unat (layout_align lay) dvd al" unfolding j k(2) by (simp add: le_imp_power_dvd)
  moreover have "(2::nat) ^ 4 dvd 2 ^ k" using k(1) by (rule le_imp_power_dvd)
  then have "16 dvd al" by (simp add: k(2))
  moreover have "al dvd unat p" "lo \<le> unat p" "unat p + n \<le> hi" using inner [OF run alloc(2)] unfolding u by auto
  moreover have "unat (layout_size lay) \<le> n"
    unfolding n_def by (rule round_up_ge) (simp add: k(2))
  moreover have "aligned_dealloc inner_dealloc p lay h' = h" using undo [OF run alloc(2)] by (simp add: aligned_dealloc_def l)
  ultimately show ?thesis by (auto intro: dvd_trans [of _ al] simp del: One_nat_def)
qed

text \<open>A heap that always hands out the block at its start, and forgets it again.\<close>

definition example_heap_alloc :: "layout \<Rightarrow> bool \<Rightarrow> u64 \<times> bool" where
  "example_heap_alloc l used =
     (if \<not> used \<and> unat (0x400000000000 :: u64) mod unat (layout_align l) = 0 \<and> layout_size l \<le> 0x1000000 then (0x400000000000, True)
      else (0, used))"

theorem aligned_alloc_serves_layout_witness:
  "aligned_alloc example_heap_alloc \<lparr>layout_size = 20, layout_align = 4\<rparr> False = (0x400000000000, True) \<and>
   unat (0x400000000000 :: u64) mod 16 = 0 \<and>
   aligned_dealloc (\<lambda>p l used. False) 0x400000000000 \<lparr>layout_size = 20, layout_align = 4\<rparr> True = False"
proof -
  let ?l = "\<lparr>layout_size = 20, layout_align = 4\<rparr>"
  have p4: "is_power_of_two 4" "is_power_of_two 16"
    by (auto simp: is_power_of_two_iff intro: exI [of _ 2] exI [of _ 4])
  have run: "aligned_alloc example_heap_alloc ?l False = (0x400000000000, True)"
    by (simp add: aligned_alloc_def aligned_layout_def from_size_align_def p4 example_heap_alloc_def max_def)
  have block: "unat p mod unat (layout_align l) = 0 \<and> 0x400000000000 \<le> unat p \<and> unat p + unat (layout_size l) \<le> 0x400001000000"
    if "example_heap_alloc l used = (p, used')" "p \<noteq> 0" for l used p used'
    using that by (auto simp: example_heap_alloc_def word_le_nat_alt split: if_splits)
  have undo: "False = used" if "example_heap_alloc l used = (p, used')" "p \<noteq> 0" for l used p used'
    using that by (auto simp: example_heap_alloc_def split: if_splits)
  have valid: "from_size_align (layout_size ?l) (layout_align ?l) = Some ?l" by (simp add: from_size_align_def p4)
  show ?thesis
    using aligned_alloc_serves_layout [where inner_dealloc = "\<lambda>p l used. False", OF valid block undo run] run by simp
qed


lemma example_fb_meta:
  "\<exists>s'. sys_map_framebuffer (syscall_dispatcher example_hw) 0 0xB0000000 example_kernel = Inr (push_bit 32 2048 OR 4, s')"
proof -
  have "map (of_nat :: nat \<Rightarrow> u64) [0..<unat (2 :: u64)] = [0, 1]" by (simp add: upt_rec)
  then show ?thesis
    by (simp add: sys_map_framebuffer_def syscall_dispatcher_def sys_map_fb_def get_framebuffer_details_def example_hw_def
        example_kernel_def saturating_sub_def mul_chk_def add_chk_def is_safe_user_ptr_def saturating_add_def map_page_def
        addressE_def flat_map_to_def Let_def)
qed


text \<open>The application stage on a screen of proper size.\<close>

lemma app_stage_runs:
  assumes F: "FB_WIDTH (marshal_screen m') = pitch div 4" "FB_HEIGHT (marshal_screen m') = height" "FB_PTR (marshal_screen m') \<noteq> 0"
    and size: "12 \<le> unat height" "unat height < 2 ^ 30" "48 \<le> unat pitch" "unat pitch < 2 ^ 32"
    and data: "read_bytes P (sys m') (WASM_DATA_PTR m') (unat (WASM_DATA_LEN m')) = Inr wasm_data"
    and app: "run_func wasm_data = Some (\<lambda>w h s. run_ui_loop (syscall_dispatcher P) rdx w h (polls s))"
    and cmd: "cmd_ok P (sys m') cmd"
  shows "\<exists>u draws ts. wasm_execution_stage P run_func cmd m' = Inr (Some (u, draws, ts)) \<and>
    desktop_inv (int (unat pitch div 4)) (int (unat height)) (desktop_of u) \<and>
    uint ` fst ` set (draw_rect (marshal_screen m') (mouse_x u) (mouse_y u) 6 6 0xFFFFFF) =
      {py * int (unat pitch div 4) + px | px py. sint (mouse_x u) \<le> px \<and> px < sint (mouse_x u) + 6 \<and>
         sint (mouse_y u) \<le> py \<and> py < sint (mouse_y u) + 6}"
proof -
  let ?F = "marshal_screen m'"
  have W: "unat (pitch div 4) = unat pitch div 4" by (simp add: unat_div)
  then have s: "sint (ucast (FB_WIDTH ?F) :: i32) = int (unat pitch div 4)" "sint (ucast (FB_HEIGHT ?F) :: i32) = int (unat height)"
    unfolding F(1,2) using size by (simp_all add: sint_ucast_small)
  have ok: "screen_ok (ucast (FB_WIDTH ?F))" "screen_ok (ucast (FB_HEIGHT ?F))"
    by (rule screen_ok_nat [OF s(1)] screen_ok_nat [OF s(2)]; use size in simp)+
  have sc: "FB_WIDTH ?F = scast (ucast (FB_WIDTH ?F) :: i32)" "FB_HEIGHT ?F = scast (ucast (FB_HEIGHT ?F) :: i32)"
    unfolding F(1,2) using size W by (simp_all add: scast_ucast_small)
  obtain s1 where t: "trace_checkpoint P cmd 0x8060 (sys m') = Inr s1"
    using trace_event_effect [OF cmd, of "0x8060"] by (auto simp: trace_event_def trace_checkpoint_def)
  obtain u draws ts where run: "run_ui_loop (syscall_dispatcher P) rdx (ucast (FB_WIDTH ?F)) (ucast (FB_HEIGHT ?F)) (polls s1) = Inr (u, draws, ts)"
    and d: "desktop_inv (int (unat pitch div 4)) (int (unat height)) (desktop_of u)"
    by (rule run_ui_loop_kernel [OF ok, of P rdx "polls s1"]) (simp add: s)
  have "wasm_execution_stage P run_func cmd m' = Inr (Some (u, draws, ts))"
    by (simp add: wasm_execution_stage_def data app t run)
  with d cursor_fully_visible [OF ok F(3) sc, of u "mouse_x u" "mouse_y u" 6 6 "0xFFFFFF"] show ?thesis
    by (simp add: s draw_cursor_def)
qed


text \<open>A framebuffer of 16 by 16 pixels, and an application without messages.\<close>

definition stage_hw :: "(flat_table, (u16 \<times> nat \<times> u32) list) hw_platform" where
  "stage_hw = example_hw\<lparr>framebuffer_response := Some [\<lparr>fb_addr = 0xFFFF800080000000, fb_width = 16, fb_height = 16, fb_pitch = 64\<rparr>]\<rparr>"

definition stage_marshal :: "(flat_table, (u16 \<times> nat \<times> u32) list, nat) marshal" where
  "stage_marshal = init_marshal\<lparr>sys := example_kernel\<rparr>"

lemma stage_hw_laws: "paging_laws stage_hw example_memmap"
proof -
  have "map_to_law stage_hw example_memmap" by (rule flat_map_to_law) (simp_all add: stage_hw_def example_hw_def)
  then show ?thesis
    using example_hw_laws by (simp add: paging_laws_def address_laws_def stage_hw_def)
qed

lemma stage_fb: "get_framebuffer_details stage_hw s = Some (saturating_sub 0xFFFF800080000000 (HHDM_OFFSET s), 16, 16, 64)"
  by (simp add: get_framebuffer_details_def stage_hw_def)

lemma stage_devices:
  "\<exists>m'. set_up_devices stage_hw 0 stage_marshal = Inr m' \<and> FB_PTR (marshal_screen m') \<noteq> 0 \<and> WASM_DATA_LEN m' = 0 \<and>
     cmd_ok stage_hw (sys m') 0x40000000"
proof -
  have s0: "sys stage_marshal = example_kernel" by (simp add: stage_marshal_def)
  have none: "address_space stage_hw example_kernel = Map.empty" by (simp add: address_space_def example_kernel_def stage_hw_def example_hw_def)
  have cdt: "CDT example_kernel = genesis_cdt" and pf: "page_floor 0x40000000 = (0x40000000 :: u64)"
    and user: "unat (0x40000000 :: u64) + 4096 < USER_TOP"
    by (simp_all add: example_kernel_def page_floor_def)
  obtain s1 k where s1: "sys_grant_shared_memory (syscall_dispatcher stage_hw) 0 0x40000000 example_kernel = Inr (Inr (), s1)"
    "s1 = example_kernel\<lparr>ALLOCATOR := ALLOCATOR s1, MAPPER := MAPPER s1\<rparr>"
    "address_space stage_hw s1 = (address_space stage_hw example_kernel)(page_floor 0x40000000 \<mapsto> (0x101000, user_flags))"
    by (rule grant_one [OF stage_hw_laws kernel_inv_mem [OF example_kernel_inv] cdt user _ example_kernel_frames]) (simp_all add: none)
  have as1: "address_space stage_hw s1 = [0x40000000 \<mapsto> (0x101000, user_flags)]" using s1(3) unfolding none pf .
  have h: "HHDM_OFFSET s1 = 0xFFFF800000000000" by (subst s1(2)) (simp add: example_kernel_def)
  define s2 where "s2 = s1\<lparr>serial := serial s1 @ str_bytes ''\<newline>[*] IOMMU: Locking down PCIe Device ID 0x'' @ hex_bytes 0x10DE @
    str_bytes ''\<newline>    -> Restricting DMA access to safe virtual region: 0x'' @ hex_bytes 0xA0000000 @
    str_bytes ''\<newline>[+] Hardware Sandboxing Applied. Device is secured.\<newline>''\<rparr>"
  have s2: "sys_iommu_lockdown (syscall_dispatcher stage_hw) 0x10DE 0xA0000000 s1 = Inr (1, s2)"
    by (simp add: sys_iommu_lockdown_def syscall_dispatcher_def sys_iommu_def is_safe_user_ptr_iff map_device_dma_def say_def speak_append s2_def)
  obtain pt where pt: "MAPPER s1 = Some pt" "pt 0x40000000 = Some (0x101000, user_flags)" "pt 0xB0000000 = None"
    using fun_cong [OF as1, of "0x40000000"] fun_cong [OF as1, of "0xB0000000"]
    by (auto simp: address_space_def stage_hw_def example_hw_def split: option.splits)
  define s3 where "s3 = s2\<lparr>MAPPER := Some (pt(0xB0000000 \<mapsto> (0x80000000, {PRESENT, WRITABLE, USER_ACCESSIBLE, NO_CACHE})))\<rparr>"
  have k: "HHDM_OFFSET s2 = 0xFFFF800000000000" "MAPPER s2 = Some pt" by (simp_all add: s2_def h pt(1))
  have hw: "phys_frame stage_hw = (\<lambda>a. Some (page_floor a))" "virt_page stage_hw = (\<lambda>a. Some (page_floor a))" "map_to stage_hw = flat_map_to"
    by (simp_all add: stage_hw_def example_hw_def)
  have "map_page stage_hw 0x80000000 0xB0000000 {PRESENT, WRITABLE, USER_ACCESSIBLE, NO_CACHE} s2 = Inr s3"
    by (simp add: map_page_def hw addressE_def k page_floor_def flat_map_to_def pt(3) s3_def)
  then have s3: "sys_map_framebuffer (syscall_dispatcher stage_hw) 0 0xB0000000 s2 = Inr (push_bit 32 64 OR 16, s3)"
    by (simp add: sys_map_framebuffer_def syscall_dispatcher_def sys_map_fb_def stage_fb k saturating_sub_def mul_chk_def add_chk_def
        is_safe_user_ptr_iff)
  have up: "set_up_devices stage_hw 0 stage_marshal = Inr (stage_marshal\<lparr>sys := s3, marshal_screen := set_screen (push_bit 32 64 OR 16) screen_new\<rparr>)"
    using s1(1) s2 s3 by (simp add: set_up_devices_def s0) (simp add: stage_marshal_def init_marshal_def)
  have "cmd_ok stage_hw s3 0x40000000"
    using pt(2) pf by (simp add: cmd_ok_def is_safe_user_ptr_iff address_space_def s3_def stage_hw_def example_hw_def)
  with up show ?thesis
    by (intro exI conjI) (assumption, simp_all add: set_screen_def stage_marshal_def init_marshal_def)
qed


end
