(* ===== verification/User_Heap.thy ===== *)
theory User_Heap
  imports Marshal
begin

text \<open>
  The memory that user programs set up for themselves: the heap and the application stack of the Marshal
  (\<^verbatim>\<open>userland/marshal/src/main.rs\<close>, modelled in theory \<open>Marshal\<close>) and the heap of the library
  (\<^verbatim>\<open>userland/libs/libstardust/src/allocator.rs\<close>, which the crate does not compile in: \<^verbatim>\<open>lib.rs\<close> has no
  such module).  The lemmas show that the kernel's grants make these regions usable.
\<close>

section \<open>Model: the heap of the library\<close>

definition lib_HEAP_START :: u64 where "lib_HEAP_START = 0x0000400000000000"
definition lib_HEAP_SIZE :: u64 where "lib_HEAP_SIZE = 64 * 1024"

fun lib_heap_loop :: "('pt, 'dev) hw_platform \<Rightarrow> u64 list \<Rightarrow> ('pt, 'dev) kernel \<Rightarrow> ('pt, 'dev) kernel res" where
  "lib_heap_loop P [] s = Inr s"
| "lib_heap_loop P (i # is) s =
     (let vaddr = lib_HEAP_START + i * 4096 in
      bindE (sys_grant_shared_memory (syscall_dispatcher P) 0 vaddr s) (\<lambda>(r, s).
      case r of
        Inl _ \<Rightarrow> Inl (Explicit_Panic ''FATAL: Kernel refused to grant heap memory to Userland!'')
      | Inr _ \<Rightarrow> lib_heap_loop P is s))"

definition lib_init_heap :: "('pt, 'dev) hw_platform \<Rightarrow> (u64 \<Rightarrow> u64 \<Rightarrow> 'h \<Rightarrow> 'h) \<Rightarrow> 'h \<Rightarrow> ('pt, 'dev) kernel \<Rightarrow>
    ('h \<times> ('pt, 'dev) kernel) res" where
  "lib_init_heap P inner_init h s =
     (let pages = lib_HEAP_SIZE div 4096 in
      bindE (lib_heap_loop P (map of_nat [0..<unat pages]) s) (\<lambda>s.
      Inr (inner_init lib_HEAP_START lib_HEAP_SIZE h, s)))"

section \<open>Model: entering the application stage\<close>

text \<open>
  \<^verbatim>\<open>mov rsp, {0}\<close> and \<^verbatim>\<open>call {1}\<close>: the return address (behind the call, never used) is pushed on the
  new stack.  The result is the stack pointer at the first instruction of \<open>wasm_execution_stage\<close>.
\<close>

definition enter_stage :: "('pt, 'dev) hw_platform \<Rightarrow> u64 \<Rightarrow> u64 \<Rightarrow> ('pt, 'dev) kernel \<Rightarrow> (u64 \<times> ('pt, 'dev) kernel) res" where
  "enter_stage P return_address deep_stack_aligned s =
     (let rsp = deep_stack_aligned - 8 in
      bindE (write_bytes P rsp (u64_bytes return_address) s) (\<lambda>s. Inr (rsp, s)))"

text \<open>The panic handler of the Marshal, up to its endless loop.\<close>

definition marshal_panic :: "('pt, 'dev) hw_platform \<Rightarrow> u64 \<Rightarrow> ('pt, 'dev) kernel \<Rightarrow> ('pt, 'dev) kernel res" where
  "marshal_panic P cmd s = trace_checkpoint P cmd 0xDEADBEEF s"

section \<open>Regions\<close>

text \<open>A range of user pages that is not mapped yet, and frames for it.\<close>

definition region_free :: "('pt, 'dev) hw_platform \<Rightarrow> mem_entry list \<Rightarrow> u64 \<Rightarrow> u64 \<Rightarrow> ('pt, 'dev) kernel \<Rightarrow> bool" where
  "region_free P entries v len s \<longleftrightarrow>
     mem_inv entries s \<and> CDT s = genesis_cdt \<and> distinct (free_frames entries s) \<and>
     4 * (unat len div 4096) \<le> length (free_frames entries s) \<and>
     (\<forall>j < unat len div 4096. address_space P s (page_at v j) = None)"

text \<open>
  The region is usable: every byte reads as 0 from a frame that is no longer free, and nothing else of
  the process changed; at most four frames were used for each page.
\<close>

definition region_ready :: "('pt, 'dev) hw_platform \<Rightarrow> mem_entry list \<Rightarrow> u64 \<Rightarrow> u64 \<Rightarrow> ('pt, 'dev) kernel \<Rightarrow> ('pt, 'dev) kernel \<Rightarrow> bool" where
  "region_ready P entries v len s s' \<longleftrightarrow>
     mem_inv entries s' \<and> (\<forall>i < unat len. read_byte P s' (v + of_nat i) = Inr 0 \<and> settled P entries s' (v + of_nat i)) \<and>
     undisturbed P entries s s' \<and>
     (\<forall>pg. (\<forall>j < unat len div 4096. pg \<noteq> page_at v j) \<longrightarrow> address_space P s' pg = address_space P s pg) \<and>
     (\<exists>k \<le> 4 * (unat len div 4096). free_frames entries s' = drop k (free_frames entries s)) \<and>
     CDT s' = CDT s \<and> SCHEDULER s' = SCHEDULER s"

definition page_range :: "u64 \<Rightarrow> u64 \<Rightarrow> bool" where
  "page_range v len \<longleftrightarrow> unat v mod 4096 = 0 \<and> unat len mod 4096 = 0 \<and> 4096 \<le> unat v \<and> unat v + unat len + 8192 < USER_TOP"

text \<open>Granting and clearing a region is loading a segment that has no file bytes.\<close>

lemma grant_and_clear:
  assumes laws: "paging_laws P entries" and range: "page_range v len" and free: "region_free P entries v len s"
  obtains s1 s' where "grant_pages P v (len div 4096) s = Inr s1" "user_memset P v 0 len s1 = Inr s'"
    "region_ready P entries v len s s'"
proof -
  define ph where "ph = \<lparr>p_type = 1, p_offset = 1, p_vaddr = v, p_filesz = 0, p_memsz = len\<rparr>"
  have ph [simp]: "p_offset ph = 1" "p_vaddr ph = v" "p_filesz ph = 0" "p_memsz ph = len" by (simp_all add: ph_def)
  have floor: "page_floor v = v" using range by (simp add: page_range_def page_floor_aligned)
  have fits: "user_fits 0 ph" using range by (intro aligned_user_fits) (simp_all add: page_range_def)
  obtain k where k: "unat len = 4096 * k" using range by (auto simp: page_range_def mod_eq_0_iff_dvd)
  then have pages: "pages_of v len = k" using fits by (simp add: user_fits_def)
  have ok: "segment_ok P entries 0 0 s ph"
    using range free floor k by (auto simp: segment_ok_def page_range_def region_free_def seg_pages_def pages)
  have free': "mem_inv entries s" "distinct (free_frames entries s)" "CDT s = genesis_cdt"
    "4 * pages_of (p_vaddr ph) (p_memsz ph) \<le> length (free_frames entries s)"
    using free k by (simp_all add: region_free_def pages)
  obtain s' fs where s': "user_load_segment P 0 ph s = Inr s'" "segment_loaded P entries 0 0 ph fs s s'"
    using user_load_segment_effect [OF laws free'(1-3) fits ok free'(4)] by blast
  have "page_floor 0 = 0" by (simp add: page_floor_def)
  note step = segment_loaded_step [OF s'(2) ok this]
  have unat_pages: "(len + 4095) div 4096 = len div 4096"
  proof -
    have "unat (len + 4095) = unat len + 4095" using range unat_add_no_overflow [of len 4095] by (simp add: page_range_def)
    then show ?thesis using k by (simp add: word_unat_eq_iff unat_div)
  qed
  obtain s1 where s1: "grant_pages P v (len div 4096) s = Inr s1" "fill_segment P v 1 0 len s1 = Inr s'"
    using s'(1) by (auto simp: user_load_segment_def unat_pages res_simps)
  have "user_memset P v 0 len s1 = Inr s'"
    using s1(2) by (simp add: fill_segment_def user_memset_def word_less_nat_alt split: if_splits)
  moreover have "CDT s' = CDT s" "SCHEDULER s' = SCHEDULER s" by (subst step(5), simp)+
  moreover have "region_ready P entries v len s s'"
    using step(1-4) calculation s'(2) floor k
    by (auto simp: region_ready_def segment_in_place_def segment_loaded_def seg_pages_def pages)
  ultimately show ?thesis using s1(1) that by blast
qed

lemma page_ranges:
  "page_range HEAP_START HEAP_SIZE" "page_range deep_stack_base deep_stack_size" "page_range lib_HEAP_START lib_HEAP_SIZE"
  by (simp_all add: page_range_def HEAP_START_def HEAP_SIZE_def deep_stack_base_def deep_stack_size_def lib_HEAP_START_def
      lib_HEAP_SIZE_def)

text \<open>A ready region can be written.\<close>

lemma region_ready_write:
  assumes "region_ready P entries v len s s'" "n + length bs \<le> unat len"
  shows "\<exists>t. write_bytes P (v + of_nat n) bs s' = Inr t"
proof -
  have "translate P s' (v + of_nat n + of_nat i) \<noteq> None" if "i < length bs" for i
  proof -
    have "n + i < unat len" using that assms(2) by simp
    then have "settled P entries s' (v + of_nat (n + i))" using assms(1) unfolding region_ready_def by blast
    then show ?thesis by (auto simp: settled_def add.assoc)
  qed
  then show ?thesis using write_bytes_poke [of bs P s' "v + of_nat n"] by auto
qed

lemma init_heap_ready:
  assumes "paging_laws P entries" "region_free P entries HEAP_START HEAP_SIZE (sys m)"
  shows "\<exists>s'. init_heap P inner_init m = Inr (m\<lparr>sys := s', heap := inner_init HEAP_START HEAP_SIZE (heap m)\<rparr>) \<and>
    region_ready P entries HEAP_START HEAP_SIZE (sys m) s'"
  by (rule grant_and_clear [OF assms(1) page_ranges(1) assms(2)]) (auto simp: init_heap_def on_sys_def)

lemma set_up_stack_ready:
  assumes "paging_laws P entries" "region_free P entries deep_stack_base deep_stack_size (sys m)"
  shows "\<exists>s'. set_up_stack P m = Inr (deep_stack_base + deep_stack_size, m\<lparr>sys := s'\<rparr>) \<and>
    region_ready P entries deep_stack_base deep_stack_size (sys m) s'"
  by (rule grant_and_clear [OF assms(1) page_ranges(2) assms(2)])
    (auto simp: set_up_stack_def on_sys_def deep_stack_base_def deep_stack_size_def)

section \<open>The heap of the library\<close>

text \<open>The check of the result never fails, as the addresses are in user space: the loop is the plain grant loop.\<close>

lemma lib_heap_loop_grants:
  assumes "\<forall>i \<in> set is. unat (lib_HEAP_START + i * 4096) + 4096 < USER_TOP"
  shows "lib_heap_loop P is s = grant_loop P lib_HEAP_START is s"
  using assms
proof (induction "is" arbitrary: s)
  case (Cons i "is")
  have safe: "is_safe_user_ptr (lib_HEAP_START + i * 4096) 4096" using Cons.prems by (simp add: is_safe_user_ptr_iff)
  show ?case
  proof (cases "sys_grant_shared_memory (syscall_dispatcher P) 0 (lib_HEAP_START + i * 4096) s")
    case (Inr r)
    then have "fst r = Inr ()" using grant_result_only_checks_address [of P 0 _ s "fst r" "snd r"] safe by simp
    with Inr Cons show ?thesis by (cases r) simp
  qed simp
qed simp

lemma lib_init_heap_grants:
  "lib_init_heap P inner_init h s =
     bindE (grant_pages P lib_HEAP_START (lib_HEAP_SIZE div 4096) s) (\<lambda>s. Inr (inner_init lib_HEAP_START lib_HEAP_SIZE h, s))"
proof -
  have "unat (lib_HEAP_START + i * 4096) + 4096 < USER_TOP" if "i \<in> set (map of_nat [0..<16])" for i
  proof -
    from that obtain k where "k < 16" "i = of_nat k" by auto
    then show ?thesis using page_floor_step(2) [of lib_HEAP_START k] by (simp add: lib_HEAP_START_def)
  qed
  then show ?thesis
    using lib_heap_loop_grants [of "map of_nat [0..<16]" P s] by (simp add: lib_init_heap_def grant_pages_def lib_HEAP_SIZE_def)
qed

lemma granted_mapped:
  assumes "granted P entries lo fs s s'"
  shows "distinct fs" "\<forall>j < length fs. address_space P s' (page_at lo j) = Some (fs ! j, user_flags)"
proof -
  have "address_space P (s'\<lparr>phys_mem := x\<rparr>) = address_space P s'" for x by (simp add: address_space_def)
  with assms show "distinct fs" "\<forall>j < length fs. address_space P s' (page_at lo j) = Some (fs ! j, user_flags)"
    by (simp_all add: granted_def fresh_mapping_def)
qed

lemma lib_heap_mapped:
  assumes "paging_laws P entries" "region_free P entries lib_HEAP_START lib_HEAP_SIZE s"
  shows "\<exists>s' fs. lib_init_heap P inner_init h s = Inr (inner_init lib_HEAP_START lib_HEAP_SIZE h, s') \<and> distinct fs \<and> length fs = 16 \<and>
    (\<forall>j < 16. address_space P s' (page_at lib_HEAP_START j) = Some (fs ! j, user_flags))"
proof -
  have lo: "page_at (page_floor lib_HEAP_START) j = page_at lib_HEAP_START j" for j
    by (simp add: lib_HEAP_START_def page_floor_def)
  have free: "mem_inv entries s" "CDT s = genesis_cdt" "distinct (free_frames entries s)" "4 * 16 \<le> length (free_frames entries s)"
    using assms(2) by (simp_all add: region_free_def lib_HEAP_SIZE_def)
  have none: "address_space P s (page_at (page_floor lib_HEAP_START) (0 + j)) = None" if "j < 16" for j
    using assms(2) that unfolding lo by (simp add: region_free_def lib_HEAP_SIZE_def)
  have top: "unat lib_HEAP_START + 4096 * (0 + 16) < USER_TOP" by (simp add: lib_HEAP_START_def)
  obtain s' fs where "grant_loop P lib_HEAP_START (map of_nat [0..<0 + 16]) s = Inr s'" "length fs = 16"
    "granted P entries (page_at (page_floor lib_HEAP_START) 0) fs s s'"
    using grant_loop_effect [OF assms(1) top free(1,2) none free(4,3)] by auto
  moreover from this(3) have "granted P entries lib_HEAP_START fs s s'" unfolding lo by (simp add: page_at_def)
  note granted_mapped [OF this]
  ultimately show ?thesis by (auto simp: lib_init_heap_grants grant_pages_def lib_HEAP_SIZE_def)
qed

section \<open>Examples\<close>

text \<open>A machine with 128 MiB of memory and an empty address space.\<close>

definition large_memmap :: "mem_entry list" where
  "large_memmap = [\<lparr>base = 0x1000000, region_length = 0x8000000, usable = True\<rparr>]"

definition large_hw :: "(flat_table, (u16 \<times> nat \<times> u32) list) hw_platform" where
  "large_hw = example_hw\<lparr>memmap_response := Some large_memmap\<rparr>"

definition large_kernel :: "(flat_table, (u16 \<times> nat \<times> u32) list) kernel" where
  "large_kernel = example_kernel\<lparr>MAPPER := Some Map.empty\<rparr>"

lemma large_hw_laws: "paging_laws large_hw large_memmap"
proof -
  have "map_to_law large_hw large_memmap"
    by (rule flat_map_to_law) (simp_all add: large_hw_def example_hw_def)
  then show ?thesis
    by (simp add: paging_laws_def address_laws_def large_hw_def example_hw_def)
      (simp add: large_memmap_def entry_end_def)
qed

lemma large_region_free:
  assumes "unat len div 4096 \<le> 4096"
  shows "region_free large_hw large_memmap v len large_kernel"
proof -
  have wf: "wf_memmap large_memmap" by (simp add: wf_memmap_def large_memmap_def entry_end_def)
  have f: "free_frames large_memmap large_kernel = all_frames large_memmap"
    by (simp add: large_kernel_def example_kernel_def frames_left_new)
  have "length (all_frames large_memmap) = 32768"
    by (simp add: all_frames_def large_memmap_def entry_frames_def entry_end_def region_frames_def del: upt_rec_numeral upt_Suc)
  moreover have "distinct (all_frames large_memmap)"
    by (rule distinct_all_frames [OF wf]) (simp add: disjoint_memmap_def large_memmap_def)
  moreover have "mem_inv large_memmap large_kernel" "CDT large_kernel = genesis_cdt"
    "address_space large_hw large_kernel = Map.empty"
    by (simp_all add: mem_inv_def large_kernel_def example_kernel_def fa_inv_new wf address_space_def large_hw_def example_hw_def)
  ultimately show ?thesis unfolding region_free_def f using assms by simp
qed

section \<open>Properties\<close>

text \<open>
  C17. The memory of the Marshal is ready: while their pages are unmapped and there are enough frames,
  \<open>init_heap\<close> leaves 16 MiB of mapped zeros for the allocator at \<open>HEAP_START\<close>, and the stack of the
  application stage is 16 MiB of mapped zeros below the stack pointer that is passed on.  No other page
  is mapped or unmapped and no other byte of the process changes.  The call of the stage then finds room
  for its return address and leaves the stack pointer as the calling convention demands, 8 bytes below a
  multiple of 16.
\<close>

theorem marshal_memory_ready:
  assumes "paging_laws P entries" and "region_free P entries HEAP_START HEAP_SIZE (sys m)"
    and "region_free P entries deep_stack_base deep_stack_size (sys m')"
  shows "(\<exists>s. init_heap P inner_init m = Inr (m\<lparr>sys := s, heap := inner_init HEAP_START HEAP_SIZE (heap m)\<rparr>) \<and>
      region_ready P entries HEAP_START HEAP_SIZE (sys m) s) \<and>
    (\<exists>s top rsp t. set_up_stack P m' = Inr (top, m'\<lparr>sys := s\<rparr>) \<and> top = deep_stack_base + deep_stack_size \<and>
      region_ready P entries deep_stack_base deep_stack_size (sys m') s \<and>
      enter_stage P ret top s = Inr (rsp, t) \<and> rsp = top - 8 \<and> unat rsp mod 16 = 8)"
proof -
  obtain s where s: "set_up_stack P m' = Inr (deep_stack_base + deep_stack_size, m'\<lparr>sys := s\<rparr>)"
    "region_ready P entries deep_stack_base deep_stack_size (sys m') s"
    using set_up_stack_ready [OF assms(1,3)] by blast
  have cell: "deep_stack_base + deep_stack_size - 8 = deep_stack_base + of_nat 0xFFFFF8"
    by (simp add: deep_stack_base_def deep_stack_size_def)
  obtain t where t: "write_bytes P (deep_stack_base + deep_stack_size - 8) (u64_bytes ret) s = Inr t"
    using region_ready_write [OF s(2), of "0xFFFFF8" "u64_bytes ret"] unfolding cell
    by (auto simp: u64_bytes_def deep_stack_size_def)
  have "unat (deep_stack_base + deep_stack_size - 8) mod 16 = 8" by (simp add: deep_stack_base_def deep_stack_size_def)
  then show ?thesis
    using t s
    by (intro conjI init_heap_ready [OF assms(1,2)] exI [of _ s] exI [of _ "deep_stack_base + deep_stack_size"]
        exI [of _ "deep_stack_base + deep_stack_size - 8"] exI [of _ t]) (simp_all add: enter_stage_def Let_def)
qed

theorem marshal_memory_ready_witness:
  "\<exists>s top rsp t.
     init_heap large_hw (\<lambda>start len h. unat len) (init_marshal\<lparr>sys := large_kernel\<rparr>) = Inr (init_marshal\<lparr>sys := s, heap := 0x1000000\<rparr>) \<and>
     read_byte large_hw s (HEAP_START + of_nat 0xFFFFFF) = Inr 0 \<and>
     (\<exists>s. set_up_stack large_hw (init_marshal\<lparr>sys := large_kernel\<rparr>) = Inr (top, init_marshal\<lparr>sys := s\<rparr>) \<and>
       enter_stage large_hw 0x1234 top s = Inr (rsp, t) \<and> unat rsp mod 16 = 8)"
proof -
  let ?m = "init_marshal\<lparr>sys := large_kernel\<rparr>"
  have free: "region_free large_hw large_memmap HEAP_START HEAP_SIZE (sys ?m)"
    "region_free large_hw large_memmap deep_stack_base deep_stack_size (sys ?m)"
    using large_region_free [of HEAP_SIZE HEAP_START] large_region_free [of deep_stack_size deep_stack_base]
    by (simp_all add: HEAP_SIZE_def deep_stack_size_def)
  have len: "unat HEAP_SIZE = 0x1000000" by (simp add: HEAP_SIZE_def)
  have last: "read_byte large_hw s (HEAP_START + of_nat 0xFFFFFF) = Inr 0"
    if "region_ready large_hw large_memmap HEAP_START HEAP_SIZE t s" for s t
    using that [unfolded region_ready_def len] by (elim conjE allE [of _ "0xFFFFFF"]) simp
  from marshal_memory_ready [OF large_hw_laws free, of "\<lambda>start len h. unat len" "0x1234"] obtain s s2 top rsp t where
    "init_heap large_hw (\<lambda>start len h. unat len) ?m = Inr (?m\<lparr>sys := s, heap := unat HEAP_SIZE\<rparr>)"
    "region_ready large_hw large_memmap HEAP_START HEAP_SIZE (sys ?m) s"
    "set_up_stack large_hw ?m = Inr (top, ?m\<lparr>sys := s2\<rparr>)" "enter_stage large_hw 0x1234 top s2 = Inr (rsp, t)" "unat rsp mod 16 = 8"
    by blast
  then show ?thesis using last len by (intro exI [of _ s] exI [of _ top] exI [of _ rsp] exI [of _ t]) auto
qed

text \<open>
  The library's heap is never refused: the result of the grant call that \<open>init_heap\<close> checks is an
  error only for addresses outside user space, so that it panics exactly when the kernel does, and the
  message about refused memory is never shown.  With frames left it succeeds and all 16 pages of the
  heap are mapped, to different frames.
\<close>

theorem library_heap_never_refused:
  "lib_init_heap P inner_init h s =
     bindE (grant_pages P lib_HEAP_START (lib_HEAP_SIZE div 4096) s) (\<lambda>s. Inr (inner_init lib_HEAP_START lib_HEAP_SIZE h, s)) \<and>
   (paging_laws P entries \<and> region_free P entries lib_HEAP_START lib_HEAP_SIZE s \<longrightarrow>
     (\<exists>s' fs. lib_init_heap P inner_init h s = Inr (inner_init lib_HEAP_START lib_HEAP_SIZE h, s') \<and> distinct fs \<and> length fs = 16 \<and>
       (\<forall>j < 16. address_space P s' (page_at lib_HEAP_START j) = Some (fs ! j, user_flags))))"
  using lib_heap_mapped [of P entries s inner_init h] lib_init_heap_grants [of P inner_init h s] by blast

theorem library_heap_never_refused_witness:
  "\<exists>s'. lib_init_heap large_hw (\<lambda>start len h. unat len) 0 large_kernel = Inr (0x10000, s') \<and>
     address_space large_hw s' (page_at lib_HEAP_START 15) \<noteq> None"
proof -
  have "region_free large_hw large_memmap lib_HEAP_START lib_HEAP_SIZE large_kernel"
    by (rule large_region_free) (simp add: lib_HEAP_SIZE_def)
  with library_heap_never_refused [of large_hw "\<lambda>start len h. unat len" 0 large_kernel large_memmap] large_hw_laws
  obtain s' fs where s': "lib_init_heap large_hw (\<lambda>start len h. unat len) 0 large_kernel = Inr (unat lib_HEAP_SIZE, s')"
    "\<forall>j < 16. address_space large_hw s' (page_at lib_HEAP_START j) = Some (fs ! j, user_flags)" by blast
  have "address_space large_hw s' (page_at lib_HEAP_START 15) = Some (fs ! 15, user_flags)"
    by (rule s'(2) [rule_format]) simp
  then show ?thesis using s'(1) by (simp add: lib_HEAP_SIZE_def)
qed

end
