(* ===== verification/Driver_Start.thy ===== *)
theory Driver_Start
  imports User_Heap
begin

text \<open>
  That the init protocol of the Marshal succeeds: theory \<open>Marshal\<close> shows what it has done when it
  returns; here it does return and starts every driver that \<^verbatim>\<open>init.rc\<close> names, if their images are valid,
  the pages they and their stacks need are free and different, and there are enough frames.

  \<open>startable\<close> collects these conditions for a list of drivers, \<open>started\<close> what starting them achieves;
  both are composed along the loops of the protocol.  The images are described by functions: \<open>H\<close> gives
  the header and \<open>Q\<close> the program headers of a driver.
\<close>

section \<open>What drivers need\<close>

definition driver_ok :: "('pt, 'dev) hw_platform \<Rightarrow> mem_entry list \<Rightarrow> (tar_object \<Rightarrow> u64) \<Rightarrow> (tar_object \<Rightarrow> elf64_header) \<Rightarrow>
    (tar_object \<Rightarrow> elf64_phdr list) \<Rightarrow> ('pt, 'dev) kernel \<Rightarrow> tar_object \<Rightarrow> bool" where
  "driver_ok P entries as_ptr H Q s d \<longleftrightarrow>
     image_ok P entries (as_ptr d) (H d) (Q d) s \<and> e_phentsize (H d) = 56 \<and> relocation (e_entry (H d)) = 0 \<and>
     64 \<le> length (obj_data d) \<and> length (obj_data d) < 2 ^ 64 \<and> (\<forall>ph \<in> set (Q d). loadable ph \<longrightarrow> user_fits 0 ph)"

definition image_pages :: "elf64_phdr list \<Rightarrow> u64 set" where
  "image_pages phs = (\<Union>ph \<in> {ph \<in> set phs. loadable ph}. seg_pages 0 ph)"

definition stack_pages :: "u64 \<Rightarrow> u64 set" where
  "stack_pages b = page_at b ` {..<16}"

text \<open>The sets of pages that starting the drivers takes, in order; \<open>b\<close> is the base of the first stack.\<close>

fun claims :: "(tar_object \<Rightarrow> elf64_phdr list) \<Rightarrow> u64 \<Rightarrow> tar_object list \<Rightarrow> u64 set list" where
  "claims Q b [] = []"
| "claims Q b (d # ds) = image_pages (Q d) # stack_pages b # claims Q (b + 0x100000) ds"

fun disjoint_list :: "'a set list \<Rightarrow> bool" where
  "disjoint_list [] \<longleftrightarrow> True"
| "disjoint_list (A # As) \<longleftrightarrow> list_all (\<lambda>B. A \<inter> B = {}) As \<and> disjoint_list As"

definition frames_needed :: "(tar_object \<Rightarrow> elf64_phdr list) \<Rightarrow> tar_object list \<Rightarrow> nat" where
  "frames_needed Q ds = 4 * (\<Sum>d\<leftarrow>ds. pages_needed (Q d) + 16)"

definition startable :: "('pt, 'dev) hw_platform \<Rightarrow> mem_entry list \<Rightarrow> (tar_object \<Rightarrow> u64) \<Rightarrow> (tar_object \<Rightarrow> elf64_header) \<Rightarrow>
    (tar_object \<Rightarrow> elf64_phdr list) \<Rightarrow> u64 \<Rightarrow> tar_object list \<Rightarrow> ('pt, 'dev) kernel \<Rightarrow> bool" where
  "startable P entries as_ptr H Q b ds s \<longleftrightarrow>
     mem_inv entries s \<and> CDT s = genesis_cdt \<and> distinct (free_frames entries s) \<and> sched_inv (SCHEDULER s) \<and>
     (\<forall>d \<in> set ds. driver_ok P entries as_ptr H Q s d) \<and> disjoint_list (claims Q b ds) \<and>
     (\<forall>pg \<in> \<Union>(set (claims Q b ds)). address_space P s pg = None) \<and>
     frames_needed Q ds \<le> length (free_frames entries s) \<and>
     unat b mod 4096 = 0 \<and> unat b + 0x100000 * length ds < USER_TOP"

definition started :: "('pt, 'dev) hw_platform \<Rightarrow> mem_entry list \<Rightarrow> (tar_object \<Rightarrow> u64) \<Rightarrow> (tar_object \<Rightarrow> elf64_header) \<Rightarrow>
    (tar_object \<Rightarrow> elf64_phdr list) \<Rightarrow> tar_object list \<Rightarrow> tar_object list \<Rightarrow> ('pt, 'dev, 'h) marshal \<Rightarrow> ('pt, 'dev, 'h) marshal \<Rightarrow> bool" where
  "started P entries as_ptr H Q ds apps m m' \<longleftrightarrow>
     protocol_effect as_ptr (map (\<lambda>d. (d, e_entry (H d))) ds) apps m m' \<and>
     heap m' = heap m \<and> mem_inv entries (sys m') \<and> CDT (sys m') = CDT (sys m) \<and> undisturbed P entries (sys m) (sys m') \<and>
     (\<forall>d \<in> set ds. \<forall>ph \<in> set (Q d). loadable ph \<longrightarrow> segment_in_place P entries (as_ptr d) 0 ph (sys m) (sys m')) \<and>
     (\<forall>pg. pg \<notin> \<Union>(set (claims Q (current_stack_base m) ds)) \<longrightarrow> address_space P (sys m') pg = address_space P (sys m) pg) \<and>
     (\<exists>k \<le> frames_needed Q ds. free_frames entries (sys m') = drop k (free_frames entries (sys m)))"

lemma claims_append: "claims Q b (ds @ es) = claims Q b ds @ claims Q (b + of_nat (length ds) * 0x100000) es"
  by (induction ds arbitrary: b) (simp_all add: algebra_simps)

lemma disjoint_list_append:
  "disjoint_list (As @ Bs) \<longleftrightarrow> disjoint_list As \<and> disjoint_list Bs \<and> (\<forall>A \<in> set As. \<forall>B \<in> set Bs. A \<inter> B = {})"
  by (induction As) (auto simp: list_all_iff)

lemma frames_needed_append: "frames_needed Q (ds @ es) = frames_needed Q ds + frames_needed Q es"
  by (simp add: frames_needed_def)

lemma image_claimed: "d \<in> set ds \<Longrightarrow> image_pages (Q d) \<in> set (claims Q b ds)"
  by (induction ds arbitrary: b) auto

text \<open>The conditions are kept when memory in use and the pages concerned are, and frames are left.\<close>

lemma startable_kept:
  assumes st: "startable P entries as_ptr H Q b ds s"
    and s': "mem_inv entries s'" "CDT s' = CDT s" "sched_inv (SCHEDULER s')" "undisturbed P entries s s'"
    and same: "\<And>B pg. B \<in> set (claims Q b ds) \<Longrightarrow> pg \<in> B \<Longrightarrow> address_space P s' pg = address_space P s pg"
    and free: "free_frames entries s' = drop k (free_frames entries s)" "frames_needed Q ds + k \<le> length (free_frames entries s)"
  shows "startable P entries as_ptr H Q b ds s'"
proof -
  have S: "mem_inv entries s" "CDT s = genesis_cdt" "distinct (free_frames entries s)"
    "\<And>d. d \<in> set ds \<Longrightarrow> driver_ok P entries as_ptr H Q s d" "disjoint_list (claims Q b ds)"
    "\<And>pg B. B \<in> set (claims Q b ds) \<Longrightarrow> pg \<in> B \<Longrightarrow> address_space P s pg = None"
    "unat b mod 4096 = 0" "unat b + 0x100000 * length ds < USER_TOP"
    using st unfolding startable_def by simp_all
  have left: "frames_needed Q ds \<le> length (free_frames entries s')" using free by simp
  have "driver_ok P entries as_ptr H Q s' d" if d: "d \<in> set ds" for d
  proof -
    note D = S(4) [OF d, unfolded driver_ok_def]
    have "pages_needed (Q d) + 16 \<le> (\<Sum>d\<leftarrow>ds. pages_needed (Q d) + 16)"
      by (rule member_le_sum_list) (use d in simp_all)
    then have "4 * pages_needed (Q d) \<le> length (free_frames entries s')" using left by (simp add: frames_needed_def)
    moreover have "address_space P s' pg = address_space P s pg" if "ph \<in> set (Q d)" "loadable ph" "pg \<in> seg_pages 0 ph" for ph pg
      by (rule same [OF image_claimed [OF d]]) (use that in \<open>auto simp: image_pages_def\<close>)
    ultimately have "image_ok P entries (as_ptr d) (H d) (Q d) s'"
      using D by (intro image_ok_later [OF _ S(1) s'(4)]) simp_all
    then show ?thesis using D unfolding driver_ok_def by simp
  qed
  moreover have "\<forall>pg \<in> \<Union>(set (claims Q b ds)). address_space P s' pg = None" using S(6) same by auto
  moreover have "distinct (free_frames entries s')" using S(3) free(1) by simp
  ultimately show ?thesis
    unfolding startable_def using s' S(2,5,7,8) left by simp
qed

lemma startable_suffix:
  assumes "startable P entries as_ptr H Q b (ds @ es) s"
  shows "startable P entries as_ptr H Q (b + of_nat (length ds) * 0x100000) es s"
proof -
  let ?b = "b + of_nat (length ds) * 0x100000"
  have S: "unat b + 0x100000 * length ds + 0x100000 * length es < USER_TOP" "unat b mod 4096 = 0"
    using assms by (simp_all add: startable_def)
  have "unat (of_nat (length ds) * 0x100000 :: u64) = 0x100000 * length ds"
    using S(1) unat_of_nat_small [of "0x100000 * length ds", where 'w = 64] by (simp add: mult.commute)
  then have base: "unat ?b = unat b + 0x100000 * length ds"
    using S(1) unat_add_no_overflow [of b "of_nat (length ds) * 0x100000"] by simp
  have "(unat b + 4096 * (256 * length ds)) mod 4096 = 0" using S(2) by (simp only: mod_mult_self2)
  then have "unat ?b mod 4096 = 0" by (simp add: base)
  then show ?thesis
    using assms by (auto simp: startable_def claims_append disjoint_list_append frames_needed_append base)
qed

lemma startable_prefix: "startable P entries as_ptr H Q b (ds @ es) s \<Longrightarrow> startable P entries as_ptr H Q b ds s"
  by (auto simp: startable_def claims_append disjoint_list_append frames_needed_append)

text \<open>Conditions survive the start of other drivers.\<close>

lemma startable_later:
  assumes st: "startable P entries as_ptr H Q (current_stack_base m) (ds @ es) (sys m)"
    and run: "started P entries as_ptr H Q ds apps m m'"
  shows "startable P entries as_ptr H Q (current_stack_base m') es (sys m')"
proof -
  let ?b = "current_stack_base m" and ?b' = "current_stack_base m'" and ?s = "sys m" and ?s' = "sys m'"
  have R: "protocol_effect as_ptr (map (\<lambda>d. (d, e_entry (H d))) ds) apps m m'" "mem_inv entries ?s'" "CDT ?s' = CDT ?s"
    "undisturbed P entries ?s ?s'"
    "\<And>pg. pg \<notin> \<Union>(set (claims Q ?b ds)) \<Longrightarrow> address_space P ?s' pg = address_space P ?s pg"
    using run unfolding started_def by blast+
  obtain k where k: "k \<le> frames_needed Q ds" "free_frames entries ?s' = drop k (free_frames entries ?s)"
    using run unfolding started_def by blast
  have b': "?b' = ?b + of_nat (length ds) * 0x100000" using R(1) by (simp add: protocol_effect_def)
  have S: "disjoint_list (claims Q ?b (ds @ es))" "frames_needed Q (ds @ es) \<le> length (free_frames entries ?s)"
    using st by (simp_all add: startable_def)
  have apart: "\<forall>A \<in> set (claims Q ?b ds). \<forall>B \<in> set (claims Q ?b' es). A \<inter> B = {}"
    using S(1) by (simp add: claims_append disjoint_list_append b')
  show ?thesis
  proof (rule startable_kept [OF startable_suffix [OF st, folded b'] R(2,3) protocol_effect_inv [OF R(1)] R(4) _ k(2)])
    show "address_space P ?s' pg = address_space P ?s pg" if "B \<in> set (claims Q ?b' es)" "pg \<in> B" for B pg
      by (rule R(5)) (use apart that in blast)
    show "frames_needed Q es + k \<le> length (free_frames entries ?s)" using S(2) k(1) by (simp add: frames_needed_append)
  qed
qed

lemma startable_segment_ok:
  assumes "startable P entries as_ptr H Q b ds s" "d \<in> set ds" "ph \<in> set (Q d)" "loadable ph"
  shows "segment_ok P entries (as_ptr d) 0 s ph"
proof -
  have "driver_ok P entries as_ptr H Q s d" using assms(1,2) by (simp add: startable_def)
  then show ?thesis using assms(3,4) unfolding driver_ok_def image_ok_def by auto
qed

lemma started_refl:
  assumes "startable P entries as_ptr H Q b ds (sys m)"
  shows "started P entries as_ptr H Q [] [] m m"
  using assms protocol_effect_refl [of m as_ptr] by (simp add: started_def startable_def exI [of _ 0])

lemma started_trans:
  assumes st: "startable P entries as_ptr H Q (current_stack_base m) (ds @ es) (sys m)"
    and run: "started P entries as_ptr H Q ds apps m m1" "started P entries as_ptr H Q es apps' m1 m2"
  shows "started P entries as_ptr H Q (ds @ es) (apps @ apps') m m2"
proof -
  let ?s = "sys m" and ?s1 = "sys m1" and ?s2 = "sys m2"
  have R: "protocol_effect as_ptr (map (\<lambda>d. (d, e_entry (H d))) ds) apps m m1" "CDT ?s1 = CDT ?s" "undisturbed P entries ?s ?s1"
    "\<And>d ph. d \<in> set ds \<Longrightarrow> ph \<in> set (Q d) \<Longrightarrow> loadable ph \<Longrightarrow> segment_in_place P entries (as_ptr d) 0 ph ?s ?s1"
    "\<And>pg. pg \<notin> \<Union>(set (claims Q (current_stack_base m) ds)) \<Longrightarrow> address_space P ?s1 pg = address_space P ?s pg"
    using run(1) unfolding started_def by blast+
  have hp: "heap m2 = heap m" using run unfolding started_def by simp
  have T: "protocol_effect as_ptr (map (\<lambda>d. (d, e_entry (H d))) es) apps' m1 m2" "CDT ?s2 = CDT ?s1" "undisturbed P entries ?s1 ?s2"
    "\<And>d ph. d \<in> set es \<Longrightarrow> ph \<in> set (Q d) \<Longrightarrow> loadable ph \<Longrightarrow> segment_in_place P entries (as_ptr d) 0 ph ?s1 ?s2"
    "\<And>pg. pg \<notin> \<Union>(set (claims Q (current_stack_base m1) es)) \<Longrightarrow> address_space P ?s2 pg = address_space P ?s1 pg" "mem_inv entries ?s2"
    using run(2) unfolding started_def by blast+
  obtain j k where jk: "j \<le> frames_needed Q ds" "free_frames entries ?s1 = drop j (free_frames entries ?s)"
    "k \<le> frames_needed Q es" "free_frames entries ?s2 = drop k (free_frames entries ?s1)"
    using run unfolding started_def by blast
  have b1: "current_stack_base m1 = current_stack_base m + of_nat (length ds) * 0x100000" using R(1) by (simp add: protocol_effect_def)
  note seg = startable_segment_ok [OF st]
  have place: "segment_in_place P entries (as_ptr d) 0 ph ?s ?s2" if "d \<in> set (ds @ es)" "ph \<in> set (Q d)" "loadable ph" for d ph
  proof (cases "d \<in> set ds")
    case True
    have "p_filesz ph \<le> p_memsz ph" using seg [OF that] by (simp add: segment_ok_def)
    from segment_in_place_later [OF R(4) [OF True that(2,3)] this T(3)] show ?thesis .
  next
    case False
    then have "d \<in> set es" using that(1) by simp
    from segment_in_place_earlier [OF T(4) [OF this that(2,3)] seg [OF that] R(3)] show ?thesis .
  qed
  have pages: "address_space P ?s2 pg = address_space P ?s pg"
    if "pg \<notin> \<Union>(set (claims Q (current_stack_base m) (ds @ es)))" for pg
    using that R(5) [of pg] T(5) [of pg] by (simp add: claims_append b1)
  have "j + k \<le> frames_needed Q (ds @ es)" "free_frames entries ?s2 = drop (j + k) (free_frames entries ?s)"
    using jk by (simp_all add: frames_needed_append add.commute)
  then have frames: "\<exists>k \<le> frames_needed Q (ds @ es). free_frames entries ?s2 = drop k (free_frames entries ?s)" by blast
  have prot: "protocol_effect as_ptr (map (\<lambda>d. (d, e_entry (H d))) (ds @ es)) (apps @ apps') m m2"
    using protocol_effect_trans [OF R(1) T(1)] by simp
  have cdt: "CDT ?s2 = CDT ?s" using R(2) T(2) by simp
  show ?thesis
    unfolding started_def
    by (intro conjI ballI impI allI prot hp T(6) cdt undisturbed_trans [OF R(3) T(3)] place pages frames)
qed

section \<open>Starting one driver\<close>

lemma granted_undisturbed:
  assumes "granted P entries lo fs s s'" "\<forall>j < length fs. address_space P s (page_at lo j) = None"
  shows "undisturbed P entries s s'"
proof (rule undisturbed_map)
  have fr: "fresh_mapping P entries lo fs s (s'\<lparr>phys_mem := zeroed fs (phys_mem s)\<rparr>)" and pm: "phys_mem s' = phys_mem s"
    using assms(1) by (simp_all add: granted_def)
  show "phys_mem s' = phys_mem s" by (rule pm)
  obtain k where "free_frames entries (s'\<lparr>phys_mem := zeroed fs (phys_mem s)\<rparr>) = drop k (free_frames entries s)"
    using fr unfolding fresh_mapping_def by blast
  then show "set (free_frames entries s') \<subseteq> set (free_frames entries s)" by (simp add: set_drop_subset)
  have "address_space P s' pg = address_space P s pg" if "address_space P s pg \<noteq> None" for pg
    by (rule granted_other [OF assms(1)]) (use assms(2) that in auto)
  then show "address_space P s \<subseteq>\<^sub>m address_space P s'" by (auto simp: map_le_def dom_def)
qed

text \<open>The stack of a driver.\<close>

lemma grant_stack:
  assumes laws: "paging_laws P entries" and s: "mem_inv entries s" "CDT s = genesis_cdt" "distinct (free_frames entries s)"
    and left: "64 \<le> length (free_frames entries s)" and none: "\<forall>pg \<in> stack_pages b. address_space P s pg = None"
    and b: "unat b mod 4096 = 0" "unat b + 0x100000 < USER_TOP"
  obtains s' k where "grant_pages P b 16 s = Inr s'" "mem_inv entries s'" "undisturbed P entries s s'"
    "\<And>pg. pg \<notin> stack_pages b \<Longrightarrow> address_space P s' pg = address_space P s pg"
    "k \<le> 64" "free_frames entries s' = drop k (free_frames entries s)"
proof -
  have floor: "page_floor b = b" using b(1) by (rule page_floor_aligned)
  have zero: "page_at b 0 = b" by (simp add: page_at_def)
  have top: "unat b + 4096 * (0 + 16) < USER_TOP" using b(2) by simp
  have unm: "address_space P s (page_at (page_floor b) (0 + j)) = None" if "j < 16" for j
    using none that unfolding floor stack_pages_def by simp
  obtain s' fs where g: "grant_loop P b (map of_nat [0..<0 + 16]) s = Inr s'" "length fs = 16" "granted P entries b fs s s'"
    using grant_loop_effect [OF laws top s(1,2) unm _ s(3)] left unfolding floor zero by auto
  have inv: "mem_inv entries (s'\<lparr>phys_mem := zeroed fs (phys_mem s)\<rparr>)"
    and "\<exists>k \<le> 4 * length fs. free_frames entries (s'\<lparr>phys_mem := zeroed fs (phys_mem s)\<rparr>) = drop k (free_frames entries s)"
    using g(3) unfolding granted_def fresh_mapping_def by blast+
  then obtain k where k: "k \<le> 64" "free_frames entries s' = drop k (free_frames entries s)" using g(2) by auto
  show ?thesis
  proof (rule that [OF _ _ _ _ k])
    show "grant_pages P b 16 s = Inr s'" using g(1) by (simp add: grant_pages_def)
    show "mem_inv entries s'" using inv by (simp add: mem_inv_def)
    show "undisturbed P entries s s'" by (rule granted_undisturbed [OF g(3)]) (use unm floor g(2) in simp)
    show "address_space P s' pg = address_space P s pg" if "pg \<notin> stack_pages b" for pg
      by (rule granted_other [OF g(3)]) (use that g(2) in \<open>auto simp: stack_pages_def\<close>)
  qed
qed

lemma spawn_kernel:
  assumes "sched_inv (SCHEDULER s)"
  obtains sch where "sys_spawn_process (syscall_dispatcher P) ip sp s = Inr (0, s\<lparr>SCHEDULER := sch\<rparr>)"
proof -
  obtain sch where "global_spawn_thread ip sp (SCHEDULER s) = Inr sch" using global_spawn_thread_total [OF assms] by blast
  then show ?thesis
    by (intro that [of sch]) (simp add: sys_spawn_process_def syscall_dispatcher_def sys_spawn_handler_def)
qed

lemma undisturbed_scheduler [simp]:
  "undisturbed P entries s (t\<lparr>SCHEDULER := sch\<rparr>) = undisturbed P entries s t" for s t :: "('pt, 'dev) kernel"
proof -
  have tr: "translate P (t\<lparr>SCHEDULER := sch\<rparr>) = translate P t" by (simp add: fun_eq_iff translate_def)
  then have "read_byte P (t\<lparr>SCHEDULER := sch\<rparr>) = read_byte P t" by (simp add: fun_eq_iff read_byte_def split: option.split)
  with tr show ?thesis by (simp add: undisturbed_def settled_def)
qed

text \<open>The memory of one driver: its image is loaded, then its stack is granted.\<close>

lemma driver_memory:
  assumes laws: "paging_laws P entries" and st: "startable P entries as_ptr H Q b [d] s"
  obtains s1 s2 where "user_load P (as_ptr d) (of_nat (length (obj_data d))) s = Inr (Some (e_entry (H d)), s1)"
    "grant_pages P b 16 s1 = Inr s2" "mem_inv entries s2" "SCHEDULER s2 = SCHEDULER s" "CDT s2 = CDT s"
    "undisturbed P entries s s2" "\<And>ph. ph \<in> set (Q d) \<Longrightarrow> loadable ph \<Longrightarrow> segment_in_place P entries (as_ptr d) 0 ph s s2"
    "\<And>pg. pg \<notin> \<Union>(set (claims Q b [d])) \<Longrightarrow> address_space P s2 pg = address_space P s pg"
    "\<exists>k \<le> frames_needed Q [d]. free_frames entries s2 = drop k (free_frames entries s)"
proof -
  have S: "mem_inv entries s" "CDT s = genesis_cdt" "distinct (free_frames entries s)"
    "driver_ok P entries as_ptr H Q s d" "image_pages (Q d) \<inter> stack_pages b = {}"
    "\<forall>pg \<in> stack_pages b. address_space P s pg = None" "4 * (pages_needed (Q d) + 16) \<le> length (free_frames entries s)"
    "unat b mod 4096 = 0" "unat b + 0x100000 < USER_TOP"
    using st by (simp_all add: startable_def frames_needed_def)
  note D = S(4) [unfolded driver_ok_def]
  have len: "(64 :: u64) \<le> of_nat (length (obj_data d))" using D by (simp add: word_le_nat_alt unat_of_nat_small)
  obtain s1 where s1: "user_load P (as_ptr d) (of_nat (length (obj_data d))) s = Inr (Some (e_entry (H d)), s1)"
    "image_loaded P entries (as_ptr d) (H d) (Q d) s s1"
    using user_load_image [OF laws S(1,3,2) _ _ _ len, of "as_ptr d" "H d" "Q d"] D by blast
  have rel: "relocation (e_entry (H d)) = 0" using D by simp
  have L: "mem_inv entries s1" "undisturbed P entries s s1"
    "\<And>ph. ph \<in> set (Q d) \<Longrightarrow> loadable ph \<Longrightarrow> segment_in_place P entries (as_ptr d) 0 ph s s1"
    "\<And>pg. (\<forall>ph \<in> set (Q d). loadable ph \<longrightarrow> pg \<notin> seg_pages 0 ph) \<Longrightarrow> address_space P s1 pg = address_space P s pg"
    using s1(2) unfolding image_loaded_def rel by blast+
  obtain i where i: "i \<le> 4 * pages_needed (Q d)" "free_frames entries s1 = drop i (free_frames entries s)"
    using s1(2) unfolding image_loaded_def by blast
  have other: "address_space P s1 pg = address_space P s pg" if "pg \<notin> image_pages (Q d)" for pg
    by (rule L(4)) (use that in \<open>auto simp: image_pages_def\<close>)
  have keep1: "SCHEDULER s1 = SCHEDULER s" "CDT s1 = CDT s" using user_load_scheduler [OF s1(1)] by simp_all
  obtain s2 k where s2: "grant_pages P b 16 s1 = Inr s2" "mem_inv entries s2" "undisturbed P entries s1 s2"
    "\<And>pg. pg \<notin> stack_pages b \<Longrightarrow> address_space P s2 pg = address_space P s1 pg"
    "k \<le> 64" "free_frames entries s2 = drop k (free_frames entries s1)"
  proof (rule grant_stack [OF laws L(1), of b])
    show "CDT s1 = genesis_cdt" "distinct (free_frames entries s1)" "64 \<le> length (free_frames entries s1)"
      using keep1 S(2,3,7) i by simp_all
    show "\<forall>pg \<in> stack_pages b. address_space P s1 pg = None" using S(5,6) other by (metis disjoint_iff)
  qed (use S(8,9) in simp_all)
  show ?thesis
  proof (rule that [OF s1(1) s2(1,2) _ _ undisturbed_trans [OF L(2) s2(3)] segment_in_place_later [OF L(3) _ s2(3)]])
    show "SCHEDULER s2 = SCHEDULER s" "CDT s2 = CDT s" using grant_pages_scheduler [OF s2(1)] keep1 by simp_all
    show "p_filesz ph \<le> p_memsz ph" if "ph \<in> set (Q d)" "loadable ph" for ph
      using startable_segment_ok [OF st _ that] by (simp add: segment_ok_def)
    show "address_space P s2 pg = address_space P s pg" if "pg \<notin> \<Union>(set (claims Q b [d]))" for pg
      using that other [of pg] s2(4) [of pg] by simp
    have "i + k \<le> frames_needed Q [d]" "free_frames entries s2 = drop (i + k) (free_frames entries s)"
      using i s2(5,6) by (simp_all add: frames_needed_def add.commute)
    then show "\<exists>k \<le> frames_needed Q [d]. free_frames entries s2 = drop k (free_frames entries s)" by blast
  qed
qed

lemma start_driver_started:
  assumes laws: "paging_laws P entries" and st: "startable P entries as_ptr H Q (current_stack_base m) [d] (sys m)"
  shows "\<exists>m'. start_driver P as_ptr d m = Inr m' \<and> started P entries as_ptr H Q [d] [] m m'"
proof -
  let ?s = "sys m" and ?b = "current_stack_base m" and ?e = "e_entry (H d)"
  obtain s1 s2 where run: "user_load P (as_ptr d) (of_nat (length (obj_data d))) ?s = Inr (Some ?e, s1)" "grant_pages P ?b 16 s1 = Inr s2"
    and s2: "mem_inv entries s2" "SCHEDULER s2 = SCHEDULER ?s" "CDT s2 = CDT ?s" "undisturbed P entries ?s s2"
    and place: "\<And>ph. ph \<in> set (Q d) \<Longrightarrow> loadable ph \<Longrightarrow> segment_in_place P entries (as_ptr d) 0 ph ?s s2"
    and pages: "\<And>pg. pg \<notin> \<Union>(set (claims Q ?b [d])) \<Longrightarrow> address_space P s2 pg = address_space P ?s pg"
    and frames: "\<exists>k \<le> frames_needed Q [d]. free_frames entries s2 = drop k (free_frames entries ?s)"
    by (rule driver_memory [OF laws st]) (rule that)
  have si: "sched_inv (SCHEDULER s2)" using s2(2) st by (simp add: startable_def)
  obtain sch where s3: "sys_spawn_process (syscall_dispatcher P) ?e (?b + 16 * 4096) s2 = Inr (0, s2\<lparr>SCHEDULER := sch\<rparr>)"
    using spawn_kernel [OF si] by blast
  define m' where "m' = m\<lparr>sys := s2\<lparr>SCHEDULER := sch\<rparr>, current_stack_base := ?b + 0x100000\<rparr>"
  have run: "start_driver P as_ptr d m = Inr m'" using run s3 by (simp add: start_driver_def on_sys_def m'_def)
  have sys: "sys m' = s2\<lparr>SCHEDULER := sch\<rparr>" "heap m' = heap m" by (simp_all add: m'_def)
  have space: "address_space P (sys m') = address_space P s2" by (simp add: sys address_space_def)
  have prot: "protocol_effect as_ptr (map (\<lambda>d. (d, e_entry (H d))) [d]) [] m m'"
    using spawn_effect [OF si s3] unfolding s2(2) by (simp add: protocol_effect_def m'_def)
  have place': "segment_in_place P entries (as_ptr d') 0 ph ?s (sys m')" if "d' \<in> set [d]" "ph \<in> set (Q d')" "loadable ph" for d' ph
    by (rule segment_in_place_later [of _ _ _ _ _ _ s2])
      (use place startable_segment_ok [OF st that] that in \<open>simp_all add: sys segment_ok_def\<close>)
  have rest: "mem_inv entries (sys m')" "CDT (sys m') = CDT ?s" "undisturbed P entries ?s (sys m')"
    "\<exists>k \<le> frames_needed Q [d]. free_frames entries (sys m') = drop k (free_frames entries ?s)"
    using s2 frames by (simp_all add: sys mem_inv_def)
  have "started P entries as_ptr H Q [d] [] m m'"
    unfolding started_def space by (intro conjI ballI impI allI prot sys rest place' pages)
  with run show ?thesis by blast
qed

section \<open>The loops of the protocol\<close>

text \<open>Two stages that each start their drivers start both groups.\<close>

lemma started_seq:
  assumes st: "startable P entries as_ptr H Q (current_stack_base m) (ds @ es) (sys m)"
    and first: "startable P entries as_ptr H Q (current_stack_base m) ds (sys m) \<Longrightarrow>
      \<exists>m1. f m = Inr m1 \<and> started P entries as_ptr H Q ds apps m m1"
    and second: "\<And>m1. startable P entries as_ptr H Q (current_stack_base m1) es (sys m1) \<Longrightarrow>
      \<exists>m2. g m1 = Inr m2 \<and> started P entries as_ptr H Q es apps' m1 m2"
  shows "\<exists>m2. bindE (f m) g = Inr m2 \<and> started P entries as_ptr H Q (ds @ es) (apps @ apps') m m2"
proof -
  obtain m1 where m1: "f m = Inr m1" "started P entries as_ptr H Q ds apps m m1"
    using first [OF startable_prefix [OF st]] by blast
  obtain m2 where m2: "g m1 = Inr m2" "started P entries as_ptr H Q es apps' m1 m2"
    using second [OF startable_later [OF st m1(2)]] by blast
  from started_trans [OF st m1(2) m2(2)] m1(1) m2(1) show ?thesis by simp
qed

lemma driver_loop_started:
  assumes laws: "paging_laws P entries"
  shows "startable P entries as_ptr H Q (current_stack_base m) (named table name) (sys m) \<Longrightarrow>
    \<exists>m'. driver_loop P as_ptr name table m = Inr m' \<and> started P entries as_ptr H Q (named table name) [] m m'"
proof (induction table arbitrary: m)
  case Nil
  then show ?case using started_refl by (auto simp: named_def)
next
  case (Cons d table)
  show ?case
  proof (cases "from_utf8 (obj_name d) = Some name")
    case True
    then have nm: "named (d # table) name = [d] @ named table name" by (simp add: named_def)
    have "\<exists>m2. bindE (start_driver P as_ptr d m) (driver_loop P as_ptr name table) = Inr m2 \<and>
        started P entries as_ptr H Q ([d] @ named table name) ([] @ []) m m2"
      by (rule started_seq) (use Cons.prems nm start_driver_started [OF laws] Cons.IH in auto)
    then show ?thesis unfolding nm using True by simp
  next
    case False
    with Cons show ?thesis by (simp add: named_def)
  qed
qed

lemma app_loop_keeps: "sys (app_loop as_ptr name table m) = sys m" "heap (app_loop as_ptr name table m) = heap m"
  by (induction table arbitrary: m) simp_all

lemma app_loop_started:
  assumes "startable P entries as_ptr H Q b ds (sys m)"
  shows "started P entries as_ptr H Q [] (named table name) m (app_loop as_ptr name table m)"
proof -
  have "sched_inv (SCHEDULER (sys m))" "mem_inv entries (sys m)" using assms by (simp_all add: startable_def)
  moreover from app_loop_follows [OF this(1), of as_ptr table name]
  have "protocol_effect as_ptr [] (named table name) m (app_loop as_ptr name table m)"
    by (auto simp: follows_def dest: list_emb_Nil2)
  ultimately show ?thesis by (simp add: started_def app_loop_keeps exI [of _ 0])
qed

lemma handle_line_started:
  assumes laws: "paging_laws P entries"
    and st: "startable P entries as_ptr H Q (current_stack_base m) (requests ''driver:'' table [l]) (sys m)"
  shows "\<exists>m'. handle_line P as_ptr table l m = Inr m' \<and>
    started P entries as_ptr H Q (requests ''driver:'' table [l]) (requests ''app:'' table [l]) m m'"
proof (cases "starts_with (scalars ''driver:'') (str_trim l)")
  case True
  then have "requests ''driver:'' table [l] = named table (drop 7 (str_trim l))" "requests ''app:'' table [l] = []"
    using not_driver_and_app [OF True] by (simp_all add: requests_def directive_def eval_nat_numeral)
  with driver_loop_started [OF laws, of as_ptr H Q m table "drop 7 (str_trim l)"] st True show ?thesis
    by (simp add: handle_line_def)
next
  case False
  then have no: "requests ''driver:'' table [l] = []" by (simp add: requests_def directive_def)
  show ?thesis
  proof (cases "starts_with (scalars ''app:'') (str_trim l)")
    case True
    then have "requests ''app:'' table [l] = named table (drop 4 (str_trim l))"
      by (simp add: requests_def directive_def eval_nat_numeral)
    with app_loop_started [OF st, of table "drop 4 (str_trim l)"] True False no show ?thesis by (simp add: handle_line_def)
  next
    case ap: False
    then have "requests ''app:'' table [l] = []" by (simp add: requests_def directive_def)
    with started_refl [OF st] ap False no show ?thesis by (simp add: handle_line_def)
  qed
qed

lemma line_loop_started:
  assumes laws: "paging_laws P entries"
  shows "startable P entries as_ptr H Q (current_stack_base m) (requests ''driver:'' table ls) (sys m) \<Longrightarrow>
    \<exists>m'. line_loop P as_ptr table ls m = Inr m' \<and>
      started P entries as_ptr H Q (requests ''driver:'' table ls) (requests ''app:'' table ls) m m'"
proof (induction ls arbitrary: m)
  case Nil
  then show ?case using started_refl by (auto simp: requests_def)
next
  case (Cons l ls)
  have split: "requests kw table (l # ls) = requests kw table [l] @ requests kw table ls" for kw
    using requests_append [of kw table "[l]" ls] by simp
  have "\<exists>m2. bindE (handle_line P as_ptr table l m) (line_loop P as_ptr table ls) = Inr m2 \<and>
      started P entries as_ptr H Q (requests ''driver:'' table [l] @ requests ''driver:'' table ls)
        (requests ''app:'' table [l] @ requests ''app:'' table ls) m m2"
    by (rule started_seq) (use Cons.prems split handle_line_started [OF laws] Cons.IH in auto)
  then show ?case unfolding split by simp
qed

lemma init_loop_started:
  assumes laws: "paging_laws P entries"
  shows "startable P entries as_ptr H Q (current_stack_base m) (requests ''driver:'' table (config_lines obs)) (sys m) \<Longrightarrow>
    \<exists>m'. init_loop P as_ptr table obs m = Inr m' \<and>
      started P entries as_ptr H Q (requests ''driver:'' table (config_lines obs)) (requests ''app:'' table (config_lines obs)) m m'"
proof (induction obs arbitrary: m)
  case Nil
  then show ?case using started_refl by (auto simp: config_lines_def named_def requests_def)
next
  case (Cons ob obs)
  show ?case
  proof (cases "from_utf8 (obj_name ob) = Some (scalars ''init.rc'')")
    case True
    then have split: "requests kw table (config_lines (ob # obs)) = requests kw table (member_lines ob) @ requests kw table (config_lines obs)" for kw
      by (simp add: config_lines_def named_def requests_append)
    have body: "(case from_utf8 (obj_data ob) of Some config_str \<Rightarrow> line_loop P as_ptr table (str_lines config_str) m | None \<Rightarrow> Inr m) =
        line_loop P as_ptr table (member_lines ob) m"
      by (simp add: member_lines_def split: option.split)
    have "\<exists>m2. bindE (line_loop P as_ptr table (member_lines ob) m) (init_loop P as_ptr table obs) = Inr m2 \<and>
        started P entries as_ptr H Q (requests ''driver:'' table (member_lines ob) @ requests ''driver:'' table (config_lines obs))
          (requests ''app:'' table (member_lines ob) @ requests ''app:'' table (config_lines obs)) m m2"
      by (rule started_seq) (use Cons.prems split line_loop_started [OF laws] Cons.IH in auto)
    then show ?thesis unfolding split using True body by simp
  next
    case False
    with Cons show ?thesis by (simp add: config_lines_def named_def)
  qed
qed

section \<open>The start of the Marshal\<close>

lemma protocol_effect_result:
  assumes "protocol_effect as_ptr (map (\<lambda>d. (d, E d)) ds) apps m m'"
  shows "ready_queue (SCHEDULER (sys m')) = ready_queue (SCHEDULER (sys m)) @ take (free_slots (SCHEDULER (sys m)))
      (map (\<lambda>k. (E (ds ! k), current_stack_base m + of_nat k * 0x100000 + 0x10000)) [0..<length ds])"
    "apps \<noteq> [] \<longrightarrow> WASM_DATA_PTR m' = as_ptr (last apps) \<and> WASM_DATA_LEN m' = of_nat (length (obj_data (last apps)))"
proof -
  have "stack_plan (current_stack_base m) (map snd (map (\<lambda>d. (d, E d)) ds)) =
      map (\<lambda>k. (E (ds ! k), current_stack_base m + of_nat k * 0x100000 + 0x10000)) [0..<length ds]"
    by (rule nth_equalityI) (simp_all add: stack_plan_nth)
  with assms show "ready_queue (SCHEDULER (sys m')) = ready_queue (SCHEDULER (sys m)) @ take (free_slots (SCHEDULER (sys m)))
      (map (\<lambda>k. (E (ds ! k), current_stack_base m + of_nat k * 0x100000 + 0x10000)) [0..<length ds])"
    unfolding protocol_effect_def Let_def by simp
  show "apps \<noteq> [] \<longrightarrow> WASM_DATA_PTR m' = as_ptr (last apps) \<and> WASM_DATA_LEN m' = of_nat (length (obj_data (last apps)))"
    using assms unfolding protocol_effect_def by (cases "apps = []") auto
qed

lemma region_keeps_startable:
  assumes st: "startable P entries as_ptr H Q b ds s" and rg: "region_ready P entries v len s s'"
    and apart: "\<And>B j. B \<in> set (claims Q b ds) \<Longrightarrow> j < unat len div 4096 \<Longrightarrow> page_at v j \<notin> B"
    and left: "frames_needed Q ds + 4 * (unat len div 4096) \<le> length (free_frames entries s)"
  shows "startable P entries as_ptr H Q b ds s'"
proof -
  have R: "mem_inv entries s'" "undisturbed P entries s s'" "CDT s' = CDT s" "SCHEDULER s' = SCHEDULER s"
    "\<And>pg. (\<forall>j < unat len div 4096. pg \<noteq> page_at v j) \<Longrightarrow> address_space P s' pg = address_space P s pg"
    using rg unfolding region_ready_def by blast+
  obtain k where k: "k \<le> 4 * (unat len div 4096)" "free_frames entries s' = drop k (free_frames entries s)"
    using rg unfolding region_ready_def by blast
  have "sched_inv (SCHEDULER s')" using st R(4) by (simp add: startable_def)
  then show ?thesis
  proof (rule startable_kept [OF st R(1,3) _ R(2) _ k(2)])
    show "address_space P s' pg = address_space P s pg" if "B \<in> set (claims Q b ds)" "pg \<in> B" for B pg
      by (rule R(5)) (use apart that in blast)
    show "frames_needed Q ds + k \<le> length (free_frames entries s)" using left k(1) by simp
  qed
qed

section \<open>The drivers are started\<close>

text \<open>Neither the screen of the Marshal nor the offset of the direct map changes while the drivers are started.\<close>

definition screen_kept :: "('pt, 'dev, 'h) marshal \<Rightarrow> ('pt, 'dev, 'h) marshal \<Rightarrow> bool" where
  "screen_kept m m' \<longleftrightarrow> marshal_screen m' = marshal_screen m \<and> HHDM_OFFSET (sys m') = HHDM_OFFSET (sys m)"

lemma screen_kept_refl [simp]: "screen_kept m m"
  by (simp add: screen_kept_def)

lemma screen_kept_trans: "screen_kept m m1 \<Longrightarrow> screen_kept m1 m2 \<Longrightarrow> screen_kept m m2"
  by (simp add: screen_kept_def)

lemma start_driver_screen: "start_driver P as_ptr drv m = Inr m' \<Longrightarrow> screen_kept m m'"
  by (auto simp: start_driver_def screen_kept_def on_sys_def res_simps Let_def sys_spawn_process_def syscall_dispatcher_def
      sys_spawn_handler_def split: option.splits dest!: user_load_scheduler grant_pages_scheduler)

lemma driver_loop_screen: "driver_loop P as_ptr name ds m = Inr m' \<Longrightarrow> screen_kept m m'"
proof (induction ds arbitrary: m)
  case (Cons d ds)
  then obtain m1 where m1: "(if from_utf8 (obj_name d) = Some name then start_driver P as_ptr d m else Inr m) = Inr m1"
    "driver_loop P as_ptr name ds m1 = Inr m'" by (auto simp: res_simps)
  from m1(1) have "screen_kept m m1" using start_driver_screen by (auto split: if_splits)
  then show ?case using Cons.IH [OF m1(2)] by (rule screen_kept_trans)
qed simp

lemma app_loop_screen: "screen_kept m (app_loop as_ptr name ds m)"
  by (induction ds arbitrary: m) (auto simp: screen_kept_def)

lemma handle_line_screen: "handle_line P as_ptr table line m = Inr m' \<Longrightarrow> screen_kept m m'"
  using driver_loop_screen app_loop_screen by (auto simp: handle_line_def Let_def split: if_splits)

lemma line_loop_screen: "line_loop P as_ptr table ls m = Inr m' \<Longrightarrow> screen_kept m m'"
proof (induction ls arbitrary: m)
  case (Cons l ls)
  then obtain m1 where m1: "handle_line P as_ptr table l m = Inr m1" "line_loop P as_ptr table ls m1 = Inr m'"
    by (auto simp: res_simps)
  show ?case by (rule screen_kept_trans [OF handle_line_screen [OF m1(1)] Cons.IH [OF m1(2)]])
qed simp

lemma init_loop_screen: "init_loop P as_ptr table obs m = Inr m' \<Longrightarrow> screen_kept m m'"
proof (induction obs arbitrary: m)
  case (Cons ob obs)
  then obtain m1 where m1: "(if from_utf8 (obj_name ob) = Some (scalars ''init.rc'') then
      case from_utf8 (obj_data ob) of Some config_str \<Rightarrow> line_loop P as_ptr table (str_lines config_str) m | None \<Rightarrow> Inr m
      else Inr m) = Inr m1" "init_loop P as_ptr table obs m1 = Inr m'" by (auto simp: res_simps)
  from m1(1) have "screen_kept m m1" using line_loop_screen by (auto split: if_splits option.splits)
  then show ?case using Cons.IH [OF m1(2)] by (rule screen_kept_trans)
qed simp

lemma init_heap_screen: "init_heap P inner_init m = Inr m' \<Longrightarrow> screen_kept m m'"
  by (auto simp: init_heap_def screen_kept_def on_sys_def user_memset_def res_simps dest!: grant_pages_scheduler write_bytes_scheduler)

text \<open>
  A change of the memory that maps new pages only in \<open>A\<close>, uses at most \<open>n\<close> frames and leaves what was in use
  as it was.
\<close>

definition extended :: "('pt, 'dev) hw_platform \<Rightarrow> mem_entry list \<Rightarrow> u64 set \<Rightarrow> nat \<Rightarrow> ('pt, 'dev) kernel \<Rightarrow> ('pt, 'dev) kernel \<Rightarrow> bool" where
  "extended P entries A n s s' \<longleftrightarrow>
     mem_inv entries s' \<and> CDT s' = CDT s \<and> undisturbed P entries s s' \<and>
     (\<forall>pg. pg \<notin> A \<longrightarrow> address_space P s' pg = address_space P s pg) \<and>
     (\<exists>k \<le> n. free_frames entries s' = drop k (free_frames entries s))"

lemma extended_trans:
  assumes "extended P entries A n s t" "extended P entries B k t u"
  shows "extended P entries (A \<union> B) (n + k) s u"
proof -
  obtain i j where "i \<le> n" "free_frames entries t = drop i (free_frames entries s)"
    "j \<le> k" "free_frames entries u = drop j (free_frames entries t)" using assms unfolding extended_def by blast
  then have "\<exists>l \<le> n + k. free_frames entries u = drop l (free_frames entries s)" by (intro exI [of _ "j + i"]) simp
  moreover have "undisturbed P entries s u" using assms undisturbed_trans unfolding extended_def by blast
  ultimately show ?thesis using assms unfolding extended_def by simp
qed

lemma extended_region: "region_ready P entries v len s s' \<Longrightarrow> extended P entries (page_at v ` {..<unat len div 4096}) (4 * (unat len div 4096)) s s'"
  unfolding region_ready_def extended_def by auto

lemma extended_started:
  "started P entries as_ptr H Q ds apps m m' \<Longrightarrow>
   extended P entries (\<Union>(set (claims Q (current_stack_base m) ds))) (frames_needed Q ds) (sys m) (sys m')"
  by (auto simp: started_def extended_def)

abbreviation heap_pages :: "u64 set" where
  "heap_pages \<equiv> page_at HEAP_START ` {..<4096}"

lemma marshal_starts_drivers:
  assumes table: "table = map object_of files"
    and ds: "ds = requests ''driver:'' table (config_lines table)" and apps: "apps = requests ''app:'' table (config_lines table)"
    and "paging_laws P entries" and "list_all file_ok files"
    and "user_memset P bss_start 0 (bss_end - bss_start) (sys m) = Inr s"
    and "region_free P entries HEAP_START HEAP_SIZE s" and "startable P entries as_ptr H Q 0x600000000000 ds s"
    and "\<And>B j. B \<in> set (claims Q 0x600000000000 ds) \<Longrightarrow> j < 4096 \<Longrightarrow> page_at HEAP_START j \<notin> B"
    and "frames_needed Q ds + 4 * 4096 \<le> length (free_frames entries s)"
  shows "\<exists>m'. marshal_start P inner_init as_ptr rdx bss_start bss_end (tar_archive files) m =
      bindE (set_up_devices P rdx m') (set_up_stack P) \<and>
    (\<forall>d \<in> set ds. \<forall>ph \<in> set (Q d). loadable ph \<longrightarrow> segment_in_place P entries (as_ptr d) 0 ph s (sys m')) \<and>
    ready_queue (SCHEDULER (sys m')) = ready_queue (SCHEDULER s) @ take (free_slots (SCHEDULER s))
      (map (\<lambda>k. (e_entry (H (ds ! k)), 0x600000000000 + of_nat k * 0x100000 + 0x10000)) [0..<length ds]) \<and>
    heap m' = inner_init HEAP_START HEAP_SIZE (heap m) \<and> (\<forall>i < unat HEAP_SIZE. settled P entries (sys m') (HEAP_START + of_nat i)) \<and>
    (apps \<noteq> [] \<longrightarrow> WASM_DATA_PTR m' = as_ptr (last apps) \<and> WASM_DATA_LEN m' = of_nat (length (obj_data (last apps)))) \<and>
    undisturbed P entries s (sys m') \<and> screen_kept (m\<lparr>sys := s\<rparr>) m' \<and>
    extended P entries (heap_pages \<union> \<Union>(set (claims Q 0x600000000000 ds))) (4 * 4096 + frames_needed Q ds) s (sys m')"
proof -
  have size: "unat HEAP_SIZE div 4096 = 4096" by (simp add: HEAP_SIZE_def)
  let ?m0 = "m\<lparr>sys := s\<rparr>" and ?b = "0x600000000000 :: u64"
  obtain s1 where s1: "init_heap P inner_init ?m0 = Inr (?m0\<lparr>sys := s1, heap := inner_init HEAP_START HEAP_SIZE (heap m)\<rparr>)"
    "region_ready P entries HEAP_START HEAP_SIZE s s1"
    using init_heap_ready [OF assms(4), of ?m0 inner_init] assms(7) by auto
  define m1 where "m1 = m\<lparr>sys := s1, heap := inner_init HEAP_START HEAP_SIZE (heap m), current_stack_base := ?b\<rparr>"
  have m1: "sys m1 = s1" "current_stack_base m1 = ?b" "heap m1 = inner_init HEAP_START HEAP_SIZE (heap m)" by (simp_all add: m1_def)
  have st: "startable P entries as_ptr H Q ?b ds s1"
    by (rule region_keeps_startable [OF assms(8) s1(2)]) (use assms(9,10) size in auto)
  obtain m' where m': "init_loop P as_ptr table table m1 = Inr m'" "started P entries as_ptr H Q ds apps m1 m'"
    using init_loop_started [OF assms(4), of as_ptr H Q m1 table table] st unfolding m1 ds apps by blast
  have parse: "parse (tar_archive files) = Inr table"
    using parse_loop_entries [OF assms(5), of "[]" "[]"] by (simp add: parse_def tar_archive_def table)
  have run: "marshal_start P inner_init as_ptr rdx bss_start bss_end (tar_archive files) m = bindE (set_up_devices P rdx m') (set_up_stack P)"
    using assms(6) s1(1) parse m'(1) by (simp add: marshal_start_def on_sys_def m1_def Let_def)
  have R: "protocol_effect as_ptr (map (\<lambda>d. (d, e_entry (H d))) ds) apps m1 m'" "undisturbed P entries s1 (sys m')"
    "\<And>d ph. d \<in> set ds \<Longrightarrow> ph \<in> set (Q d) \<Longrightarrow> loadable ph \<Longrightarrow> segment_in_place P entries (as_ptr d) 0 ph s1 (sys m')"
    using m'(2) unfolding started_def m1 by blast+
  have H: "undisturbed P entries s s1" "SCHEDULER s1 = SCHEDULER s" "\<And>i. i < unat HEAP_SIZE \<Longrightarrow> settled P entries s1 (HEAP_START + of_nat i)"
    using s1(2) unfolding region_ready_def by blast+
  have place: "segment_in_place P entries (as_ptr d) 0 ph s (sys m')" if "d \<in> set ds" "ph \<in> set (Q d)" "loadable ph" for d ph
    by (rule segment_in_place_earlier [OF R(3) [OF that] startable_segment_ok [OF assms(8) that] H(1)])
  have result: "ready_queue (SCHEDULER (sys m')) = ready_queue (SCHEDULER s) @ take (free_slots (SCHEDULER s))
      (map (\<lambda>k. (e_entry (H (ds ! k)), ?b + of_nat k * 0x100000 + 0x10000)) [0..<length ds])"
    "apps \<noteq> [] \<longrightarrow> WASM_DATA_PTR m' = as_ptr (last apps) \<and> WASM_DATA_LEN m' = of_nat (length (obj_data (last apps)))"
    using protocol_effect_result [OF R(1)] unfolding m1 H(2) by blast+
  have hp: "heap m' = inner_init HEAP_START HEAP_SIZE (heap m)" using m'(2) m1(3) unfolding started_def by simp
  have heap: "settled P entries (sys m') (HEAP_START + of_nat i)" if "i < unat HEAP_SIZE" for i
    by (rule undisturbed_settled [OF R(2) H(3) [OF that]])
  have screen: "screen_kept (m\<lparr>sys := s\<rparr>) m'"
    using init_loop_screen [OF m'(1)] init_heap_screen [OF s1(1)] by (simp add: screen_kept_def m1_def)
  have rest: "extended P entries (heap_pages \<union> \<Union>(set (claims Q ?b ds))) (4 * 4096 + frames_needed Q ds) s (sys m')"
    using extended_trans [OF extended_region [OF s1(2)] extended_started [OF m'(2), unfolded m1]] by (simp only: size)
  from run place result hp heap undisturbed_trans [OF H(1) R(2)] rest screen show ?thesis by blast
qed

section \<open>An example\<close>

text \<open>An archive with a configuration and one driver, on a machine with enough memory.\<close>

definition config_file :: tar_file where
  "config_file = \<lparr>f_name = bytes ''init.rc'', f_meta = replicate 24 0, f_tail = replicate 377 0, f_data = bytes ''driver:a\<newline>''\<rparr>"

definition driver_file :: tar_file where
  "driver_file = \<lparr>f_name = bytes ''a'', f_meta = replicate 24 0, f_tail = replicate 377 0, f_data = image_bytes\<rparr>"

lemma example_files_ok: "list_all file_ok [config_file, driver_file]"
  by (simp add: file_ok_def config_file_def driver_file_def bytes_def length_image_bytes)

lemma example_requests:
  "requests ''driver:'' (map object_of [config_file, driver_file]) (config_lines (map object_of [config_file, driver_file])) =
    [object_of driver_file]"
proof -
  have a: "from_utf8 (bytes ''init.rc'') = Some (scalars ''init.rc'')" "from_utf8 (bytes ''driver:a\<newline>'') = Some (scalars ''driver:a\<newline>'')"
    "from_utf8 (bytes ''a'') = Some (scalars ''a'')" by (simp_all add: bytes_def scalars_def)
  have b: "scalars ''a'' \<noteq> scalars ''init.rc''" "starts_with (scalars ''driver:'') (scalars ''driver:a'')"
    "drop 7 (scalars ''driver:a'') = scalars ''a''" by (simp_all add: scalars_def starts_with_def)
  have l: "str_lines (scalars ''driver:a\<newline>'') = [scalars ''driver:a'']"
    using str_lines_line [of "scalars ''driver:a''" "[]"] by (simp add: scalars_def strip_cr_def)
  have t: "str_trim (scalars ''driver:a'') = scalars ''driver:a''" by (rule str_trim_id) (simp_all add: scalars_def whitespace_def)
  have c: "config_lines (map object_of [config_file, driver_file]) = [scalars ''driver:a'']"
    by (simp add: config_lines_def named_def member_lines_def object_of_def config_file_def driver_file_def a l b)
  have d: "directive ''driver:'' (scalars ''driver:a'') = Some (scalars ''a'')"
    using b(2,3) by (simp add: directive_def t eval_nat_numeral)
  have n: "named [object_of config_file, object_of driver_file] (scalars ''a'') = [object_of driver_file]"
    using b(1) by (simp add: named_def object_of_def config_file_def driver_file_def a)
  show ?thesis unfolding c by (simp add: requests_def d n)
qed

lemma example_large_image:
  "mem_inv large_memmap user_image_kernel" "free_frames large_memmap user_image_kernel = all_frames large_memmap"
  "length (all_frames large_memmap) = 32768" "distinct (all_frames large_memmap)" "0x300000 \<notin> set (all_frames large_memmap)"
  "address_space large_hw user_image_kernel = [image_base \<mapsto> (0x300000, {PRESENT})]"
proof -
  have wf: "wf_memmap large_memmap" by (simp add: wf_memmap_def large_memmap_def entry_end_def)
  show "mem_inv large_memmap user_image_kernel" "free_frames large_memmap user_image_kernel = all_frames large_memmap"
    by (simp_all add: mem_inv_def user_image_kernel_def example_kernel_def fa_inv_new wf frames_left_new)
  show "length (all_frames large_memmap) = 32768"
    by (simp add: all_frames_def large_memmap_def entry_frames_def entry_end_def region_frames_def del: upt_rec_numeral upt_Suc)
  show "distinct (all_frames large_memmap)"
    by (rule distinct_all_frames [OF wf]) (simp add: disjoint_memmap_def large_memmap_def)
  show "0x300000 \<notin> set (all_frames large_memmap)"
    using set_all_frames [OF wf, of "0x300000"] by (simp add: large_memmap_def)
  show "address_space large_hw user_image_kernel = [image_base \<mapsto> (0x300000, {PRESENT})]"
    by (simp add: user_image_kernel_def address_space_def large_hw_def example_hw_def)
qed

lemma low_page_unmapped:
  assumes "unat b + 4096 * j < 2 ^ 48"
  shows "address_space large_hw user_image_kernel (page_at b j) = None"
  using assms unfolding example_large_image(6) by (auto simp: word_unat_eq_iff unat_page_at)

lemma example_startable:
  "startable large_hw large_memmap (\<lambda>_. image_base) (\<lambda>_. image_header) (\<lambda>_. [image_phdr]) 0x600000000000 [object_of driver_file] user_image_kernel"
proof -
  note k = example_large_image
  have rel: "relocation (e_entry image_header) = 0" by (rule image_seg_pages(2))
  have img: "image_ok large_hw large_memmap image_base image_header [image_phdr] user_image_kernel"
    by (rule example_image_ok [OF _ user_image_kernel_facts(5) k(1,5)]) (simp_all add: k)
  have pages: "image_pages [image_phdr] = {0x400000}"
    using image_seg_pages(1) unfolding rel by (simp add: image_pages_def image_phdr_def)
  have stack: "pg \<noteq> 0x400000 \<and> address_space large_hw user_image_kernel pg = None" if "pg \<in> stack_pages 0x600000000000" for pg
  proof -
    from that obtain j where j: "j < 16" "pg = page_at 0x600000000000 j" by (auto simp: stack_pages_def)
    then have "unat pg = 0x600000000000 + 4096 * j" by (simp add: unat_page_at)
    then show ?thesis using low_page_unmapped [of "0x600000000000" j] j by auto
  qed
  have fits: "user_fits 0 image_phdr" by (simp add: user_fits_def image_phdr_def pages_of_def)
  have len: "length (obj_data (object_of driver_file)) = 124" by (simp add: object_of_def driver_file_def length_image_bytes)
  have "driver_ok large_hw large_memmap (\<lambda>_. image_base) (\<lambda>_. image_header) (\<lambda>_. [image_phdr]) user_image_kernel (object_of driver_file)"
    unfolding driver_ok_def len rel using img fits by (simp add: image_header_def)
  moreover have "pages_needed [image_phdr] = 1" by (simp add: pages_needed_def image_phdr_def pages_of_def)
  moreover have "sched_inv (SCHEDULER user_image_kernel)" by (simp add: user_image_kernel_def example_kernel_def sched_inv_new)
  moreover have "address_space large_hw user_image_kernel 0x400000 = None" by (simp add: k(6))
  ultimately show ?thesis
    unfolding startable_def using k(1-4) user_image_kernel_facts(2) stack by (auto simp: pages frames_needed_def)
qed

section \<open>Properties\<close>



end
