(* ===== verification/Elf_File.thy ===== *)
theory Elf_File
  imports Driver_Start
begin

text \<open>
  Executables as files: the loaders read an image from mapped memory (theories \<open>Elf_Image\<close> and
  \<open>Driver_Start\<close>); here the header and the program headers are decoded from the bytes of the file, a valid
  file is a property of its bytes, and a valid file that lies in memory somewhere is an image that the
  loader of the user library takes.
\<close>

section \<open>Bytes in memory\<close>

definition holds :: "('pt, 'p) platform_scheme \<Rightarrow> mem_entry list \<Rightarrow> ('pt, 'm) mem_state_scheme \<Rightarrow> u64 \<Rightarrow> u8 list \<Rightarrow> bool" where
  "holds P entries s a bs \<longleftrightarrow>
     (\<forall>i < length bs. read_byte P s (a + of_nat i) = Inr (bs ! i) \<and> settled P entries s (a + of_nat i))"

lemma holds_part:
  assumes "holds P entries s a bs" "p + n \<le> length bs"
  shows "holds P entries s (a + of_nat p) (take n (drop p bs))"
  unfolding holds_def
proof (intro allI impI)
  fix i assume "i < length (take n (drop p bs))"
  with assms have "p + i < length bs" "i < n" by simp_all
  moreover have "read_byte P s (a + of_nat (p + i)) = Inr (bs ! (p + i)) \<and> settled P entries s (a + of_nat (p + i))"
    using assms(1) \<open>p + i < length bs\<close> unfolding holds_def by blast
  ultimately show "read_byte P s (a + of_nat p + of_nat i) = Inr (take n (drop p bs) ! i) \<and> settled P entries s (a + of_nat p + of_nat i)"
    using assms(2) by (simp add: add.assoc)
qed

lemma holds_read_bytes: "holds P entries s a bs \<Longrightarrow> read_bytes P s a (length bs) = Inr bs"
proof (induction bs arbitrary: a)
  case (Cons b bs)
  have "holds P entries s (a + of_nat 1) (take (length bs) (drop 1 (b # bs)))" by (rule holds_part [OF Cons.prems]) simp
  then have "read_bytes P s (a + 1) (length bs) = Inr bs" using Cons.IH by simp
  moreover have "read_byte P s a = Inr b" using Cons.prems by (auto simp: holds_def)
  ultimately show ?case by simp
qed simp

lemma holds_read:
  assumes "holds P entries s a bs" "p + n \<le> length bs"
  shows "read_bytes P s (a + of_nat p) n = Inr (take n (drop p bs))"
  using holds_read_bytes [OF holds_part [OF assms]] assms(2) by simp

lemma holds_settled: "holds P entries s a bs \<Longrightarrow> p + n \<le> length bs \<Longrightarrow> settled_range P entries s (a + of_nat p) n"
  using holds_part [of P entries s a bs p n] by (simp add: holds_def)

lemma holds_later:
  assumes "holds P entries s a bs" "undisturbed P entries s s'"
  shows "holds P entries s' a bs"
  using assms by (simp add: holds_def undisturbed_def)

section \<open>ELF files\<close>

definition field :: "u8 list \<Rightarrow> nat \<Rightarrow> nat \<Rightarrow> u64" where
  "field bs p n = le_value (take n (drop p bs))"

definition file_header :: "u8 list \<Rightarrow> elf64_header" where
  "file_header bs = \<lparr>e_ident = take 16 bs, e_entry = field bs 24 8, e_phoff = field bs 32 8,
     e_phentsize = ucast (field bs 54 2), e_phnum = ucast (field bs 56 2)\<rparr>"

definition file_phdr :: "u8 list \<Rightarrow> nat \<Rightarrow> elf64_phdr" where
  "file_phdr bs p = \<lparr>p_type = ucast (field bs p 4), p_offset = field bs (p + 8) 8, p_vaddr = field bs (p + 16) 8,
     p_filesz = field bs (p + 32) 8, p_memsz = field bs (p + 40) 8\<rparr>"

definition file_phdrs :: "u8 list \<Rightarrow> elf64_phdr list" where
  "file_phdrs bs = map (\<lambda>i. file_phdr bs (unat (e_phoff (file_header bs)) + i * 56)) [0..<unat (e_phnum (file_header bs))]"

text \<open>A valid executable for user space: its tables and segments lie in the file, its segments in user pages of their own.\<close>

definition segment_in_file :: "u8 list \<Rightarrow> elf64_phdr \<Rightarrow> bool" where
  "segment_in_file bs ph \<longleftrightarrow>
     unat (p_offset ph) + unat (p_filesz ph) \<le> length bs \<and> p_filesz ph \<le> p_memsz ph \<and> 4096 \<le> unat (p_vaddr ph) \<and> user_fits 0 ph"

definition elf_file :: "u8 list \<Rightarrow> bool" where
  "elf_file bs \<longleftrightarrow>
     64 \<le> length bs \<and> take 4 bs = ELF_MAGIC \<and> e_phentsize (file_header bs) = 56 \<and> e_entry (file_header bs) < 0xFFFFFFFF80000000 \<and>
     unat (e_phoff (file_header bs)) + 56 * unat (e_phnum (file_header bs)) \<le> length bs \<and>
     list_all (\<lambda>ph. loadable ph \<longrightarrow> segment_in_file bs ph) (file_phdrs bs) \<and> disjoint_segments 0 (file_phdrs bs)"

lemma holds_read_le:
  assumes "holds P entries s a bs" "p + n \<le> length bs"
  shows "read_le P s (a + of_nat p) n = Inr (field bs p n)"
  using holds_read [OF assms] by (simp add: read_le_def field_def)

lemma read_header_file:
  assumes "holds P entries s a bs" "a \<noteq> 0" "64 \<le> length bs"
  shows "read_header P s a = Inr (file_header bs)"
  using holds_read [OF assms(1), of 0 16] holds_read_le [OF assms(1), of 24 8] holds_read_le [OF assms(1), of 32 8]
    holds_read_le [OF assms(1), of 54 2] holds_read_le [OF assms(1), of 56 2] assms(2,3)
  by (simp add: read_header_def file_header_def)

lemma read_phdr_file:
  assumes "holds P entries s a bs" "a + of_nat p \<noteq> 0" "p + 56 \<le> length bs"
  shows "read_phdr P s (a + of_nat p) = Inr (file_phdr bs p)"
  using holds_read_le [OF assms(1), of p 4] holds_read_le [OF assms(1), of "p + 8" 8] holds_read_le [OF assms(1), of "p + 16" 8]
    holds_read_le [OF assms(1), of "p + 32" 8] holds_read_le [OF assms(1), of "p + 40" 8] assms(2,3)
  by (simp add: read_phdr_def file_phdr_def add_ac)

text \<open>Where a file does not wrap around the end of memory, offsets into it are addresses.\<close>

lemma file_address:
  fixes a :: u64
  assumes "0 < unat a" "unat a + length bs < 2 ^ 64" "p \<le> length bs"
  shows "unat (a + of_nat p) = unat a + p" "a + of_nat p \<noteq> 0" "unat p' = p \<Longrightarrow> a + p' = a + of_nat p"
proof -
  have "unat (of_nat p :: u64) = p" using assms by (intro unat_of_nat_small) simp
  then show u: "unat (a + of_nat p) = unat a + p" using assms unat_add_no_overflow [of a "of_nat p"] by simp
  show "a + of_nat p \<noteq> 0" using u assms(1) by (metis add_is_0 less_not_refl unat_0)
  show "unat p' = p \<Longrightarrow> a + p' = a + of_nat p" by auto
qed

lemma table_holds_file:
  assumes elf: "elf_file bs" and mem: "holds P entries s a bs" and a: "0 < unat a" "unat a + length bs < 2 ^ 64"
  shows "table_holds P entries (a + e_phoff (file_header bs)) 56 0 (file_phdrs bs) s"
proof -
  let ?o = "unat (e_phoff (file_header bs))" and ?n = "unat (e_phnum (file_header bs))"
  have n: "?o + 56 * ?n \<le> length bs" using elf by (simp add: elf_file_def)
  have len: "length (file_phdrs bs) = ?n" by (simp add: file_phdrs_def)
  have "unat (a + e_phoff (file_header bs)) + j * 56 < 2 ^ 64 \<and>
      read_phdr P s (phdr_at (a + e_phoff (file_header bs)) 56 j) = Inr (file_phdrs bs ! j) \<and>
      settled_range P entries s (phdr_at (a + e_phoff (file_header bs)) 56 j) 48" if "j < ?n" for j
  proof -
    define p where "p = ?o + j * 56"
    have p: "p + 56 \<le> length bs" using that n by (simp add: p_def)
    have at: "phdr_at (a + e_phoff (file_header bs)) 56 j = a + of_nat p" by (simp add: phdr_at_def p_def add.assoc)
    have "unat (a + e_phoff (file_header bs)) = unat a + ?o" using file_address(1) [OF a, of ?o] n by simp
    then have "unat (a + e_phoff (file_header bs)) + j * 56 < 2 ^ 64" using p a(2) by (simp add: p_def)
    moreover have "read_phdr P s (a + of_nat p) = Inr (file_phdr bs p)"
      by (rule read_phdr_file [OF mem file_address(2) [OF a] p]) (use p in simp)
    moreover have "settled_range P entries s (a + of_nat p) 48" by (rule holds_settled [OF mem]) (use p in simp)
    ultimately show ?thesis using that by (simp add: at file_phdrs_def p_def)
  qed
  moreover have "?n < 2 ^ 16" using unsigned_less [of "e_phnum (file_header bs)", where 'a = nat] by simp
  ultimately show ?thesis by (simp add: table_holds_def len)
qed

lemma segment_ok_file:
  assumes seg: "segment_in_file bs ph" and mem: "holds P entries s a bs" and a: "0 < unat a" "unat a + length bs < 2 ^ 64"
    and free: "\<forall>pg \<in> seg_pages 0 ph. address_space P s pg = None"
  shows "segment_ok P entries a 0 s ph"
proof -
  have len: "unat (p_offset ph) + unat (p_filesz ph) \<le> length bs" using seg by (simp add: segment_in_file_def)
  have u: "unat (p_vaddr ph) + unat (p_memsz ph) + 8192 < USER_TOP" using seg by (simp add: segment_in_file_def user_fits_def)
  have "settled_range P entries s (a + of_nat (unat (p_offset ph))) (unat (p_filesz ph))" by (rule holds_settled [OF mem len])
  moreover have "a + p_offset ph \<noteq> 0" using file_address(2) [OF a, of "unat (p_offset ph)"] len by simp
  ultimately show ?thesis
    using seg u len a free by (simp add: segment_ok_def segment_in_file_def)
qed

text \<open>A valid file in memory, with free pages and frames, is what the loader takes.\<close>

lemma image_ok_file:
  assumes elf: "elf_file bs" and mem: "holds P entries s a bs" and a: "0 < unat a" "unat a + length bs < 2 ^ 64"
    and free: "\<forall>pg \<in> image_pages (file_phdrs bs). address_space P s pg = None"
    and left: "4 * pages_needed (file_phdrs bs) \<le> length (free_frames entries s)"
  shows "image_ok P entries a (file_header bs) (file_phdrs bs) s" "relocation (e_entry (file_header bs)) = 0"
proof -
  show rel: "relocation (e_entry (file_header bs)) = 0" using elf by (simp add: elf_file_def relocation_def not_le)
  have len: "64 \<le> length bs" and o: "unat (e_phoff (file_header bs)) \<le> length bs" using elf by (simp_all add: elf_file_def)
  have "a \<noteq> 0" using a(1) by auto
  note hdr = read_header_file [OF mem this len]
  have st: "settled_range P entries s a 64" using holds_settled [OF mem, of 0 64] len by simp
  have magic: "take 4 (e_ident (file_header bs)) = ELF_MAGIC" using elf by (simp add: elf_file_def file_header_def)
  have "segment_ok P entries a 0 s ph" if "ph \<in> set (file_phdrs bs)" "loadable ph" for ph
    using elf free that by (intro segment_ok_file [OF _ mem a]) (auto simp: elf_file_def list_all_iff image_pages_def)
  then show "image_ok P entries a (file_header bs) (file_phdrs bs) s"
    using hdr st magic elf table_holds_file [OF elf mem a] left o a
    by (simp add: image_ok_def rel elf_file_def) (simp add: file_phdrs_def)
qed

lemma driver_ok_file:
  assumes "elf_file (obj_data d)" "holds P entries s (as_ptr d) (obj_data d)" "0 < unat (as_ptr d)"
    "unat (as_ptr d) + length (obj_data d) < 2 ^ 64" "\<forall>pg \<in> image_pages (file_phdrs (obj_data d)). address_space P s pg = None"
    "4 * pages_needed (file_phdrs (obj_data d)) \<le> length (free_frames entries s)"
  shows "driver_ok P entries as_ptr (\<lambda>d. file_header (obj_data d)) (\<lambda>d. file_phdrs (obj_data d)) s d"
  using image_ok_file [OF assms] assms(1,4) by (auto simp: driver_ok_def elf_file_def list_all_iff segment_in_file_def)

text \<open>A segment in place, in terms of the bytes of its file.\<close>

definition segment_of_file :: "('pt, 'p) platform_scheme \<Rightarrow> u8 list \<Rightarrow> elf64_phdr \<Rightarrow> ('pt, 'm) mem_state_scheme \<Rightarrow> bool" where
  "segment_of_file P bs ph s \<longleftrightarrow>
     (\<forall>i < unat (p_memsz ph). read_byte P s (p_vaddr ph + of_nat i) =
        Inr (if i < unat (p_filesz ph) then bs ! (unat (p_offset ph) + i) else 0))"

lemma segment_of_file_in_place:
  assumes "segment_in_place P entries a 0 ph s s'" "segment_in_file bs ph" "holds P entries s a bs"
  shows "segment_of_file P bs ph s'"
  unfolding segment_of_file_def
proof (intro allI impI)
  fix i assume i: "i < unat (p_memsz ph)"
  show "read_byte P s' (p_vaddr ph + of_nat i) = Inr (if i < unat (p_filesz ph) then bs ! (unat (p_offset ph) + i) else 0)"
  proof (cases "i < unat (p_filesz ph)")
    case True
    then have "unat (p_offset ph) + i < length bs" using assms(2) by (simp add: segment_in_file_def)
    then have "read_byte P s (a + of_nat (unat (p_offset ph) + i)) = Inr (bs ! (unat (p_offset ph) + i))"
      using assms(3) unfolding holds_def by blast
    then have "read_byte P s (a + p_offset ph + of_nat i) = Inr (bs ! (unat (p_offset ph) + i))" by (simp add: add.assoc)
    then show ?thesis using True assms(1) by (simp add: segment_in_place_def)
  next
    case False
    then show ?thesis using i assms(1) by (simp add: segment_in_place_def)
  qed
qed

end
