(* ===== verification/Device_Start.thy ===== *)
theory Device_Start
  imports Driver_Start
begin

text \<open>
  The set-up of the devices by the Marshal succeeds: the framebuffer is mapped page by page at the address
  that the Marshal asks for.  Theory \<open>Syscall\<close> shows that this system call keeps the kernel safe; here it does
  what it is for.
\<close>

section \<open>Mapping the framebuffer\<close>

abbreviation fb_flags :: page_flags where
  "fb_flags \<equiv> {PRESENT, WRITABLE, USER_ACCESSIBLE, NO_CACHE}"

definition window :: "('pt, 'dev) hw_platform \<Rightarrow> u64 \<Rightarrow> u64 \<Rightarrow> nat \<Rightarrow> nat \<Rightarrow> ('pt, 'dev) kernel \<Rightarrow> bool" where
  "window P virt phys i n s \<longleftrightarrow> (\<forall>j. i \<le> j \<longrightarrow> j < n \<longrightarrow> address_space P s (page_at virt j) = Some (page_at phys j, fb_flags))"

text \<open>One page: the next mapping of the window, and nothing else.\<close>

lemma map_fb_page:
  assumes laws: "paging_laws P entries" and inv: "mem_inv entries s"
    and v: "page_floor virt = virt" "unat virt + 4096 * n < 2 ^ 47" and p: "page_floor phys = phys" "unat phys + 4096 * n < 2 ^ 52"
    and i: "i < n" and free: "address_space P s (page_at virt i) = None" and left: "3 \<le> length (free_frames entries s)"
  obtains s' where "\<And>is. map_fb_loop P phys virt fb_flags (of_nat i # is) s = map_fb_loop P phys virt fb_flags is s'"
    "extended P entries {page_at virt i} 3 s s'" "address_space P s' (page_at virt i) = Some (page_at phys i, fb_flags)"
    "SCHEDULER s' = SCHEDULER s" "HHDM_OFFSET s' = HHDM_OFFSET s"
proof -
  have u: "unat (of_nat i :: u64) = i" using i p by (intro unat_of_nat_small) simp
  have lt: "unat virt + 4096 * i < 2 ^ 64" "unat phys + 4096 * i < 2 ^ 64" using i v(2) p(2) by simp_all
  note pv = unat_page_at [OF lt(1)] page_floor_page_at [OF v(1) lt(1)] and pp = unat_page_at [OF lt(2)] page_floor_page_at [OF p(1) lt(2)]
  have off: "mul_chk (of_nat i) 4096 = Inr (of_nat (4096 * i) :: u64)" using u lt(1) by (simp add: mul_chk_def mult.commute)
  have o: "unat (of_nat (4096 * i) :: u64) = 4096 * i" using lt by (intro unat_of_nat_small) simp
  have chk: "add_chk phys (of_nat (4096 * i)) = Inr (page_at phys i)" "add_chk virt (of_nat (4096 * i)) = Inr (page_at virt i)"
    using lt o by (simp_all only: add_chk_def page_at_def) simp_all
  have fr: "phys_frame P (page_at phys i) = Some (page_at phys i)"
    using laws pp p(2) i by (simp add: paging_laws_def address_laws_def)
  have va: "unat (page_at virt i) < 2 ^ 47" using pv(1) v(2) i by simp
  obtain s' k where s': "map_page P (page_at phys i) (page_at virt i) fb_flags s = Inr s'" "mem_inv entries s'"
    "s' = s\<lparr>ALLOCATOR := ALLOCATOR s', MAPPER := MAPPER s'\<rparr>" "k \<le> 3" "free_frames entries s' = drop k (free_frames entries s)"
    "address_space P s' = (address_space P s)(page_at virt i \<mapsto> (page_at phys i, fb_flags))"
    by (rule map_page_step [OF laws inv fr va, of fb_flags]) (use pv(2) free left that in metis)
  have keep: "CDT s' = CDT s" "phys_mem s' = phys_mem s" "SCHEDULER s' = SCHEDULER s" "HHDM_OFFSET s' = HHDM_OFFSET s"
    by (subst s'(3), simp)+
  have und: "undisturbed P entries s s'"
    by (rule undisturbed_map [OF _ keep(2)]) (use s'(5,6) free in \<open>auto simp: map_le_def dest: in_set_dropD\<close>)
  show ?thesis
  proof (rule that)
    show "map_fb_loop P phys virt fb_flags (of_nat i # is) s = map_fb_loop P phys virt fb_flags is s'" for "is"
      by (simp only: map_fb_loop.simps off chk s'(1) bindE_Inr)
    show "extended P entries {page_at virt i} 3 s s'" unfolding extended_def using s'(2,4-6) keep(1) und by auto
  qed (use s'(6) keep in simp_all)
qed

lemma map_fb_loop_maps:
  assumes laws: "paging_laws P entries"
    and v: "page_floor virt = virt" "unat virt + 4096 * n < 2 ^ 47" and p: "page_floor phys = phys" "unat phys + 4096 * n < 2 ^ 52"
  shows "i \<le> n \<Longrightarrow> mem_inv entries s \<Longrightarrow> (\<And>j. i \<le> j \<Longrightarrow> j < n \<Longrightarrow> address_space P s (page_at virt j) = None) \<Longrightarrow>
    3 * (n - i) \<le> length (free_frames entries s) \<Longrightarrow>
    \<exists>s'. map_fb_loop P phys virt fb_flags (map of_nat [i..<n]) s = Inr s' \<and>
      extended P entries (page_at virt ` {i..<n}) (3 * (n - i)) s s' \<and> window P virt phys i n s' \<and>
      SCHEDULER s' = SCHEDULER s \<and> HHDM_OFFSET s' = HHDM_OFFSET s"
proof (induction "n - i" arbitrary: i s)
  case 0
  then show ?case by (simp add: extended_def window_def)
next
  case (Suc d)
  then have i: "i < n" and d: "d = n - Suc i" by simp_all
  have left: "3 \<le> length (free_frames entries s)" using Suc.prems(4) i by simp
  obtain s1 where s1: "\<And>is. map_fb_loop P phys virt fb_flags (of_nat i # is) s = map_fb_loop P phys virt fb_flags is s1"
    "extended P entries {page_at virt i} 3 s s1" "address_space P s1 (page_at virt i) = Some (page_at phys i, fb_flags)"
    "SCHEDULER s1 = SCHEDULER s" "HHDM_OFFSET s1 = HHDM_OFFSET s"
    by (rule map_fb_page [OF laws Suc.prems(2) v p i Suc.prems(3) [OF order.refl i] left]) (rule that, assumption+)
  have neq: "page_at virt j \<noteq> page_at virt i" if "i < j" "j < n" for j
    using that v(2) unat_page_at [of virt i] unat_page_at [of virt j] by (auto dest: arg_cong [of _ _ unat])
  have E: "mem_inv entries s1" "\<And>pg. pg \<noteq> page_at virt i \<Longrightarrow> address_space P s1 pg = address_space P s pg"
    "\<exists>k \<le> 3. free_frames entries s1 = drop k (free_frames entries s)" using s1(2) unfolding extended_def by auto
  have "\<exists>s'. map_fb_loop P phys virt fb_flags (map of_nat [Suc i..<n]) s1 = Inr s' \<and>
      extended P entries (page_at virt ` {Suc i..<n}) (3 * (n - Suc i)) s1 s' \<and> window P virt phys (Suc i) n s' \<and>
      SCHEDULER s' = SCHEDULER s1 \<and> HHDM_OFFSET s' = HHDM_OFFSET s1"
  proof (rule Suc.hyps(1) [OF d])
    show "address_space P s1 (page_at virt j) = None" if "Suc i \<le> j" "j < n" for j
      using E(2) neq [of j] Suc.prems(3) [of j] that by simp
    show "3 * (n - Suc i) \<le> length (free_frames entries s1)" using E(3) Suc.prems(4) i by auto
  qed (use i E(1) in simp_all)
  then obtain s' where s': "map_fb_loop P phys virt fb_flags (map of_nat [Suc i..<n]) s1 = Inr s'"
    "extended P entries (page_at virt ` {Suc i..<n}) (3 * (n - Suc i)) s1 s'" "window P virt phys (Suc i) n s'"
    "SCHEDULER s' = SCHEDULER s1" "HHDM_OFFSET s' = HHDM_OFFSET s1" by blast
  have "[i..<n] = i # [Suc i..<n]" using i by (rule upt_conv_Cons)
  then have run: "map_fb_loop P phys virt fb_flags (map of_nat [i..<n]) s = Inr s'" using s1(1) s'(1) by simp
  have "page_at virt i \<notin> page_at virt ` {Suc i..<n}"
  proof
    assume "page_at virt i \<in> page_at virt ` {Suc i..<n}"
    then obtain j where "page_at virt i = page_at virt j" "i < j" "j < n" by auto
    then show False using neq by metis
  qed
  then have "address_space P s' (page_at virt i) = Some (page_at phys i, fb_flags)"
    using s'(2) s1(3) unfolding extended_def by metis
  then have win: "window P virt phys i n s'" using s'(3) unfolding window_def by (metis le_neq_implies_less Suc_leI)
  have "{i..<n} = insert i {Suc i..<n}" using i by auto
  moreover have "3 + 3 * (n - Suc i) = 3 * (n - i)" using i by simp
  ultimately have "extended P entries (page_at virt ` {i..<n}) (3 * (n - i)) s s'"
    using extended_trans [OF s1(2) s'(2)] by simp
  with run win s'(4,5) s1(4,5) show ?case by auto
qed

text \<open>
  The framebuffer as the boot loader describes it: \<open>fb_pages\<close> pages of physical memory from \<open>phys\<close> on, page
  aligned, that fit behind \<open>virt\<close> in user space.
\<close>

definition fb_pages :: "u64 \<Rightarrow> u64 \<Rightarrow> nat" where
  "fb_pages height pitch = (unat height * unat pitch + 4095) div 4096"

definition fb_ok :: "('pt, 'dev) hw_platform \<Rightarrow> u64 \<Rightarrow> u64 \<Rightarrow> u64 \<Rightarrow> u64 \<Rightarrow> u64 \<Rightarrow> bool" where
  "fb_ok P h virt phys height pitch \<longleftrightarrow>
     (\<exists>fb fbs. framebuffer_response P = Some (fb # fbs) \<and> phys = saturating_sub (fb_addr fb) h \<and> height = fb_height fb \<and> pitch = fb_pitch fb) \<and>
     0 < unat height * unat pitch \<and> unat height < 2 ^ 32 \<and> unat pitch < 2 ^ 32 \<and> page_floor virt = virt \<and> page_floor phys = phys \<and>
     unat virt + 4096 * fb_pages height pitch < USER_TOP \<and> unat phys + 4096 * fb_pages height pitch < 2 ^ 52"

lemma sys_map_fb_maps:
  assumes laws: "paging_laws P entries" and inv: "mem_inv entries s" and fb: "fb_ok P (HHDM_OFFSET s) virt phys height pitch"
    and free: "\<And>j. j < fb_pages height pitch \<Longrightarrow> address_space P s (page_at virt j) = None"
    and left: "3 * fb_pages height pitch \<le> length (free_frames entries s)"
  shows "\<exists>s'. sys_map_fb P virt s = Inr (push_bit 32 pitch OR height, s') \<and>
    extended P entries (page_at virt ` {..<fb_pages height pitch}) (3 * fb_pages height pitch) s s' \<and>
    window P virt phys 0 (fb_pages height pitch) s' \<and> SCHEDULER s' = SCHEDULER s \<and> HHDM_OFFSET s' = HHDM_OFFSET s"
proof -
  let ?n = "fb_pages height pitch" and ?size = "height * pitch"
  obtain width where det: "get_framebuffer_details P s = Some (phys, width, height, pitch)"
    using fb by (auto simp: fb_ok_def get_framebuffer_details_def)
  note F = fb [unfolded fb_ok_def]
  have prod: "unat height * unat pitch < 2 ^ 64" using F mult_strict_mono' [of "unat height" "2 ^ 32" "unat pitch" "2 ^ 32"] by simp
  then have size: "unat ?size = unat height * unat pitch" by (simp add: unat_mult_no_overflow)
  have up: "unat height * unat pitch \<le> 4096 * ?n" by (simp add: fb_pages_def)
  then have safe: "is_safe_user_ptr virt ?size" using F size by (simp add: is_safe_user_ptr_iff)
  have sum: "unat ?size + 4095 < 2 ^ 64" using up F size by simp
  then have "unat (?size + 4095) = unat ?size + 4095" using unat_add_no_overflow [of ?size 4095] by simp
  then have n: "unat ((?size + 4095) div 4096) = ?n" by (simp add: unat_div size fb_pages_def)
  obtain s' where s': "map_fb_loop P phys virt fb_flags (map of_nat [0..<?n]) s = Inr s'"
    "extended P entries (page_at virt ` {0..<?n}) (3 * (?n - 0)) s s'" "window P virt phys 0 ?n s'"
    "SCHEDULER s' = SCHEDULER s" "HHDM_OFFSET s' = HHDM_OFFSET s"
    using map_fb_loop_maps [OF laws, of virt ?n phys 0 s] F inv free left by auto
  have "sys_map_fb P virt s = Inr (push_bit 32 pitch OR height, s')"
    using det prod safe sum s'(1) n by (simp add: sys_map_fb_def mul_chk_def add_chk_def Let_def)
  with s' show ?thesis by (auto simp: atLeast0LessThan)
qed

text \<open>Then every byte of the framebuffer is at its address in the window.\<close>

lemma window_translate:
  assumes win: "window P virt phys 0 n s" and v: "page_floor virt = virt" "unat virt + 4096 * n < 2 ^ 64" and i: "i < 4096 * n"
  shows "translate P s (virt + of_nat i) = Some (phys + of_nat i)"
proof -
  have j: "i div 4096 < n" using i by (simp add: less_mult_imp_div_less mult.commute)
  have u: "unat (of_nat i :: u64) = i" using i v(2) by (intro unat_of_nat_small) simp
  then have ui: "unat (virt + of_nat i) = unat virt + i" using unat_add_no_overflow [of virt "of_nat i"] i v(2) by simp
  obtain a where a: "unat virt = 4096 * a" using unat_page_floor [of virt] v(1) by (metis mult.commute)
  have "unat (page_at virt (i div 4096)) = unat virt + 4096 * (i div 4096)" using i v(2) by (intro unat_page_at) simp
  moreover have "unat (page_floor (virt + of_nat i)) = unat virt + 4096 * (i div 4096)" by (simp add: unat_page_floor ui a)
  ultimately have fl: "page_floor (virt + of_nat i) = page_at virt (i div 4096)" by (simp only: word_unat_eq_iff)
  have "unat (of_nat (i mod 4096) :: u64) = i mod 4096" by (intro unat_of_nat_small) (simp add: less_trans [of _ 4096])
  then have "page_offset (virt + of_nat i) = of_nat (i mod 4096)" by (simp only: word_unat_eq_iff unat_page_offset ui a mod_mult_self3 mod_mult_self4)
  moreover have "page_at phys (i div 4096) + of_nat (i mod 4096) = phys + of_nat i"
    by (simp only: page_at_def add.assoc of_nat_add [symmetric] mult_div_mod_eq)
  ultimately show ?thesis using win j by (simp add: translate_address_space fl window_def)
qed

section \<open>The devices of the Marshal\<close>

text \<open>The page for the graphics device and the window for the framebuffer.\<close>

definition device_pages :: "u64 \<Rightarrow> u64 \<Rightarrow> u64 set" where
  "device_pages height pitch = insert 0x40000000 (page_at 0xB0000000 ` {..<fb_pages height pitch})"

abbreviation screen_of :: "u64 \<Rightarrow> u64 \<Rightarrow> screen" where
  "screen_of height pitch \<equiv> set_screen (push_bit 32 pitch OR height) screen_new"

lemma iommu_lockdown_ok:
  "\<exists>r x. sys_iommu_lockdown (syscall_dispatcher P) dev va s = Inr (r, s\<lparr>serial := x\<rparr>)"
proof (cases "is_safe_user_ptr va 0x200000")
  case True
  then show ?thesis
    by (simp add: sys_iommu_lockdown_def syscall_dispatcher_def sys_iommu_def map_device_dma_def say_def) blast
next
  case False
  then show ?thesis
    by (simp add: sys_iommu_lockdown_def syscall_dispatcher_def sys_iommu_def) (rule exI [of _ "serial s"], simp)
qed

lemma grant_device_page:
  assumes laws: "paging_laws P entries" and inv: "mem_inv entries s" and cdt: "CDT s = genesis_cdt"
    and va: "unat va + 4096 < USER_TOP" "page_floor va = va" and none: "address_space P s va = None" and left: "4 \<le> length (free_frames entries s)"
  obtains r s' f where "sys_grant_shared_memory (syscall_dispatcher P) 0 va s = Inr (r, s')" "extended P entries {va} 4 s s'"
    "f \<in> set (free_frames entries s)" "address_space P s' va = Some (f, user_flags)" "SCHEDULER s' = SCHEDULER s" "HHDM_OFFSET s' = HHDM_OFFSET s"
proof -
  obtain f fs where fs: "free_frames entries s = f # fs" "3 \<le> length fs" using left by (cases "free_frames entries s") auto
  have lt: "unat va < 2 ^ 47" using va(1) by simp
  obtain s' k where s': "grant_frame P 0 va s = Inr (va, s')" "mem_inv entries s'"
    "s' = s\<lparr>ALLOCATOR := ALLOCATOR s', MAPPER := MAPPER s'\<rparr>" "k \<le> 3" "free_frames entries s' = drop k fs"
    "address_space P s' = (address_space P s)(va \<mapsto> (f, user_flags))"
    by (rule grant_frame_effect [OF laws inv cdt lt fs(1)]) (use none fs(2) va(2) that in metis)
  have keep: "CDT s' = CDT s" "phys_mem s' = phys_mem s" "SCHEDULER s' = SCHEDULER s" "HHDM_OFFSET s' = HHDM_OFFSET s"
    by (subst s'(3), simp)+
  have fr: "free_frames entries s' = drop (Suc k) (free_frames entries s)" using fs(1) s'(5) by simp
  have und: "undisturbed P entries s s'"
    by (rule undisturbed_map [OF _ keep(2)]) (use fr s'(6) none in \<open>auto simp: map_le_def dest: in_set_dropD\<close>)
  have "is_safe_user_ptr va 4096" using va(1) by (simp add: is_safe_user_ptr_iff)
  then have run: "sys_grant_shared_memory (syscall_dispatcher P) 0 va s = Inr (if va = u64_MAX then Inl () else Inr (), s')"
    using s'(1) by (simp add: sys_grant_shared_memory_def syscall_dispatcher_def sys_grant_def)
  have "\<exists>k \<le> 4. free_frames entries s' = drop k (free_frames entries s)" using fr s'(4) by (intro exI [of _ "Suc k"]) simp
  then have "extended P entries {va} 4 s s'" unfolding extended_def using s'(2,6) keep(1) und by simp
  with that [OF run] s'(6) keep fs(1) show ?thesis by simp
qed

lemma extended_serial [simp]:
  "extended P entries A n (s\<lparr>serial := x\<rparr>) s' = extended P entries A n s s'"
  "extended P entries A n s (s'\<lparr>serial := x\<rparr>) = extended P entries A n s s'"
proof -
  have a: "address_space P (t\<lparr>serial := x\<rparr>) = address_space P t" for t :: "('a, 'b) kernel" by (simp add: address_space_def)
  have tr: "translate P (t\<lparr>serial := x\<rparr>) = translate P t" for t :: "('a, 'b) kernel" by (simp add: fun_eq_iff translate_def)
  have rd: "read_byte P (t\<lparr>serial := x\<rparr>) = read_byte P t" for t :: "('a, 'b) kernel"
    by (simp add: fun_eq_iff read_byte_def tr split: option.split)
  show "extended P entries A n (s\<lparr>serial := x\<rparr>) s' = extended P entries A n s s'"
    "extended P entries A n s (s'\<lparr>serial := x\<rparr>) = extended P entries A n s s'"
    by (simp_all add: extended_def undisturbed_def settled_def mem_inv_def a tr rd)
qed

lemma set_up_devices_ready:
  fixes m :: "('pt, 'dev, 'h) marshal"
  assumes laws: "paging_laws P entries" and inv: "mem_inv entries (sys m)" "CDT (sys m) = genesis_cdt"
    and fb: "fb_ok P (HHDM_OFFSET (sys m)) 0xB0000000 phys height pitch" and size: "fb_pages height pitch \<le> 0x10000"
    and free: "\<And>pg. pg \<in> device_pages height pitch \<Longrightarrow> address_space P (sys m) pg = None"
    and left: "4 + 3 * fb_pages height pitch \<le> length (free_frames entries (sys m))"
  obtains s' f where "set_up_devices P rdx m =
      Inr (m\<lparr>sys := s', marshal_screen := set_screen (push_bit 32 pitch OR height) (marshal_screen m)\<rparr>)"
    "extended P entries (device_pages height pitch) (4 + 3 * fb_pages height pitch) (sys m) s'"
    "window P 0xB0000000 phys 0 (fb_pages height pitch) s'" "SCHEDULER s' = SCHEDULER (sys m)"
    "address_space P s' 0x40000000 = Some (f, user_flags)"
proof -
  let ?n = "fb_pages height pitch" and ?s = "sys m"
  have pf: "page_floor 0x40000000 = 0x40000000" by (simp add: page_floor_def)
  have none: "address_space P ?s 0x40000000 = None" using free by (simp add: device_pages_def)
  have l4: "4 \<le> length (free_frames entries ?s)" using left by simp
  obtain r s1 f where s1: "sys_grant_shared_memory (syscall_dispatcher P) 0 0x40000000 ?s = Inr (r, s1)"
    "extended P entries {0x40000000} 4 ?s s1" "address_space P s1 0x40000000 = Some (f, user_flags)"
    "SCHEDULER s1 = SCHEDULER ?s" "HHDM_OFFSET s1 = HHDM_OFFSET ?s"
    by (rule grant_device_page [OF laws inv _ pf none l4]) (simp, rule that, assumption+)
  obtain r2 x where s2: "sys_iommu_lockdown (syscall_dispatcher P) 0x10DE 0xA0000000 s1 = Inr (r2, s1\<lparr>serial := x\<rparr>)"
    using iommu_lockdown_ok [of P "0x10DE" "0xA0000000" s1] by blast
  let ?s2 = "s1\<lparr>serial := x\<rparr>"
  have neq: "page_at 0xB0000000 j \<noteq> 0x40000000" if "j < ?n" for j
  proof -
    have "unat (page_at 0xB0000000 j) = 0xB0000000 + 4096 * j" using that size unat_page_at [of "0xB0000000" j] by simp
    then show ?thesis by (simp add: word_unat_eq_iff)
  qed
  have E: "mem_inv entries s1" "\<And>pg. pg \<noteq> 0x40000000 \<Longrightarrow> address_space P s1 pg = address_space P ?s pg"
    "\<exists>k \<le> 4. free_frames entries s1 = drop k (free_frames entries ?s)" using s1(2) unfolding extended_def by auto
  have as2: "address_space P ?s2 = address_space P s1" by (simp add: address_space_def)
  have inv2: "mem_inv entries ?s2" using E(1) by (simp add: mem_inv_def)
  have fb2: "fb_ok P (HHDM_OFFSET ?s2) 0xB0000000 phys height pitch" using fb s1(5) by simp
  have free2: "address_space P ?s2 (page_at 0xB0000000 j) = None" if "j < ?n" for j
    unfolding as2 using E(2) [OF neq [OF that]] free [of "page_at 0xB0000000 j"] that by (simp add: device_pages_def)
  have left2: "3 * ?n \<le> length (free_frames entries ?s2)" using E(3) left by auto
  obtain s3 where s3: "sys_map_fb P 0xB0000000 ?s2 = Inr (push_bit 32 pitch OR height, s3)"
    "extended P entries (page_at 0xB0000000 ` {..<?n}) (3 * ?n) s1 s3" "window P 0xB0000000 phys 0 ?n s3" "SCHEDULER s3 = SCHEDULER s1"
  proof -
    have "SCHEDULER ?s2 = SCHEDULER s1" by simp
    with sys_map_fb_maps [OF laws inv2 fb2 free2 left2] that show ?thesis unfolding extended_serial by metis
  qed
  have fbm: "sys_map_framebuffer (syscall_dispatcher P) rdx 0xB0000000 ?s2 = Inr (push_bit 32 pitch OR height, s3)"
    using s3(1) by (simp add: sys_map_framebuffer_def syscall_dispatcher_def)
  have "extended P entries (device_pages height pitch) (4 + 3 * ?n) ?s s3"
    using extended_trans [OF s1(2) s3(2)] by (simp add: device_pages_def)
  moreover have "address_space P s3 0x40000000 = Some (f, user_flags)"
  proof -
    have "0x40000000 \<notin> page_at 0xB0000000 ` {..<?n}" 
    proof
      assume "0x40000000 \<in> page_at 0xB0000000 ` {..<?n}"
      then obtain j where "j \<in> {..<?n}" "0x40000000 = page_at 0xB0000000 j" by (rule imageE)
      then show False using neq [of j] unfolding lessThan_iff by argo
    qed
    then show ?thesis using s3(2) s1(3) by (simp add: extended_def)
  qed
  moreover have "set_up_devices P rdx m = Inr (m\<lparr>sys := s3, marshal_screen := set_screen (push_bit 32 pitch OR height) (marshal_screen m)\<rparr>)"
    by (simp add: set_up_devices_def s1(1) s2 fbm)
  ultimately show ?thesis using that [of s3 f] s3(3,4) s1(4) by simp
qed

end
