(* ===== verification/System_Start.thy ===== *)
theory System_Start
  imports Boot Elf_File Device_Start
begin

text \<open>
  From power on to the desktop: the boot sequence of the kernel (theory \<open>Boot\<close>), the dispatch of the first
  process by a worker core (theory \<open>Smp\<close>), the start of the Marshal (theories \<open>Driver_Start\<close> and
  \<open>Device_Start\<close>) and its application stage (theory \<open>Marshal\<close>) composed.  What each stage needs of the state is
  derived from the stage before; the assumptions that remain are about the machine, the memory map
  and the bytes of the files.
\<close>

section \<open>Files in the archive\<close>

text \<open>Where the contents of the \<open>k\<close>-th member begin.\<close>

definition member_pos :: "tar_file list \<Rightarrow> nat \<Rightarrow> nat" where
  "member_pos files k = length (concat (map tar_entry (take k files))) + 512"

lemma member_data:
  assumes ok: "list_all file_ok files" and k: "k < length files"
  shows "member_pos files k + length (f_data (files ! k)) \<le> length (tar_archive files)"
    "take (length (f_data (files ! k))) (drop (member_pos files k) (tar_archive files)) = f_data (files ! k)"
proof -
  let ?pre = "concat (map tar_entry (take k files))" and ?f = "files ! k"
  have "files = take k files @ ?f # drop (Suc k) files" using k by (simp add: id_take_nth_drop)
  then have "map tar_entry files = map tar_entry (take k files) @ tar_entry ?f # map tar_entry (drop (Suc k) files)"
    by (metis list.simps(9) map_append)
  then have split: "tar_archive files = (?pre @ tar_header ?f) @ f_data ?f @
      (replicate (padding (length (f_data ?f))) 0 @ concat (map tar_entry (drop (Suc k) files)) @ replicate 1024 0)"
    by (simp add: tar_archive_def tar_entry_def)
  have "length (tar_header ?f) = 512" using ok k by (intro length_tar_header) (simp add: list_all_length)
  then have len: "length (?pre @ tar_header ?f) = member_pos files k" by (simp add: member_pos_def)
  show "member_pos files k + length (f_data ?f) \<le> length (tar_archive files)"
    unfolding split length_append [of "?pre @ tar_header ?f"] len by simp
  show "take (length (f_data ?f)) (drop (member_pos files k) (tar_archive files)) = f_data ?f"
    unfolding split len [symmetric] by simp
qed

text \<open>
  The address of a slice of the archive, \<^verbatim>\<open>obj.data.as_ptr()\<close>: the archive is at \<open>arch\<close>.  An object is given
  by its contents, so members that are equal in name and data may share one address.
\<close>

definition slices_of :: "u64 \<Rightarrow> tar_file list \<Rightarrow> (tar_object \<Rightarrow> u64) \<Rightarrow> bool" where
  "slices_of arch files as_ptr \<longleftrightarrow>
     (\<forall>k < length files. \<exists>j < length files. object_of (files ! j) = object_of (files ! k) \<and>
        as_ptr (object_of (files ! k)) = arch + of_nat (member_pos files j))"

lemma slice_held:
  assumes ok: "list_all file_ok files" and sl: "slices_of arch files as_ptr" and mem: "holds P entries s arch (tar_archive files)"
    and a: "0 < unat arch" "unat arch + length (tar_archive files) < 2 ^ 64" and d: "d \<in> set (map object_of files)"
  shows "holds P entries s (as_ptr d) (obj_data d)" "0 < unat (as_ptr d)" "unat (as_ptr d) + length (obj_data d) < 2 ^ 64"
proof -
  from d obtain k where "k < length files" "d = object_of (files ! k)" by (auto simp: in_set_conv_nth)
  with sl obtain j where j: "j < length files" "object_of (files ! j) = d" "as_ptr d = arch + of_nat (member_pos files j)"
    unfolding slices_of_def by blast
  have data: "obj_data d = f_data (files ! j)" by (simp add: object_of_def flip: j(2))
  note m = member_data [OF ok j(1)]
  show "holds P entries s (as_ptr d) (obj_data d)" using holds_part [OF mem m(1)] by (simp add: m(2) data j(3))
  have "unat (as_ptr d) = unat arch + member_pos files j" using file_address(1) [OF a, of "member_pos files j"] m(1) by (simp add: j(3))
  then show "0 < unat (as_ptr d)" "unat (as_ptr d) + length (obj_data d) < 2 ^ 64" using a m(1) by (simp_all add: data)
qed

lemma named_subset: "set (named table name) \<subseteq> set table"
  by (auto simp: named_def)

lemma requests_subset: "set (requests kw table ls) \<subseteq> set table"
  using named_subset by (fastforce simp: requests_def split: option.splits)

section \<open>The image of the Marshal\<close>

text \<open>
  The archive is a constant of the Marshal, so it lies in the file bytes of a loadable segment; the region
  that its first instructions clear lies in the zeros behind the file bytes of segments.
\<close>

definition archive_at :: "('pt, 'dev) hw_platform \<Rightarrow> ('pt, 'dev) kernel \<Rightarrow> u64 \<Rightarrow> elf64_header \<Rightarrow> elf64_phdr list \<Rightarrow> u64 \<Rightarrow> u8 list \<Rightarrow> bool" where
  "archive_at P B b hdr phs arch archive \<longleftrightarrow>
     (\<exists>ph \<in> set phs. loadable ph \<and> (\<exists>off. off + length archive \<le> unat (p_filesz ph) \<and>
        arch = p_vaddr ph - relocation (e_entry hdr) + of_nat off \<and>
        (\<forall>i < length archive. read_byte P B (b + p_offset ph + of_nat (off + i)) = Inr (archive ! i))))"

definition bss_in_zeros :: "elf64_header \<Rightarrow> elf64_phdr list \<Rightarrow> u64 \<Rightarrow> u64 \<Rightarrow> bool" where
  "bss_in_zeros hdr phs bss_start bss_end \<longleftrightarrow>
     (\<forall>i < unat (bss_end - bss_start). \<exists>ph \<in> set phs. loadable ph \<and> (\<exists>j. unat (p_filesz ph) \<le> j \<and> j < unat (p_memsz ph) \<and>
        bss_start + of_nat i = p_vaddr ph - relocation (e_entry hdr) + of_nat j))"

lemma archive_held:
  assumes img: "god_image P entries h b hdr phs B" and at: "archive_at P B b hdr phs arch archive"
    and place: "\<And>ph. ph \<in> set phs \<Longrightarrow> loadable ph \<Longrightarrow> segment_in_place P entries b (relocation (e_entry hdr)) ph B s"
  shows "holds P entries s arch archive" "0 < unat arch" "unat arch + length archive < 2 ^ 64"
proof -
  let ?r = "relocation (e_entry hdr)"
  obtain ph off where ph: "ph \<in> set phs" "loadable ph" and off: "off + length archive \<le> unat (p_filesz ph)"
    "arch = p_vaddr ph - ?r + of_nat off"
    "\<forall>i < length archive. read_byte P B (b + p_offset ph + of_nat (off + i)) = Inr (archive ! i)"
    using at unfolding archive_at_def by blast
  note pl = place [OF ph, unfolded segment_in_place_def]
  have so: "segment_ok P entries b ?r B ph" using img ph by (simp add: god_image_def image_ok_def)
  then have bounds: "4096 \<le> unat (p_vaddr ph - ?r)" "unat (p_vaddr ph - ?r) + unat (p_memsz ph) + 4095 < 2 ^ 47"
    "unat (p_filesz ph) \<le> unat (p_memsz ph)" by (simp_all add: segment_ok_def word_le_nat_alt)
  have at_i: "arch + of_nat i = p_vaddr ph - ?r + of_nat (off + i)" for i by (simp add: off(2) add.assoc)
  show "holds P entries s arch archive"
    unfolding holds_def
  proof (intro allI impI)
    fix i assume i: "i < length archive"
    then have lt: "off + i < unat (p_filesz ph)" "off + i < unat (p_memsz ph)" using off(1) bounds(3) by simp_all
    show "read_byte P s (arch + of_nat i) = Inr (archive ! i) \<and> settled P entries s (arch + of_nat i)"
      unfolding at_i using pl lt off(3) i by metis
  qed
  have "unat (of_nat off :: u64) = off" using off(1) bounds(2,3) by (intro unat_of_nat_small) simp
  then have "unat arch = unat (p_vaddr ph - ?r) + off"
    using unat_add_no_overflow [of "p_vaddr ph - ?r" "of_nat off"] off(1,2) bounds by simp
  then show "0 < unat arch" "unat arch + length archive < 2 ^ 64" using bounds off(1) by simp_all
qed

text \<open>Clearing memory that is zero changes nothing.\<close>

lemma write_byte_same: "read_byte P s a = Inr b \<Longrightarrow> write_byte P a b s = Inr s"
  by (auto simp: read_byte_def write_byte_def split: option.splits)

lemma write_zeros_same:
  "(\<And>i. i < n \<Longrightarrow> read_byte P s (a + of_nat i) = Inr 0) \<Longrightarrow> write_bytes P a (replicate n 0) s = Inr s"
proof (induction n arbitrary: a)
  case (Suc n)
  have "read_byte P s a = Inr 0" using Suc.prems [of 0] by simp
  moreover have "read_byte P s (a + 1 + of_nat i) = Inr 0" if "i < n" for i using Suc.prems [of "Suc i"] that by (simp add: add_ac)
  ultimately show ?case using Suc.IH [of "a + 1"] by (simp add: write_byte_same)
qed simp

lemma bss_cleared:
  assumes bss: "bss_in_zeros hdr phs bss_start bss_end"
    and place: "\<And>ph. ph \<in> set phs \<Longrightarrow> loadable ph \<Longrightarrow> segment_in_place P entries b (relocation (e_entry hdr)) ph B s"
  shows "user_memset P bss_start 0 (bss_end - bss_start) s = Inr s"
  unfolding user_memset_def
proof (rule write_zeros_same)
  fix i assume "i < unat (bss_end - bss_start)"
  with bss obtain ph j where "ph \<in> set phs" "loadable ph" "unat (p_filesz ph) \<le> j" "j < unat (p_memsz ph)"
    "bss_start + of_nat i = p_vaddr ph - relocation (e_entry hdr) + of_nat j"
    unfolding bss_in_zeros_def by blast
  with place [of ph] show "read_byte P s (bss_start + of_nat i) = Inr 0" by (simp add: segment_in_place_def)
qed

section \<open>Room for the drivers\<close>

text \<open>
  A page that is free once the first process is loaded, and drivers that are valid executables with pages
  and frames enough for their segments and stacks beside the heap of the Marshal.
\<close>

definition unclaimed :: "('pt, 'dev) hw_platform \<Rightarrow> u64 \<Rightarrow> elf64_header \<Rightarrow> elf64_phdr list \<Rightarrow> u64 \<Rightarrow> bool" where
  "unclaimed P h hdr phs pg \<longleftrightarrow> unat pg < 2 ^ 47 \<and> boot_space P h pg = None \<and> pg \<notin> god_stack_pages \<and>
     (\<forall>ph \<in> set phs. loadable ph \<longrightarrow> pg \<notin> seg_pages (relocation (e_entry hdr)) ph)"

abbreviation driver_header :: "tar_object \<Rightarrow> elf64_header" where
  "driver_header d \<equiv> file_header (obj_data d)"

abbreviation driver_phdrs :: "tar_object \<Rightarrow> elf64_phdr list" where
  "driver_phdrs d \<equiv> file_phdrs (obj_data d)"

definition drivers_fit :: "('pt, 'dev) hw_platform \<Rightarrow> mem_entry list \<Rightarrow> u64 \<Rightarrow> elf64_header \<Rightarrow> elf64_phdr list \<Rightarrow> tar_object list \<Rightarrow> bool" where
  "drivers_fit P entries h hdr phs ds \<longleftrightarrow>
     (\<forall>d \<in> set ds. elf_file (obj_data d)) \<and> 0x600000000000 + 0x100000 * length ds < USER_TOP \<and>
     disjoint_list (heap_pages # claims driver_phdrs 0x600000000000 ds) \<and>
     (\<forall>pg \<in> \<Union>(set (heap_pages # claims driver_phdrs 0x600000000000 ds)). unclaimed P h hdr phs pg) \<and>
     4 * pages_needed phs + 137 + (frames_needed driver_phdrs ds + 4 * 4096) \<le> length (all_frames entries)"

lemma god_memory_unclaimed:
  assumes "god_memory P entries h hdr phs B s" "unclaimed P h hdr phs pg"
  shows "address_space P s pg = None"
  using assms by (simp add: god_memory_def unclaimed_def)

lemma pages_needed_frames: "d \<in> set ds \<Longrightarrow> 4 * pages_needed (Q d) \<le> frames_needed Q ds"
  by (induction ds) (auto simp: frames_needed_def)

lemma room_for_drivers:
  assumes god: "god_memory P entries h hdr phs B s" and fit: "drivers_fit P entries h hdr phs ds"
    and inv: "kernel_inv entries s" "exclusive_frames P entries s"
    and files: "\<And>d. d \<in> set ds \<Longrightarrow> holds P entries s (as_ptr d) (obj_data d) \<and> 0 < unat (as_ptr d) \<and> unat (as_ptr d) + length (obj_data d) < 2 ^ 64"
  shows "startable P entries as_ptr driver_header driver_phdrs 0x600000000000 ds s" "region_free P entries HEAP_START HEAP_SIZE s"
    "frames_needed driver_phdrs ds + 4 * 4096 \<le> length (free_frames entries s)"
proof -
  let ?cl = "claims driver_phdrs 0x600000000000 ds"
  have D: "\<And>d. d \<in> set ds \<Longrightarrow> elf_file (obj_data d)" "0x600000000000 + 0x100000 * length ds < USER_TOP" "disjoint_list ?cl"
    "4 * pages_needed phs + 137 + (frames_needed driver_phdrs ds + 4 * 4096) \<le> length (all_frames entries)"
    using fit by (simp_all add: drivers_fit_def)
  have U: "unclaimed P h hdr phs pg" if "pg \<in> heap_pages \<or> pg \<in> \<Union>(set ?cl)" for pg
    using fit that unfolding drivers_fit_def by (metis UnCI Union_insert list.set(2))
  have unmapped: "address_space P s pg = None" if "pg \<in> heap_pages \<or> pg \<in> \<Union>(set ?cl)" for pg
    by (rule god_memory_unclaimed [OF god U [OF that]])
  obtain k where k: "k \<le> 4 * pages_needed phs + 137" "free_frames entries s = drop k (all_frames entries)"
    using god unfolding god_memory_def by blast
  then show left: "frames_needed driver_phdrs ds + 4 * 4096 \<le> length (free_frames entries s)" using D(4) by simp
  have K: "mem_inv entries s" "CDT s = genesis_cdt" "sched_inv (SCHEDULER s)" "distinct (free_frames entries s)"
    using inv by (simp_all add: kernel_inv_def exclusive_frames_def)
  have "driver_ok P entries as_ptr driver_header driver_phdrs s d" if d: "d \<in> set ds" for d
  proof (rule driver_ok_file)
    show "\<forall>pg \<in> image_pages (driver_phdrs d). address_space P s pg = None"
      using image_claimed [OF d, of driver_phdrs] unmapped by blast
    show "4 * pages_needed (driver_phdrs d) \<le> length (free_frames entries s)"
      using pages_needed_frames [OF d, of driver_phdrs] left by simp
  qed (use D(1) d files in auto)
  then show "startable P entries as_ptr driver_header driver_phdrs 0x600000000000 ds s"
    unfolding startable_def using K D(2,3) unmapped left by auto
  show "region_free P entries HEAP_START HEAP_SIZE s"
    unfolding region_free_def using K left unmapped by (auto simp: HEAP_SIZE_def)
qed

text \<open>The machine when the first worker has taken the Marshal from the run queue.\<close>

lemma god_process_dispatched:
  fixes P :: "('pt, 'dev) hw_platform"
  assumes boots: "boots P L sel c entries h" "base_revision_supported L" "module_response L = Some ((b, len) # ms)"
    and img: "god_image P entries h b hdr phs (boot_state P h dev ram)"
  obtains m q s where "start P L kimg sel (power_on dev ram c) = Inr (Some (image_entry hdr, m))"
    "worker_iteration n w (SCHEDULER (kern m)) =
      (In_User n (drop_to_user_mode (image_entry hdr) god_stack w) (image_entry hdr) god_stack, q)"
    "s = (kern m)\<lparr>SCHEDULER := q\<rparr>" "ready_queue (SCHEDULER s) = []" "free_slots (SCHEDULER s) = 63"
    "kernel_inv entries s" "exclusive_frames P entries s" "HHDM_OFFSET s = h" "god_memory P entries h hdr phs (boot_state P h dev ram) s"
    "\<And>ph. ph \<in> set phs \<Longrightarrow> loadable ph \<Longrightarrow> segment_in_place P entries b (relocation (e_entry hdr)) ph (boot_state P h dev ram) s"
proof -
  let ?B = "boot_state P h dev ram" and ?e = "image_entry hdr" and ?r = "relocation (e_entry hdr)"
  obtain m where m: "start P L kimg sel (power_on dev ram c) = Inr (Some (?e, m))" "kernel_inv entries (kern m)"
    "exclusive_frames P entries (kern m)" "ready_queue (SCHEDULER (kern m)) = [(?e, god_stack)]"
    "\<And>ph. ph \<in> set phs \<Longrightarrow> loadable ph \<Longrightarrow> segment_in_place P entries b ?r ph ?B (kern m)"
    "god_memory P entries h hdr phs ?B (kern m)" "free_slots (SCHEDULER (kern m)) = 63" "HHDM_OFFSET (kern m) = h"
    using boot_god_process [OF boots img, of kimg] by blast
  have sched: "sched_inv (SCHEDULER (kern m))" using m(2) by (simp add: kernel_inv_def)
  obtain q where q: "pop_ready_thread (SCHEDULER (kern m)) = (Some (?e, god_stack), q)" "sched_inv q" "ready_queue q = []"
    "free_slots q = 63"
    using pop_ready_thread_cons [OF sched m(4)] m(7) by (auto simp: free_slots_def)
  define s where "s = (kern m)\<lparr>SCHEDULER := q\<rparr>"
  have as: "address_space P s = address_space P (kern m)" by (simp add: s_def address_space_def)
  have und: "undisturbed P entries (kern m) s" by (simp add: s_def)
  have alloc: "ALLOCATOR s = ALLOCATOR (kern m)" by (simp add: s_def)
  show thesis
  proof (rule that [OF m(1) _ s_def])
    show "worker_iteration n w (SCHEDULER (kern m)) = (In_User n (drop_to_user_mode ?e god_stack w) ?e god_stack, q)"
      by (simp add: worker_iteration_def q(1))
    show "ready_queue (SCHEDULER s) = []" "free_slots (SCHEDULER s) = 63" using q(3,4) by (simp_all add: s_def)
    show "kernel_inv entries s" using m(2) q(2) by (simp add: kernel_inv_def mem_inv_def s_def)
    show "exclusive_frames P entries s" using m(3) by (simp add: exclusive_frames_def user_page_cong [OF as] alloc)
    show "HHDM_OFFSET s = h" using m(8) by (simp add: s_def)
    show "god_memory P entries h hdr phs ?B s"
      using m(6) undisturbed_trans [OF _ und] unfolding god_memory_def as alloc by blast
    show "segment_in_place P entries b ?r ph ?B s" if "ph \<in> set phs" "loadable ph" for ph
    proof (rule segment_in_place_later [OF m(5) [OF that] _ und])
      show "p_filesz ph \<le> p_memsz ph" using img that by (auto simp: god_image_def image_ok_def segment_ok_def)
    qed
  qed
qed

text \<open>The files of the archive, where the Marshal finds them.\<close>

lemma files_held:
  assumes img: "god_image P entries h b hdr phs B" and arch: "archive_at P B b hdr phs arch (tar_archive files)"
    and files: "list_all file_ok files" "slices_of arch files as_ptr"
    and place: "\<And>ph. ph \<in> set phs \<Longrightarrow> loadable ph \<Longrightarrow> segment_in_place P entries b (relocation (e_entry hdr)) ph B s"
    and d: "d \<in> set (requests kw (map object_of files) ls)"
  shows "holds P entries s (as_ptr d) (obj_data d)" "0 < unat (as_ptr d)" "unat (as_ptr d) + length (obj_data d) < 2 ^ 64"
proof -
  have archive: "holds P entries s arch (tar_archive files)" "0 < unat arch" "unat arch + length (tar_archive files) < 2 ^ 64"
    by (rule archive_held [OF img arch], rule place, assumption+)+
  have "d \<in> set (map object_of files)" using d requests_subset by blast
  from slice_held [OF files archive this]
  show "holds P entries s (as_ptr d) (obj_data d)" "0 < unat (as_ptr d)" "unat (as_ptr d) + length (obj_data d) < 2 ^ 64" .
qed

text \<open>The Marshal on this machine, up to the point where the drivers are started.\<close>

lemma drivers_after_dispatch:
  fixes P :: "('pt, 'dev) hw_platform" and M :: "('pt, 'dev, 'h) marshal"
  assumes laws: "paging_laws P entries" and img: "god_image P entries h b hdr phs B"
    and arch: "archive_at P B b hdr phs arch (tar_archive files)" "bss_in_zeros hdr phs bss_start bss_end"
    and files: "list_all file_ok files" "slices_of arch files as_ptr"
    and table: "table = map object_of files" "ds = requests ''driver:'' table (config_lines table)" "apps = requests ''app:'' table (config_lines table)"
    and fit: "drivers_fit P entries h hdr phs ds"
    and q: "ready_queue (SCHEDULER s) = []" "free_slots (SCHEDULER s) = 63"
    and S: "kernel_inv entries s" "exclusive_frames P entries s" "god_memory P entries h hdr phs B s"
    and place: "\<And>ph. ph \<in> set phs \<Longrightarrow> loadable ph \<Longrightarrow> segment_in_place P entries b (relocation (e_entry hdr)) ph B s"
  obtains m' where "marshal_start P inner_init as_ptr rdx bss_start bss_end (tar_archive files) (M\<lparr>sys := s\<rparr>) =
      bindE (set_up_devices P rdx m') (set_up_stack P)"
    "\<And>d ph. d \<in> set ds \<Longrightarrow> ph \<in> set (driver_phdrs d) \<Longrightarrow> loadable ph \<Longrightarrow> segment_in_place P entries (as_ptr d) 0 ph s (sys m')"
    "ready_queue (SCHEDULER (sys m')) =
      take 63 (map (\<lambda>k. (e_entry (driver_header (ds ! k)), 0x600000000000 + of_nat k * 0x100000 + 0x10000)) [0..<length ds])"
    "apps \<noteq> [] \<longrightarrow> WASM_DATA_PTR m' = as_ptr (last apps) \<and> WASM_DATA_LEN m' = of_nat (length (obj_data (last apps)))"
    "screen_kept (M\<lparr>sys := s\<rparr>) m'"
    "extended P entries (heap_pages \<union> \<Union>(set (claims driver_phdrs 0x600000000000 ds))) (4 * 4096 + frames_needed driver_phdrs ds) s (sys m')"
proof -
  have bss: "user_memset P bss_start 0 (bss_end - bss_start) s = Inr s" by (rule bss_cleared [OF arch(2)], rule place)
  have ds: "holds P entries s (as_ptr d) (obj_data d) \<and> 0 < unat (as_ptr d) \<and> unat (as_ptr d) + length (obj_data d) < 2 ^ 64"
    if "d \<in> set ds" for d
    using files_held [OF img arch(1) files place] that unfolding table by blast
  note room = room_for_drivers [OF S(3) fit S(1,2), of as_ptr]
  have apart: "page_at HEAP_START j \<notin> A" if "A \<in> set (claims driver_phdrs 0x600000000000 ds)" "j < 4096" for A j
    using fit that unfolding drivers_fit_def by (auto simp: list_all_iff)
  have "\<exists>m'. marshal_start P inner_init as_ptr rdx bss_start bss_end (tar_archive files) (M\<lparr>sys := s\<rparr>) =
      bindE (set_up_devices P rdx m') (set_up_stack P) \<and>
    (\<forall>d \<in> set ds. \<forall>ph \<in> set (driver_phdrs d). loadable ph \<longrightarrow> segment_in_place P entries (as_ptr d) 0 ph s (sys m')) \<and>
    ready_queue (SCHEDULER (sys m')) = ready_queue (SCHEDULER s) @ take (free_slots (SCHEDULER s))
      (map (\<lambda>k. (e_entry (driver_header (ds ! k)), 0x600000000000 + of_nat k * 0x100000 + 0x10000)) [0..<length ds]) \<and>
    (apps \<noteq> [] \<longrightarrow> WASM_DATA_PTR m' = as_ptr (last apps) \<and> WASM_DATA_LEN m' = of_nat (length (obj_data (last apps)))) \<and>
    screen_kept (M\<lparr>sys := s\<rparr>) m' \<and>
    extended P entries (heap_pages \<union> \<Union>(set (claims driver_phdrs 0x600000000000 ds))) (4 * 4096 + frames_needed driver_phdrs ds) s (sys m')"
    using marshal_starts_drivers [OF table laws files(1) _ room(2,1) [OF ds] apart room(3) [OF ds],
        of bss_start bss_end "M\<lparr>sys := s\<rparr>" inner_init rdx] bss by (simp, blast)
  then show ?thesis using that unfolding q append_Nil by blast
qed

section \<open>Devices and stack\<close>

abbreviation deep_pages :: "u64 set" where
  "deep_pages \<equiv> page_at deep_stack_base ` {..<4096}"

text \<open>Room for the framebuffer and the stack of the application as well.\<close>

definition desktop_fit :: "('pt, 'dev) hw_platform \<Rightarrow> mem_entry list \<Rightarrow> u64 \<Rightarrow> elf64_header \<Rightarrow> elf64_phdr list \<Rightarrow> u64 \<Rightarrow> u64 \<Rightarrow> tar_object list \<Rightarrow> bool" where
  "desktop_fit P entries h hdr phs height pitch ds \<longleftrightarrow>
     drivers_fit P entries h hdr phs ds \<and> device_pages height pitch \<inter> deep_pages = {} \<and>
     (\<forall>pg \<in> device_pages height pitch \<union> deep_pages. unclaimed P h hdr phs pg \<and> pg \<notin> heap_pages \<and>
        pg \<notin> \<Union>(set (claims driver_phdrs 0x600000000000 ds))) \<and>
     4 * pages_needed phs + 137 + (4 * 4096 + frames_needed driver_phdrs ds) + (4 + 3 * fb_pages height pitch) + 4 * 4096
       \<le> length (all_frames entries)"

lemma devices_and_stack:
  fixes m :: "('pt, 'dev, 'h) marshal"
  assumes laws: "paging_laws P entries" and god: "god_memory P entries h hdr phs B s" and fit: "desktop_fit P entries h hdr phs height pitch ds"
    and inv: "CDT s = genesis_cdt" "distinct (free_frames entries s)"
    and ext: "extended P entries (heap_pages \<union> \<Union>(set (claims driver_phdrs 0x600000000000 ds))) (4 * 4096 + frames_needed driver_phdrs ds) s (sys m)"
    and fb: "fb_ok P (HHDM_OFFSET (sys m)) 0xB0000000 phys height pitch" "fb_pages height pitch \<le> 0x10000"
  obtains s' where "bindE (set_up_devices P rdx m) (set_up_stack P) = Inr (deep_stack_base + deep_stack_size,
      m\<lparr>sys := s', marshal_screen := set_screen (push_bit 32 pitch OR height) (marshal_screen m)\<rparr>)"
    "undisturbed P entries (sys m) s'" "window P 0xB0000000 phys 0 (fb_pages height pitch) s'" "SCHEDULER s' = SCHEDULER (sys m)"
    "\<And>i. i < unat deep_stack_size \<Longrightarrow> read_byte P s' (deep_stack_base + of_nat i) = Inr 0"
proof -
  let ?D = "device_pages height pitch" and ?n = "fb_pages height pitch"
  have size: "unat deep_stack_size div 4096 = 4096" by (simp add: deep_stack_size_def)
  have F: "unclaimed P h hdr phs pg" "pg \<notin> heap_pages \<union> \<Union>(set (claims driver_phdrs 0x600000000000 ds))" if "pg \<in> ?D \<union> deep_pages" for pg
    using fit that unfolding desktop_fit_def by blast+
  have E: "mem_inv entries (sys m)" "CDT (sys m) = genesis_cdt"
    using ext inv(1) unfolding extended_def by simp_all
  have none: "address_space P (sys m) pg = None" if "pg \<in> ?D \<union> deep_pages" for pg
    using ext F(2) [OF that] god_memory_unclaimed [OF god F(1) [OF that]] unfolding extended_def by simp
  obtain k where k: "k \<le> 4 * 4096 + frames_needed driver_phdrs ds" "free_frames entries (sys m) = drop k (free_frames entries s)"
    using ext unfolding extended_def by blast
  obtain g where g: "g \<le> 4 * pages_needed phs + 137" "free_frames entries s = drop g (all_frames entries)"
    using god unfolding god_memory_def by blast
  have "4 * pages_needed phs + 137 + (4 * 4096 + frames_needed driver_phdrs ds) + (4 + 3 * ?n) + 4 * 4096 \<le> length (all_frames entries)"
    using fit unfolding desktop_fit_def by blast
  moreover have "length (free_frames entries (sys m)) = length (all_frames entries) - g - k" using k(2) g(2) by simp
  ultimately have left: "4 + 3 * ?n + 4 * 4096 \<le> length (free_frames entries (sys m))" using k(1) g(1) by linarith
  obtain s1 f where s1: "set_up_devices P rdx m =
      Inr (m\<lparr>sys := s1, marshal_screen := set_screen (push_bit 32 pitch OR height) (marshal_screen m)\<rparr>)"
    "extended P entries ?D (4 + 3 * ?n) (sys m) s1" "window P 0xB0000000 phys 0 ?n s1" "SCHEDULER s1 = SCHEDULER (sys m)"
    by (rule set_up_devices_ready [OF laws E fb, of rdx]) (use none left that in auto)
  let ?m1 = "m\<lparr>sys := s1, marshal_screen := set_screen (push_bit 32 pitch OR height) (marshal_screen m)\<rparr>"
  have G: "mem_inv entries s1" "CDT s1 = genesis_cdt" "\<And>pg. pg \<notin> ?D \<Longrightarrow> address_space P s1 pg = address_space P (sys m) pg"
    using s1(2) E(2) unfolding extended_def by simp_all
  obtain j where j: "j \<le> 4 + 3 * ?n" "free_frames entries s1 = drop j (free_frames entries (sys m))" using s1(2) unfolding extended_def by blast
  have dist: "distinct (free_frames entries s1)" unfolding j(2) k(2) using inv(2) by (intro distinct_drop)
  have deep: "pg \<notin> ?D" if "pg \<in> deep_pages" for pg using fit that unfolding desktop_fit_def by blast
  have free: "region_free P entries deep_stack_base deep_stack_size s1"
    unfolding region_free_def size using G(1,2) dist left j G(3) [OF deep] none by auto
  obtain s2 where s2: "set_up_stack P ?m1 = Inr (deep_stack_base + deep_stack_size, ?m1\<lparr>sys := s2\<rparr>)"
    "region_ready P entries deep_stack_base deep_stack_size s1 s2"
    using set_up_stack_ready [OF laws, of ?m1] free by auto
  have R: "undisturbed P entries s1 s2" "SCHEDULER s2 = SCHEDULER s1" "\<And>pg. pg \<notin> deep_pages \<Longrightarrow> address_space P s2 pg = address_space P s1 pg"
    "\<And>i. i < unat deep_stack_size \<Longrightarrow> read_byte P s2 (deep_stack_base + of_nat i) = Inr 0"
    using s2(2) unfolding region_ready_def size by auto
  have "page_at 0xB0000000 j \<notin> deep_pages" if "j < ?n" for j using that deep by (auto simp: device_pages_def)
  then have win: "window P 0xB0000000 phys 0 ?n s2" using s1(3) R(3) unfolding window_def by simp
  have "undisturbed P entries (sys m) s2" using undisturbed_trans [OF _ R(1)] s1(2) unfolding extended_def by blast
  moreover have "bindE (set_up_devices P rdx m) (set_up_stack P) = Inr (deep_stack_base + deep_stack_size,
      m\<lparr>sys := s2, marshal_screen := set_screen (push_bit 32 pitch OR height) (marshal_screen m)\<rparr>)"
    using s1(1) s2(1) by simp
  ultimately show ?thesis using that win R(2,4) s1(4) by simp
qed

lemma screen_set:
  assumes "12 \<le> unat height" "unat height < 2 ^ 30" "unat pitch < 2 ^ 32"
  shows "FB_WIDTH (screen_of height pitch) = pitch div 4" "FB_HEIGHT (screen_of height pitch) = height" "FB_PTR (screen_of height pitch) \<noteq> 0"
proof -
  let ?m = "push_bit 32 pitch OR height"
  have h: "unat height < 2 ^ 32" using assms(2) by simp
  note parts = fb_meta_parts [OF h assms(3)]
  have "?m \<noteq> 0" using parts assms(1) by auto
  moreover have "?m \<noteq> u64_MAX"
  proof
    assume "?m = u64_MAX"
    with parts(2) have "height = u64_MAX AND 0xFFFFFFFF" by simp
    then show False using assms(2) by simp
  qed
  ultimately show "FB_WIDTH (screen_of height pitch) = pitch div 4" "FB_HEIGHT (screen_of height pitch) = height" "FB_PTR (screen_of height pitch) \<noteq> 0"
    using parts by (simp_all add: set_screen_def)
qed

text \<open>Any word on the new stack can hold the command of a trace.\<close>

lemma stack_cmd_ok:
  assumes zero: "\<And>i. i < unat deep_stack_size \<Longrightarrow> read_byte P s (deep_stack_base + of_nat i) = Inr 0"
    and cmd: "deep_stack_base \<le> cmd" "unat cmd + 8 \<le> unat (deep_stack_base + deep_stack_size)" "unat cmd mod 8 = 0"
  shows "cmd_ok P s cmd"
proof -
  have num: "unat deep_stack_base = 0x600000F00000" "unat deep_stack_size = 0x1000000" "unat (deep_stack_base + deep_stack_size) = 0x600001F00000"
    by (simp_all add: deep_stack_base_def deep_stack_size_def)
  define i where "i = unat (cmd - deep_stack_base)"
  have i: "i = unat cmd - unat deep_stack_base" using cmd(1) by (simp add: i_def unat_sub)
  then have "i < unat deep_stack_size" using cmd(2) num by simp
  from zero [OF this] have "read_byte P s cmd = Inr 0" by (simp add: i_def)
  then have "address_space P s (page_floor cmd) \<noteq> None" by (auto simp: read_byte_def translate_address_space split: option.splits)
  moreover have "0x600000F00000 \<le> unat cmd" using cmd(1) num by (simp add: word_le_nat_alt)
  ultimately show ?thesis using cmd(2,3) num by (auto simp: cmd_ok_def is_safe_user_ptr_iff)
qed

text \<open>The whole start of the Marshal on this machine, and the application stage after it.\<close>

lemma desktop_after_dispatch:
  fixes P :: "('pt, 'dev) hw_platform" and M :: "('pt, 'dev, 'h) marshal"
  assumes laws: "paging_laws P entries" and img: "god_image P entries h b hdr phs B"
    and arch: "archive_at P B b hdr phs arch (tar_archive files)" "bss_in_zeros hdr phs bss_start bss_end"
    and files: "list_all file_ok files" "slices_of arch files as_ptr"
    and table: "table = map object_of files" "ds = requests ''driver:'' table (config_lines table)" "apps = requests ''app:'' table (config_lines table)"
    and fit: "desktop_fit P entries h hdr phs height pitch ds"
    and fb: "fb_ok P h 0xB0000000 phys height pitch" "fb_pages height pitch \<le> 0x10000"
    and size: "12 \<le> unat height" "unat height < 2 ^ 30" "48 \<le> unat pitch"
    and M: "marshal_screen M = screen_new" and apps: "apps \<noteq> []"
    and app: "run_func (obj_data (last apps)) = Some (\<lambda>w h s. run_ui_loop (syscall_dispatcher P) rdx w h (polls s))"
    and cmd: "deep_stack_base \<le> cmd" "unat cmd + 8 \<le> unat (deep_stack_base + deep_stack_size)" "unat cmd mod 8 = 0"
    and q: "ready_queue (SCHEDULER s) = []" "free_slots (SCHEDULER s) = 63"
    and S: "kernel_inv entries s" "exclusive_frames P entries s" "HHDM_OFFSET s = h" "god_memory P entries h hdr phs B s"
    and place: "\<And>ph. ph \<in> set phs \<Longrightarrow> loadable ph \<Longrightarrow> segment_in_place P entries b (relocation (e_entry hdr)) ph B s"
  shows "\<exists>m' u draws ts. marshal_start P inner_init as_ptr rdx bss_start bss_end (tar_archive files) (M\<lparr>sys := s\<rparr>) =
      Inr (deep_stack_base + deep_stack_size, m') \<and>
    (\<forall>d \<in> set ds. \<forall>ph \<in> set (driver_phdrs d). loadable ph \<longrightarrow> segment_of_file P (obj_data d) ph (sys m')) \<and>
    ready_queue (SCHEDULER (sys m')) =
      take 63 (map (\<lambda>k. (e_entry (driver_header (ds ! k)), 0x600000000000 + of_nat k * 0x100000 + 0x10000)) [0..<length ds]) \<and>
    (\<forall>i < 4096 * fb_pages height pitch. translate P (sys m') (0xB0000000 + of_nat i) = Some (phys + of_nat i)) \<and>
    wasm_execution_stage P run_func cmd m' = Inr (Some (u, draws, ts)) \<and>
    desktop_inv (int (unat pitch div 4)) (int (unat height)) (desktop_of u)"
proof -
  let ?n = "fb_pages height pitch"
  have dfit: "drivers_fit P entries h hdr phs ds" using fit by (simp add: desktop_fit_def)
  obtain m1 where m1: "marshal_start P inner_init as_ptr rdx bss_start bss_end (tar_archive files) (M\<lparr>sys := s\<rparr>) =
      bindE (set_up_devices P rdx m1) (set_up_stack P)"
    "\<And>d ph. d \<in> set ds \<Longrightarrow> ph \<in> set (driver_phdrs d) \<Longrightarrow> loadable ph \<Longrightarrow> segment_in_place P entries (as_ptr d) 0 ph s (sys m1)"
    "ready_queue (SCHEDULER (sys m1)) =
      take 63 (map (\<lambda>k. (e_entry (driver_header (ds ! k)), 0x600000000000 + of_nat k * 0x100000 + 0x10000)) [0..<length ds])"
    "apps \<noteq> [] \<longrightarrow> WASM_DATA_PTR m1 = as_ptr (last apps) \<and> WASM_DATA_LEN m1 = of_nat (length (obj_data (last apps)))"
    "screen_kept (M\<lparr>sys := s\<rparr>) m1"
    "extended P entries (heap_pages \<union> \<Union>(set (claims driver_phdrs 0x600000000000 ds))) (4 * 4096 + frames_needed driver_phdrs ds) s (sys m1)"
    by (rule drivers_after_dispatch [OF laws img arch files table dfit q S(1,2,4), of inner_init rdx M])
      (rule place, assumption+, rule that, assumption+)
  have inv: "CDT s = genesis_cdt" "distinct (free_frames entries s)" using S(1,2) by (simp_all add: kernel_inv_def exclusive_frames_def)
  have scr: "HHDM_OFFSET (sys m1) = h" "marshal_screen m1 = screen_new" using m1(5) M S(3) by (simp_all add: screen_kept_def)
  obtain t where t: "bindE (set_up_devices P rdx m1) (set_up_stack P) = Inr (deep_stack_base + deep_stack_size,
      m1\<lparr>sys := t, marshal_screen := screen_of height pitch\<rparr>)"
    "undisturbed P entries (sys m1) t" "window P 0xB0000000 phys 0 ?n t" "SCHEDULER t = SCHEDULER (sys m1)"
    "\<And>i. i < unat deep_stack_size \<Longrightarrow> read_byte P t (deep_stack_base + of_nat i) = Inr 0"
    by (rule devices_and_stack [OF laws S(4) fit inv m1(6), unfolded scr, OF fb]) (rule that, assumption+)
  let ?m' = "m1\<lparr>sys := t, marshal_screen := screen_of height pitch\<rparr>"
  have held: "holds P entries s (as_ptr d) (obj_data d) \<and> unat (as_ptr d) + length (obj_data d) < 2 ^ 64" if "d \<in> set ds \<or> d \<in> set apps" for d
    using that files_held [OF img arch(1) files place] unfolding table by blast
  have seg: "segment_of_file P (obj_data d) ph (sys ?m')" if d: "d \<in> set ds" "ph \<in> set (driver_phdrs d)" "loadable ph" for d ph
  proof -
    have f: "segment_in_file (obj_data d) ph" using dfit d by (simp add: drivers_fit_def elf_file_def list_all_iff)
    then have "segment_in_place P entries (as_ptr d) 0 ph s t"
      by (intro segment_in_place_later [OF m1(2) [OF d] _ t(2)]) (simp add: segment_in_file_def)
    from segment_of_file_in_place [OF this f] held d(1) show ?thesis by simp
  qed
  let ?a = "last apps"
  have a: "holds P entries s (as_ptr ?a) (obj_data ?a)" "unat (as_ptr ?a) + length (obj_data ?a) < 2 ^ 64" using held [of ?a] apps by simp_all
  have und: "undisturbed P entries s t" using undisturbed_trans [OF _ t(2)] m1(6) unfolding extended_def by blast
  have "unat (of_nat (length (obj_data ?a)) :: u64) = length (obj_data ?a)" using a(2) by (intro unat_of_nat_small) simp
  then have data: "read_bytes P (sys ?m') (WASM_DATA_PTR ?m') (unat (WASM_DATA_LEN ?m')) = Inr (obj_data ?a)"
    using m1(4) apps holds_read_bytes [OF holds_later [OF a(1) und]] by simp
  have pitch: "unat pitch < 2 ^ 32" using fb(1) by (simp add: fb_ok_def)
  have c: "cmd_ok P (sys ?m') cmd" using stack_cmd_ok [OF t(5) cmd] by simp
  have F: "FB_WIDTH (marshal_screen ?m') = pitch div 4" "FB_HEIGHT (marshal_screen ?m') = height" "FB_PTR (marshal_screen ?m') \<noteq> 0"
    using screen_set [OF size(1,2) pitch] by simp_all
  obtain u draws ts where run: "wasm_execution_stage P run_func cmd ?m' = Inr (Some (u, draws, ts))"
    "desktop_inv (int (unat pitch div 4)) (int (unat height)) (desktop_of u)"
    using app_stage_runs [where run_func = run_func and polls = polls, OF F size pitch data app c] by blast
  have fbw: "translate P (sys ?m') (0xB0000000 + of_nat i) = Some (phys + of_nat i)" if "i < 4096 * ?n" for i
    using window_translate [OF t(3) _ _ that] fb(1) by (simp add: fb_ok_def)
  have st: "marshal_start P inner_init as_ptr rdx bss_start bss_end (tar_archive files) (M\<lparr>sys := s\<rparr>) =
      Inr (deep_stack_base + deep_stack_size, ?m')" using m1(1) t(1) by simp
  have queue: "ready_queue (SCHEDULER (sys ?m')) =
      take 63 (map (\<lambda>k. (e_entry (driver_header (ds ! k)), 0x600000000000 + of_nat k * 0x100000 + 0x10000)) [0..<length ds])"
    using m1(3) t(4) by simp
  show ?thesis
    by (intro exI [of _ ?m'] exI [of _ u] exI [of _ draws] exI [of _ ts] conjI ballI allI impI)
      (fact st, fact seg, fact queue, fact fbw, fact run(1), fact run(2))
qed

section \<open>A machine with one driver\<close>

text \<open>
  The Marshal as a file of one segment: header, program header, and an archive of two files,
  loaded at 0x500078 with eight more bytes of zeros.  The boot loader has put it in one page at
  physical address 0x300000.
\<close>

definition marshal_head :: "u8 list" where
  "marshal_head =
     ELF_MAGIC @ replicate 20 0 @ [0x78, 0, 0x50, 0, 0, 0, 0, 0] @ [64, 0, 0, 0, 0, 0, 0, 0] @ replicate 14 0 @
     [56, 0] @ [1, 0] @ replicate 6 0 @
     [1, 0, 0, 0] @ [0, 0, 0, 0] @ [120, 0, 0, 0, 0, 0, 0, 0] @ [0x78, 0, 0x50, 0, 0, 0, 0, 0] @ replicate 8 0 @
     [0, 12, 0, 0, 0, 0, 0, 0] @ [8, 12, 0, 0, 0, 0, 0, 0] @ replicate 8 0"

text \<open>The archive: the configuration names one file, as driver and as application.\<close>

definition desktop_config :: tar_file where
  "desktop_config = \<lparr>f_name = bytes ''init.rc'', f_meta = replicate 24 0, f_tail = replicate 377 0, f_data = bytes ''driver:a\<newline>app:a\<newline>''\<rparr>"

abbreviation one_driver :: "tar_file list" where
  "one_driver \<equiv> [desktop_config, driver_file]"

lemma one_driver_ok: "list_all file_ok one_driver"
  by (simp add: file_ok_def desktop_config_def driver_file_def bytes_def length_image_bytes)

lemma one_driver_requests:
  "requests ''driver:'' (map object_of one_driver) (config_lines (map object_of one_driver)) = [object_of driver_file]"
  "requests ''app:'' (map object_of one_driver) (config_lines (map object_of one_driver)) = [object_of driver_file]"
proof -
  have a: "from_utf8 (bytes ''init.rc'') = Some (scalars ''init.rc'')"
    "from_utf8 (bytes ''driver:a\<newline>app:a\<newline>'') = Some (scalars ''driver:a\<newline>app:a\<newline>'')"
    "from_utf8 (bytes ''a'') = Some (scalars ''a'')" by (simp_all add: bytes_def scalars_def)
  have b: "scalars ''a'' \<noteq> scalars ''init.rc''" by (simp add: scalars_def)
  have l: "str_lines (scalars ''driver:a\<newline>app:a\<newline>'') = [scalars ''driver:a'', scalars ''app:a'']"
    using str_lines_line [of "scalars ''driver:a''" "scalars ''app:a\<newline>''"] str_lines_line [of "scalars ''app:a''" "[]"]
    by (simp add: scalars_def strip_cr_def)
  have t: "str_trim (scalars ''driver:a'') = scalars ''driver:a''" "str_trim (scalars ''app:a'') = scalars ''app:a''"
    by (rule str_trim_id; simp add: scalars_def whitespace_def)+
  have c: "config_lines (map object_of one_driver) = [scalars ''driver:a'', scalars ''app:a'']"
    by (simp add: config_lines_def named_def member_lines_def object_of_def desktop_config_def driver_file_def a l b)
  have d: "directive ''driver:'' (scalars ''driver:a'') = Some (scalars ''a'')" "directive ''driver:'' (scalars ''app:a'') = None"
    "directive ''app:'' (scalars ''driver:a'') = None" "directive ''app:'' (scalars ''app:a'') = Some (scalars ''a'')"
    by (simp_all add: directive_def t starts_with_def) (simp_all add: scalars_def)
  have n: "named [object_of desktop_config, object_of driver_file] (scalars ''a'') = [object_of driver_file]"
    using b by (simp add: named_def object_of_def desktop_config_def driver_file_def a)
  show "requests ''driver:'' (map object_of one_driver) (config_lines (map object_of one_driver)) = [object_of driver_file]"
    "requests ''app:'' (map object_of one_driver) (config_lines (map object_of one_driver)) = [object_of driver_file]"
    unfolding c by (simp_all add: requests_def d n)
qed

definition marshal_bytes :: "u8 list" where
  "marshal_bytes = marshal_head @ tar_archive one_driver"

definition module_ram :: "u8 list \<Rightarrow> u64 \<Rightarrow> u8" where
  "module_ram bs x = (let i = unat x - 0x300000 in if 0x300000 \<le> unat x \<and> i < length bs then bs ! i else 0)"

definition system_memmap :: "mem_entry list" where
  "system_memmap = [\<lparr>base = 0x1000000, region_length = 0x10000000, usable = True\<rparr>]"

lemma system_memmap_frames: "length (all_frames system_memmap) = 65536" "0x300000 \<notin> set (all_frames system_memmap)"
proof -
  have wf: "wf_memmap system_memmap" by (simp add: wf_memmap_def system_memmap_def entry_end_def)
  show "length (all_frames system_memmap) = 65536"
    by (simp add: all_frames_def system_memmap_def entry_frames_def entry_end_def region_frames_def del: upt_rec_numeral upt_Suc)
  show "0x300000 \<notin> set (all_frames system_memmap)"
    using set_all_frames [OF wf, of "0x300000"] by (simp add: system_memmap_def)
qed

definition system_hw :: "(flat_table, (u16 \<times> nat \<times> u32) list) hw_platform" where
  "system_hw = boot_hw\<lparr>memmap_response := Some system_memmap,
     framebuffer_response := Some [\<lparr>fb_addr = 0xFFFF800080000000, fb_width = 16, fb_height = 16, fb_pitch = 64\<rparr>]\<rparr>"

abbreviation marshal_header :: elf64_header where
  "marshal_header \<equiv> file_header marshal_bytes"

definition marshal_phdr :: elf64_phdr where
  "marshal_phdr = \<lparr>p_type = 1, p_offset = 120, p_vaddr = 0x500078, p_filesz = 3072, p_memsz = 3080\<rparr>"

lemma length_archive: "length (tar_archive one_driver) = 3072"
  using length_tar_header [of desktop_config] length_tar_header [of driver_file] one_driver_ok
  by (simp add: tar_archive_def tar_entry_def padding_def)
    (simp add: desktop_config_def driver_file_def length_image_bytes bytes_def)

lemma length_marshal: "length marshal_head = 120" "length marshal_bytes = 3192"
  using length_archive by (simp_all add: marshal_bytes_def marshal_head_def ELF_MAGIC_def)

lemma field_head: "p + n \<le> 120 \<Longrightarrow> field marshal_bytes p n = field marshal_head p n"
  by (simp add: field_def marshal_bytes_def length_marshal)

lemma marshal_header: "e_entry marshal_header = 0x500078" "e_phoff marshal_header = 64" "e_phentsize marshal_header = 56"
  "e_phnum marshal_header = 1" "file_phdrs marshal_bytes = [marshal_phdr]" "take 4 marshal_bytes = ELF_MAGIC"
proof -
  show h: "e_entry marshal_header = 0x500078" "e_phoff marshal_header = 64" "e_phentsize marshal_header = 56" "e_phnum marshal_header = 1"
    by (simp_all add: file_header_def field_head) (simp_all add: field_def marshal_head_def ELF_MAGIC_def)
  have "file_phdr marshal_bytes 64 = marshal_phdr"
    by (simp add: file_phdr_def field_head) (simp add: field_def marshal_head_def ELF_MAGIC_def marshal_phdr_def)
  then show "file_phdrs marshal_bytes = [marshal_phdr]" by (simp add: file_phdrs_def h)
  show "take 4 marshal_bytes = ELF_MAGIC" by (simp add: marshal_bytes_def marshal_head_def ELF_MAGIC_def)
qed

lemma marshal_pages: "relocation (e_entry marshal_header) = 0" "pages_of 0x500078 3080 = 1" "seg_pages 0 marshal_phdr = {0x500000}"
  "pages_needed [marshal_phdr] = 1"
proof -
  show "relocation (e_entry marshal_header) = 0" by (simp add: relocation_def marshal_header(1))
  show p: "pages_of 0x500078 3080 = 1" by (simp add: pages_of_def)
  show "seg_pages 0 marshal_phdr = {0x500000}" "pages_needed [marshal_phdr] = 1"
    by (simp_all add: seg_pages_def marshal_phdr_def p page_floor_def pages_needed_def)
qed

lemma elf_file_marshal: "elf_file marshal_bytes"
proof -
  have "segment_in_file marshal_bytes marshal_phdr"
    by (simp add: segment_in_file_def user_fits_def length_marshal) (simp add: marshal_phdr_def marshal_pages(2))
  then show ?thesis by (simp add: elf_file_def marshal_header length_marshal)
qed

lemma driver_image: "file_header image_bytes = image_header" "file_phdrs image_bytes = [image_phdr]" "image_pages [image_phdr] = {0x400000}"
proof -
  show h: "file_header image_bytes = image_header"
    by (simp add: file_header_def field_def image_bytes_def ELF_MAGIC_def image_header_def)
  have "file_phdr image_bytes 64 = image_phdr"
    by (simp add: file_phdr_def field_def image_bytes_def ELF_MAGIC_def image_phdr_def)
  then show "file_phdrs image_bytes = [image_phdr]" by (simp add: file_phdrs_def h) (simp add: image_header_def)
  show "image_pages [image_phdr] = {0x400000}"
    using image_seg_pages(1,2) by (simp add: image_pages_def image_phdr_def)
qed

lemma elf_file_driver: "elf_file image_bytes"
proof -
  have "segment_in_file image_bytes image_phdr"
    by (simp add: segment_in_file_def user_fits_def length_image_bytes) (simp add: image_phdr_def pages_of_def)
  moreover have "take 4 image_bytes = ELF_MAGIC" by (simp add: image_bytes_def ELF_MAGIC_def)
  ultimately show ?thesis by (simp add: elf_file_def driver_image length_image_bytes) (simp add: image_header_def)
qed

text \<open>The page of the module.\<close>

lemma module_holds:
  assumes as: "address_space P s image_base = Some (0x300000, fl)" and ram: "phys_mem s = module_ram bs"
    and inv: "mem_inv entries s" and out: "0x300000 \<notin> set (all_frames entries)" and len: "length bs \<le> 4096"
  shows "holds P entries s image_base bs"
  unfolding holds_def
proof (intro allI impI)
  fix i assume i: "i < length bs"
  then have "i < 4096" using len by simp
  note t = image_translate [OF as this]
  have "read_byte P s (image_base + of_nat i) = Inr (bs ! i)" using t(1,2) i by (simp add: read_byte_def ram module_ram_def)
  moreover have "settled P entries s (image_base + of_nat i)" using t(1,3) out by (intro settled_outside [OF inv]) auto
  ultimately show "read_byte P s (image_base + of_nat i) = Inr (bs ! i) \<and> settled P entries s (image_base + of_nat i)" ..
qed

definition system_limine :: limine where
  "system_limine = boot_limine\<lparr>module_response := Some [(image_base, 3192)]\<rparr>"

abbreviation system_boot :: "(flat_table, (u16 \<times> nat \<times> u32) list) kernel" where
  "system_boot \<equiv> boot_state system_hw 0xFFFF800000000000 [] (module_ram marshal_bytes)"

lemma system_boots: "boots system_hw system_limine (snd (GDT example_gdt)) example_core system_memmap 0xFFFF800000000000"
proof -
  have wf: "wf_memmap system_memmap" "disjoint_memmap system_memmap"
    by (simp_all add: system_memmap_def wf_memmap_def disjoint_memmap_def entry_end_def)
  have "map_to_law system_hw system_memmap"
    by (rule flat_map_to_law) (simp_all add: system_hw_def boot_hw_def example_hw_def)
  then have "paging_laws system_hw system_memmap"
    by (simp add: paging_laws_def address_laws_def system_hw_def boot_hw_def example_hw_def) (simp add: system_memmap_def entry_end_def)
  with wf show ?thesis
    by (simp add: boots_def system_hw_def boot_hw_def example_hw_def system_limine_def boot_limine_def system_memmap_def
        GDT_selectors [OF example_gdt_laws] example_core_def page_floor_def)
qed

lemma system_space: "boot_space system_hw 0xFFFF800000000000 = [image_base \<mapsto> (0x300000, {PRESENT})]"
  by (simp add: boot_space_def system_hw_def boot_hw_def example_hw_def)

lemma system_module:
  "mem_inv system_memmap system_boot" "holds system_hw system_memmap system_boot image_base marshal_bytes"
proof -
  have wf: "wf_memmap system_memmap" by (simp add: wf_memmap_def system_memmap_def entry_end_def)
  then show inv: "mem_inv system_memmap system_boot" using fa_inv_new by (simp add: mem_inv_def boot_state_def statics_def)
  show "holds system_hw system_memmap system_boot image_base marshal_bytes"
    by (rule module_holds [OF _ _ inv system_memmap_frames(2)]) (simp_all add: boot_state_simps system_space length_marshal)
qed

lemma system_god_image:
  "god_image system_hw system_memmap 0xFFFF800000000000 image_base marshal_header [marshal_phdr] system_boot"
proof -
  have "image_ok system_hw system_memmap image_base marshal_header (file_phdrs marshal_bytes) system_boot"
    by (rule image_ok_file(1) [OF elf_file_marshal system_module(2)])
      (simp_all add: marshal_header length_marshal marshal_pages boot_state_simps(1,2) boot_state_simps(3) frames_left_new system_space image_pages_def system_memmap_frames)
  moreover have "list_all (\<lambda>i. boot_space system_hw 0xFFFF800000000000 (stack_page i) = None) (map of_nat [1..<33])"
    by (simp add: system_space stack_page_def upt_rec)
  ultimately show ?thesis
    using system_memmap_frames(1) marshal_pages by (simp add: god_image_def marshal_header) (simp add: marshal_phdr_def)
qed

lemma system_archive:
  "archive_at system_hw system_boot image_base marshal_header [marshal_phdr] 0x500078 (tar_archive one_driver)"
  "bss_in_zeros marshal_header [marshal_phdr] 0x500C78 0x500C80"
proof -
  have "read_byte system_hw system_boot (image_base + 120 + of_nat i) = Inr (tar_archive one_driver ! i)" if "i < 3072" for i
  proof -
    have "read_byte system_hw system_boot (image_base + of_nat (120 + i)) = Inr (marshal_bytes ! (120 + i))"
      by (rule system_module(2) [unfolded holds_def length_marshal, rule_format, THEN conjunct1]) (use that in simp)
    moreover have "marshal_bytes ! (120 + i) = tar_archive one_driver ! i" using length_marshal(1) by (simp add: marshal_bytes_def nth_append)
    ultimately show ?thesis by (simp add: add.assoc)
  qed
  moreover have "loadable marshal_phdr" by (simp add: marshal_phdr_def)
  ultimately show "archive_at system_hw system_boot image_base marshal_header [marshal_phdr] 0x500078 (tar_archive one_driver)"
    unfolding archive_at_def length_archive marshal_pages(1) by (intro bexI [of _ marshal_phdr] conjI exI [of _ 0]) (simp_all add: marshal_phdr_def)
  have "(0x500C78 + of_nat i :: u64) = 0x500078 + of_nat (3072 + i)" for i by simp
  then show "bss_in_zeros marshal_header [marshal_phdr] 0x500C78 0x500C80"
    unfolding bss_in_zeros_def marshal_pages(1) by (auto intro!: exI [of _ "3072 + _"] simp: marshal_phdr_def)
qed

definition one_driver_ptr :: "tar_object \<Rightarrow> u64" where
  "one_driver_ptr d = 0x500078 + of_nat (member_pos one_driver (if d = object_of desktop_config then 0 else 1))"

lemma system_slices: "slices_of 0x500078 one_driver one_driver_ptr"
proof -
  have "object_of driver_file \<noteq> object_of desktop_config" by (simp add: object_of_def driver_file_def desktop_config_def bytes_def)
  then have "\<exists>j < 2. object_of (one_driver ! j) = object_of (one_driver ! k) \<and>
      one_driver_ptr (object_of (one_driver ! k)) = 0x500078 + of_nat (member_pos one_driver j)" if "k < 2" for k
    using that by (cases k) (auto simp: one_driver_ptr_def less_Suc_eq numeral_2_eq_2)
  then show ?thesis by (simp add: slices_of_def numeral_2_eq_2)
qed

lemma system_unclaimed:
  assumes "unat pg < 0x7FFFFFFD0000" "pg \<noteq> 0x500000"
  shows "unclaimed system_hw 0xFFFF800000000000 marshal_header [marshal_phdr] pg"
proof -
  have "pg \<noteq> image_base" using assms(1) by auto
  moreover have "pg \<notin> god_stack_pages"
  proof
    assume "pg \<in> god_stack_pages"
    then obtain i where "i \<in> set (map of_nat [1..<33])" and pg: "pg = stack_page i" by blast
    then have "unat i \<le> 32" using stack_indices(1) unfolding list_all_iff by blast
    then show False using stack_page(3) [of i] assms(1) by (simp add: pg)
  qed
  ultimately show ?thesis using assms by (simp add: unclaimed_def system_space marshal_pages)
qed

lemma system_fb: "fb_ok system_hw 0xFFFF800000000000 0xB0000000 0x80000000 16 64" "fb_pages 16 64 = 1" "device_pages 16 64 = {0x40000000, 0xB0000000}"
proof -
  show n: "fb_pages 16 64 = 1" by (simp add: fb_pages_def)
  show "fb_ok system_hw 0xFFFF800000000000 0xB0000000 0x80000000 16 64"
    unfolding fb_ok_def n by (simp add: system_hw_def saturating_sub_def page_floor_def)
  show "device_pages 16 64 = {0x40000000, 0xB0000000}" by (simp add: device_pages_def n lessThan_Suc)
qed

lemma page_regions:
  "pg \<in> heap_pages \<Longrightarrow> 0x400000000000 \<le> unat pg \<and> unat pg < 0x500000000000"
  "pg \<in> stack_pages 0x600000000000 \<Longrightarrow> 0x600000000000 \<le> unat pg \<and> unat pg < 0x600000F00000"
  "pg \<in> deep_pages \<Longrightarrow> 0x600000F00000 \<le> unat pg \<and> unat pg < 0x700000000000"
proof -
  have "unat (page_at HEAP_START j) = 0x400000000000 + 4096 * j" "unat (page_at deep_stack_base j) = 0x600000F00000 + 4096 * j"
    "unat (page_at 0x600000000000 j) = 0x600000000000 + 4096 * j" if "j < 4096" for j
    using that by (simp_all add: HEAP_START_def deep_stack_base_def unat_page_at)
  then show "pg \<in> heap_pages \<Longrightarrow> 0x400000000000 \<le> unat pg \<and> unat pg < 0x500000000000"
    "pg \<in> stack_pages 0x600000000000 \<Longrightarrow> 0x600000000000 \<le> unat pg \<and> unat pg < 0x600000F00000"
    "pg \<in> deep_pages \<Longrightarrow> 0x600000F00000 \<le> unat pg \<and> unat pg < 0x700000000000"
    by (auto simp: stack_pages_def)
qed

lemma one_driver_claims: "claims driver_phdrs 0x600000000000 [object_of driver_file] = [{0x400000}, stack_pages 0x600000000000]"
  "frames_needed driver_phdrs [object_of driver_file] = 68"
proof -
  have data: "obj_data (object_of driver_file) = image_bytes" by (simp add: object_of_def driver_file_def)
  show "claims driver_phdrs 0x600000000000 [object_of driver_file] = [{0x400000}, stack_pages 0x600000000000]"
    "frames_needed driver_phdrs [object_of driver_file] = 68"
    by (simp_all add: data driver_image frames_needed_def image_seg_pages(3))
qed

lemma system_drivers_fit:
  "drivers_fit system_hw system_memmap 0xFFFF800000000000 marshal_header [marshal_phdr] [object_of driver_file]"
proof -
  let ?d = "object_of driver_file"
  have data: "obj_data ?d = image_bytes" by (simp add: object_of_def driver_file_def)
  note H = page_regions(1) and S = page_regions(2)
  note cl = one_driver_claims(1)
  have "heap_pages \<inter> {0x400000} = {}" "heap_pages \<inter> stack_pages 0x600000000000 = {}" "{0x400000} \<inter> stack_pages 0x600000000000 = {}"
    using H S by fastforce+
  then have disj: "disjoint_list (heap_pages # claims driver_phdrs 0x600000000000 [?d])" by (simp only: cl) simp
  have "unclaimed system_hw 0xFFFF800000000000 marshal_header [marshal_phdr] pg"
    if "pg \<in> heap_pages \<or> pg = 0x400000 \<or> pg \<in> stack_pages 0x600000000000" for pg
    using that H [of pg] S [of pg] by (intro system_unclaimed) auto
  then have free: "\<forall>pg \<in> \<Union>(set (heap_pages # claims driver_phdrs 0x600000000000 [?d])).
      unclaimed system_hw 0xFFFF800000000000 marshal_header [marshal_phdr] pg" unfolding cl by auto
  from disj free show ?thesis
    unfolding drivers_fit_def one_driver_claims(2) by (simp add: marshal_pages system_memmap_frames(1) data elf_file_driver)
qed

lemma system_desktop_fit:
  "desktop_fit system_hw system_memmap 0xFFFF800000000000 marshal_header [marshal_phdr] 16 64 [object_of driver_file]"
proof -
  have dev: "pg = 0x40000000 \<or> pg = 0xB0000000" if "pg \<in> device_pages 16 64" for pg using that by (simp add: system_fb(3))
  have "pg \<notin> deep_pages" if "pg \<in> device_pages 16 64" for pg using dev [OF that] page_regions(3) [of pg] by auto
  then have apart: "device_pages 16 64 \<inter> deep_pages = {}" by blast
  have "unclaimed system_hw 0xFFFF800000000000 marshal_header [marshal_phdr] pg \<and> pg \<notin> heap_pages \<and> pg \<noteq> 0x400000 \<and> pg \<notin> stack_pages 0x600000000000"
    if "pg \<in> device_pages 16 64 \<or> pg \<in> deep_pages" for pg
  proof -
    have n: "unat pg = 0x40000000 \<or> unat pg = 0xB0000000 \<or> 0x600000F00000 \<le> unat pg \<and> unat pg < 0x700000000000"
      using that dev [of pg] page_regions(3) [of pg] by auto
    have "pg \<notin> heap_pages" by (rule notI, drule page_regions(1)) (use n in linarith)
    moreover have "pg \<notin> stack_pages 0x600000000000" by (rule notI, drule page_regions(2)) (use n in linarith)
    moreover have "pg \<noteq> 0x400000" "pg \<noteq> 0x500000" using n by auto
    moreover have "unat pg < 0x7FFFFFFD0000" using n by linarith
    ultimately show ?thesis using system_unclaimed [of pg] by blast
  qed
  then have free: "\<forall>pg \<in> device_pages 16 64 \<union> deep_pages. unclaimed system_hw 0xFFFF800000000000 marshal_header [marshal_phdr] pg \<and> pg \<notin> heap_pages \<and>
      pg \<notin> \<Union>(set (claims driver_phdrs 0x600000000000 [object_of driver_file]))" unfolding one_driver_claims by auto
  show ?thesis
    unfolding desktop_fit_def one_driver_claims(2) system_fb(2)
    using system_drivers_fit apart free by (simp add: marshal_pages system_memmap_frames(1))
qed

section \<open>Properties\<close>



end
