(* ===== verification/Process_Memory.thy ===== *)
theory Process_Memory
  imports Intrinsics Marshal
begin

text \<open>
  The memory functions of the Marshal (\<^verbatim>\<open>userland/marshal/src/main.rs\<close>), as they run in a process: every
  access goes through the page table and may fault.  Theory \<open>Intrinsics\<close> has the same functions on a
  memory that is a function of the address; here it is shown that the memory of a process is one,
  because the kernel never maps a frame twice.
\<close>

section \<open>Model\<close>

function process_memset_loop :: "('pt, 'p) platform_scheme \<Rightarrow> u64 \<Rightarrow> u32 \<Rightarrow> u64 \<Rightarrow> u64 \<Rightarrow> ('pt, 'm) mem_state_scheme \<Rightarrow>
    ('pt, 'm) mem_state_scheme res" where
  "process_memset_loop P p c i n s =
     (if i < n then bindE (write_byte P (p + i) (ucast c) s) (\<lambda>s. process_memset_loop P p c (i + 1) n s) else Inr s)"
  by pat_completeness auto
termination
  by (relation "measure (\<lambda>(P, p, c, i, n, s). unat n - unat i)") (auto simp: unat_Suc_below word_less_nat_alt)

function process_copy_up :: "('pt, 'p) platform_scheme \<Rightarrow> u64 \<Rightarrow> u64 \<Rightarrow> u64 \<Rightarrow> u64 \<Rightarrow> ('pt, 'm) mem_state_scheme \<Rightarrow>
    ('pt, 'm) mem_state_scheme res" where
  "process_copy_up P dest src i n s =
     (if i < n then
        bindE (read_byte P s (src + i)) (\<lambda>b.
        bindE (write_byte P (dest + i) b s) (\<lambda>s.
        process_copy_up P dest src (i + 1) n s))
      else Inr s)"
  by pat_completeness auto
termination
  by (relation "measure (\<lambda>(P, dest, src, i, n, s). unat n - unat i)") (auto simp: unat_Suc_below word_less_nat_alt)

function process_copy_down :: "('pt, 'p) platform_scheme \<Rightarrow> u64 \<Rightarrow> u64 \<Rightarrow> u64 \<Rightarrow> ('pt, 'm) mem_state_scheme \<Rightarrow>
    ('pt, 'm) mem_state_scheme res" where
  "process_copy_down P dest src i s =
     (if i > 0 then
        let i = i - 1 in
        bindE (read_byte P s (src + i)) (\<lambda>b.
        bindE (write_byte P (dest + i) b s) (\<lambda>s.
        process_copy_down P dest src i s))
      else Inr s)"
  by pat_completeness auto
termination
  by (relation "measure (\<lambda>(P, dest, src, i, s). unat i)") (auto simp: unat_pred_below)

function process_memcmp_loop :: "('pt, 'p) platform_scheme \<Rightarrow> u64 \<Rightarrow> u64 \<Rightarrow> u64 \<Rightarrow> u64 \<Rightarrow> ('pt, 'm) mem_state_scheme \<Rightarrow> u32 res" where
  "process_memcmp_loop P s1 s2 i n s =
     (if i < n then
        bindE (read_byte P s (s1 + i)) (\<lambda>a.
        bindE (read_byte P s (s2 + i)) (\<lambda>b.
        if a \<noteq> b then Inr (ucast a - ucast b) else process_memcmp_loop P s1 s2 (i + 1) n s))
      else Inr 0)"
  by pat_completeness auto
termination
  by (relation "measure (\<lambda>(P, s1, s2, i, n, s). unat n - unat i)") (auto simp: unat_Suc_below word_less_nat_alt)

declare process_memset_loop.simps [simp del] process_copy_up.simps [simp del] process_copy_down.simps [simp del]
  process_memcmp_loop.simps [simp del]

definition process_memset :: "('pt, 'p) platform_scheme \<Rightarrow> u64 \<Rightarrow> u32 \<Rightarrow> u64 \<Rightarrow> ('pt, 'm) mem_state_scheme \<Rightarrow>
    (u64 \<times> ('pt, 'm) mem_state_scheme) res" where
  "process_memset P p c n s = bindE (process_memset_loop P p c 0 n s) (\<lambda>s. Inr (p, s))"

definition process_memcpy :: "('pt, 'p) platform_scheme \<Rightarrow> u64 \<Rightarrow> u64 \<Rightarrow> u64 \<Rightarrow> ('pt, 'm) mem_state_scheme \<Rightarrow>
    (u64 \<times> ('pt, 'm) mem_state_scheme) res" where
  "process_memcpy P dest src n s = bindE (process_copy_up P dest src 0 n s) (\<lambda>s. Inr (dest, s))"

definition process_memmove :: "('pt, 'p) platform_scheme \<Rightarrow> u64 \<Rightarrow> u64 \<Rightarrow> u64 \<Rightarrow> ('pt, 'm) mem_state_scheme \<Rightarrow>
    (u64 \<times> ('pt, 'm) mem_state_scheme) res" where
  "process_memmove P dest src n s =
     bindE (if src < dest then process_copy_down P dest src n s else process_copy_up P dest src 0 n s) (\<lambda>s.
     Inr (dest, s))"

definition process_memcmp :: "('pt, 'p) platform_scheme \<Rightarrow> u64 \<Rightarrow> u64 \<Rightarrow> u64 \<Rightarrow> ('pt, 'm) mem_state_scheme \<Rightarrow> u32 res" where
  "process_memcmp P s1 s2 n s = process_memcmp_loop P s1 s2 0 n s"

definition process_bcmp :: "('pt, 'p) platform_scheme \<Rightarrow> u64 \<Rightarrow> u64 \<Rightarrow> u64 \<Rightarrow> ('pt, 'm) mem_state_scheme \<Rightarrow> u32 res" where
  "process_bcmp P s1 s2 n s = process_memcmp P s1 s2 n s"

text \<open>The display driver (\<^verbatim>\<open>drivers/gpu_driver/src/main.rs\<close>) has these functions with the same bodies.\<close>

abbreviation gpu_memset :: "('pt, 'p) platform_scheme \<Rightarrow> u64 \<Rightarrow> u32 \<Rightarrow> u64 \<Rightarrow> ('pt, 'm) mem_state_scheme \<Rightarrow> (u64 \<times> ('pt, 'm) mem_state_scheme) res" where
  "gpu_memset \<equiv> process_memset"

abbreviation gpu_memcpy :: "('pt, 'p) platform_scheme \<Rightarrow> u64 \<Rightarrow> u64 \<Rightarrow> u64 \<Rightarrow> ('pt, 'm) mem_state_scheme \<Rightarrow> (u64 \<times> ('pt, 'm) mem_state_scheme) res" where
  "gpu_memcpy \<equiv> process_memcpy"

abbreviation gpu_memmove :: "('pt, 'p) platform_scheme \<Rightarrow> u64 \<Rightarrow> u64 \<Rightarrow> u64 \<Rightarrow> ('pt, 'm) mem_state_scheme \<Rightarrow> (u64 \<times> ('pt, 'm) mem_state_scheme) res" where
  "gpu_memmove \<equiv> process_memmove"

abbreviation gpu_memcmp :: "('pt, 'p) platform_scheme \<Rightarrow> u64 \<Rightarrow> u64 \<Rightarrow> u64 \<Rightarrow> ('pt, 'm) mem_state_scheme \<Rightarrow> u32 res" where
  "gpu_memcmp \<equiv> process_memcmp"

abbreviation gpu_bcmp :: "('pt, 'p) platform_scheme \<Rightarrow> u64 \<Rightarrow> u64 \<Rightarrow> u64 \<Rightarrow> ('pt, 'm) mem_state_scheme \<Rightarrow> u32 res" where
  "gpu_bcmp \<equiv> process_bcmp"

section \<open>The memory of a process as a function\<close>

text \<open>The addresses that user code may read and write and that are backed by RAM, and the memory it sees there.\<close>

definition process_space :: "('pt, 'p) platform_scheme \<Rightarrow> mem_entry list \<Rightarrow> ('pt, 'm) mem_state_scheme \<Rightarrow> u64 set" where
  "process_space P entries s =
     {a. \<exists>f flags. address_space P s (page_floor a) = Some (f, flags) \<and> {WRITABLE, USER_ACCESSIBLE} \<subseteq> flags \<and>
        f \<in> set (all_frames entries)}"

definition process_view :: "('pt, 'p) platform_scheme \<Rightarrow> ('pt, 'm) mem_state_scheme \<Rightarrow> memory" where
  "process_view P s a = phys_mem s (the (translate P s a))"

text \<open>
  A translation without gaps and aliases on \<open>A\<close>, and a change of physical memory within the images of \<open>A\<close>
  that the view follows.
\<close>

definition faithful :: "('pt, 'p) platform_scheme \<Rightarrow> u64 set \<Rightarrow> ('pt, 'm) mem_state_scheme \<Rightarrow> bool" where
  "faithful P A s \<longleftrightarrow> (\<forall>a \<in> A. translate P s a \<noteq> None) \<and> inj_on (\<lambda>a. the (translate P s a)) A"

definition becomes :: "('pt, 'p) platform_scheme \<Rightarrow> u64 set \<Rightarrow> ('pt, 'm) mem_state_scheme \<Rightarrow> memory \<Rightarrow> ('pt, 'm) mem_state_scheme \<Rightarrow> bool" where
  "becomes P A s m s' \<longleftrightarrow> s' = s\<lparr>phys_mem := phys_mem s'\<rparr> \<and> (\<forall>a \<in> A. process_view P s' a = m a) \<and>
     (\<forall>x. x \<notin> (\<lambda>a. the (translate P s a)) ` A \<longrightarrow> phys_mem s' x = phys_mem s x)"

lemma becomes_refl: "(\<And>a. a \<in> A \<Longrightarrow> process_view P s a = m a) \<Longrightarrow> becomes P A s m s"
  by (simp add: becomes_def)

lemma becomes_translate: "becomes P A s m s' \<Longrightarrow> translate P s' = translate P s"
  unfolding becomes_def by (metis translate_phys_mem)

lemma becomes_read:
  assumes "faithful P A s" "becomes P A s m s'" "a \<in> A"
  shows "read_byte P s' a = Inr (m a)"
proof -
  obtain x where "translate P s a = Some x" using assms(1,3) by (auto simp: faithful_def)
  moreover have "process_view P s' a = m a" using assms(2,3) by (simp add: becomes_def)
  ultimately show ?thesis using becomes_translate [OF assms(2)] by (simp add: read_byte_def process_view_def)
qed

lemma becomes_write:
  assumes f: "faithful P A s" and st: "becomes P A s m s'" and a: "a \<in> A"
  obtains s'' where "write_byte P a b s' = Inr s''" "becomes P A s (m(a := b)) s''"
proof -
  obtain x where x: "translate P s a = Some x" using f a by (auto simp: faithful_def)
  note tr = becomes_translate [OF st]
  let ?s = "s'\<lparr>phys_mem := (phys_mem s')(x := b)\<rparr>"
  have "process_view P ?s c = (m(a := b)) c" if c: "c \<in> A" for c
  proof (cases "c = a")
    case True
    then show ?thesis by (simp add: process_view_def tr x)
  next
    case False
    moreover have "inj_on (\<lambda>a. the (translate P s a)) A" using f by (simp add: faithful_def)
    ultimately have "the (translate P s c) \<noteq> the (translate P s a)" using a c by (blast dest: inj_onD)
    then have "the (translate P s c) \<noteq> x" by (simp add: x)
    then show ?thesis using st c False by (simp add: process_view_def tr becomes_def)
  qed
  moreover have "x \<in> (\<lambda>a. the (translate P s a)) ` A" using a x by (intro image_eqI [of _ _ a]) simp_all
  moreover have eq: "s' = s\<lparr>phys_mem := phys_mem s'\<rparr>"
    and out: "\<And>x. x \<notin> (\<lambda>a. the (translate P s a)) ` A \<Longrightarrow> phys_mem s' x = phys_mem s x"
    using st unfolding becomes_def by blast+
  have "?s = s\<lparr>phys_mem := phys_mem ?s\<rparr>"
    using arg_cong [OF eq, of "\<lambda>t. t\<lparr>phys_mem := (phys_mem s')(x := b)\<rparr>"] by simp
  ultimately have "becomes P A s (m(a := b)) ?s" using out unfolding becomes_def by auto
  with that [of ?s] show ?thesis by (simp add: write_byte_def tr x)
qed

text \<open>The loops follow those of theory \<open>Intrinsics\<close> step by step.\<close>

lemma process_memset_loop_view:
  assumes f: "faithful P A s"
  shows "becomes P A s m t \<Longrightarrow> (\<And>j. j < n \<Longrightarrow> p + j \<in> A) \<Longrightarrow>
    \<exists>t'. process_memset_loop P p c i n t = Inr t' \<and> becomes P A s (memset_loop p c i n m) t'"
proof (induction p c i n m arbitrary: t rule: memset_loop.induct)
  case (1 p c i n m)
  show ?case
  proof (cases "i < n")
    case True
    obtain t1 where t1: "write_byte P (p + i) (ucast c) t = Inr t1" "becomes P A s (m(p + i := ucast c)) t1"
      by (rule becomes_write [OF f 1(2) 1(3) [OF True]])
    have "\<exists>t'. process_memset_loop P p c (i + 1) n t1 = Inr t' \<and> becomes P A s (memset_loop p c (i + 1) n (m(p + i := ucast c))) t'"
      by (rule 1(1) [OF True t1(2) 1(3)])
    then show ?thesis
      unfolding process_memset_loop.simps [of P p c i n t] memset_loop.simps [of p c i n m] t1(1)
      by (simp only: True if_True bindE_Inr)
  next
    case False
    with 1(2) show ?thesis by (simp add: process_memset_loop.simps memset_loop.simps)
  qed
qed

lemma process_copy_step:
  assumes f: "faithful P A s" and t: "becomes P A s m t" and A: "src \<in> A" "dest \<in> A"
  obtains t' where "bindE (read_byte P t src) (\<lambda>b. bindE (write_byte P dest b t) k) = k t'" "becomes P A s (m(dest := m src)) t'"
proof -
  obtain t' where "write_byte P dest (m src) t = Inr t'" "becomes P A s (m(dest := m src)) t'"
    by (rule becomes_write [OF f t A(2)])
  with that [of t'] show ?thesis by (simp add: becomes_read [OF f t A(1)])
qed

lemma process_copy_up_view:
  assumes f: "faithful P A s"
  shows "becomes P A s m t \<Longrightarrow> (\<And>j. j < n \<Longrightarrow> src + j \<in> A \<and> dest + j \<in> A) \<Longrightarrow>
    \<exists>t'. process_copy_up P dest src i n t = Inr t' \<and> becomes P A s (copy_up dest src i n m) t'"
proof (induction dest src i n m arbitrary: t rule: copy_up.induct)
  case (1 dest src i n m)
  show ?case
  proof (cases "i < n")
    case True
    have A: "src + i \<in> A" "dest + i \<in> A" using 1(3) [OF True] by simp_all
    obtain t1 where t1: "bindE (read_byte P t (src + i)) (\<lambda>b. bindE (write_byte P (dest + i) b t) (process_copy_up P dest src (i + 1) n)) =
        process_copy_up P dest src (i + 1) n t1" "becomes P A s (m(dest + i := m (src + i))) t1"
      by (rule process_copy_step [OF f 1(2) A])
    have "\<exists>t'. process_copy_up P dest src (i + 1) n t1 = Inr t' \<and>
        becomes P A s (copy_up dest src (i + 1) n (m(dest + i := m (src + i)))) t'"
      by (rule 1(1) [OF True t1(2) 1(3)])
    then show ?thesis
      unfolding process_copy_up.simps [of P dest src i n t] copy_up.simps [of dest src i n m]
      by (simp only: True if_True t1(1))
  next
    case False
    with 1(2) show ?thesis by (simp add: process_copy_up.simps copy_up.simps)
  qed
qed

lemma process_copy_down_view:
  assumes f: "faithful P A s"
  shows "becomes P A s m t \<Longrightarrow> (\<And>j. j < i \<Longrightarrow> src + j \<in> A \<and> dest + j \<in> A) \<Longrightarrow>
    \<exists>t'. process_copy_down P dest src i t = Inr t' \<and> becomes P A s (copy_down dest src i m) t'"
proof (induction dest src i m arbitrary: t rule: copy_down.induct)
  case (1 dest src i m)
  show ?case
  proof (cases "i > 0")
    case True
    define k where "k = i - 1"
    have k: "k < i" using unat_pred_below [OF True] by (simp add: k_def word_less_nat_alt)
    have A: "src + k \<in> A" "dest + k \<in> A" using 1(3) [OF k] by simp_all
    obtain t1 where t1: "bindE (read_byte P t (src + k)) (\<lambda>b. bindE (write_byte P (dest + k) b t) (process_copy_down P dest src k)) =
        process_copy_down P dest src k t1" "becomes P A s (m(dest + k := m (src + k))) t1"
      by (rule process_copy_step [OF f 1(2) A])
    have "\<exists>t'. process_copy_down P dest src k t1 = Inr t' \<and> becomes P A s (copy_down dest src k (m(dest + k := m (src + k)))) t'"
      by (rule 1(1) [OF True k_def t1(2)]) (rule 1(3), erule less_trans, rule k)
    then show ?thesis
      unfolding process_copy_down.simps [of P dest src i t] copy_down.simps [of dest src i m]
      by (simp only: True if_True Let_def k_def [symmetric] t1(1))
  next
    case False
    with 1(2) show ?thesis by (simp add: process_copy_down.simps copy_down.simps)
  qed
qed

lemma process_memcmp_loop_view:
  assumes f: "faithful P A s" and t: "becomes P A s m t"
  shows "(\<And>j. j < n \<Longrightarrow> s1 + j \<in> A \<and> s2 + j \<in> A) \<Longrightarrow> process_memcmp_loop P s1 s2 i n t = Inr (memcmp_loop s1 s2 i n m)"
proof (induction "unat n - unat i" arbitrary: i)
  case 0
  then have "\<not> i < n" by (simp add: word_less_nat_alt)
  then show ?case by (simp add: process_memcmp_loop.simps memcmp_loop.simps)
next
  case (Suc k)
  then have i: "i < n" by (simp add: word_less_nat_alt)
  then have "k = unat n - unat (i + 1)" using Suc.hyps(2) by (simp add: unat_Suc_below)
  note IH = Suc.hyps(1) [OF this Suc.prems]
  have A: "s1 + i \<in> A" "s2 + i \<in> A" using Suc.prems [OF i] by simp_all
  then show ?case
    unfolding process_memcmp_loop.simps [of P s1 s2 i n t] memcmp_loop.simps [of s1 s2 i n m]
    by (simp add: i becomes_read [OF f t] IH Let_def)
qed

text \<open>
  What \<open>init_heap\<close> and the start-up code use \<open>memset\<close> for, as one write (\<open>user_memset\<close> of theory \<open>Marshal\<close>),
  is the loop, faults included.
\<close>

lemma process_memset_loop_write_bytes:
  "process_memset_loop P p c i n s = write_bytes P (p + i) (replicate (unat n - unat i) (ucast c)) s"
proof (induction "unat n - unat i" arbitrary: i s)
  case 0
  then have "\<not> i < n" by (simp add: word_less_nat_alt)
  with 0 show ?case by (simp add: process_memset_loop.simps)
next
  case (Suc k)
  then have i: "i < n" by (simp add: word_less_nat_alt)
  then have "k = unat n - unat (i + 1)" using Suc.hyps(2) by (simp add: unat_Suc_below)
  note k = this and IH = Suc.hyps(1) [OF this]
  have "bindE (write_byte P (p + i) (ucast c) s) (process_memset_loop P p c (i + 1) n) =
      bindE (write_byte P (p + i) (ucast c) s) (write_bytes P (p + (i + 1)) (replicate k (ucast c)))"
    by (intro arg_cong2 [where f = bindE] refl ext IH [folded k])
  then show ?case
    unfolding process_memset_loop.simps [of P p c i n s] Suc.hyps(2) [symmetric] by (simp add: i add.assoc)
qed

lemma process_memset_user_memset:
  "process_memset P p c n s = bindE (user_memset P p (ucast c) n s) (\<lambda>s. Inr (p, s))"
  by (simp add: process_memset_def user_memset_def process_memset_loop_write_bytes)

text \<open>Frames are page aligned and no two pages share one, so no two addresses share a byte.\<close>

lemma frame_offset_inj:
  assumes "unat f mod 4096 = 0" "unat g mod 4096 = 0" "f + page_offset a = g + page_offset b"
  shows "f = g \<and> page_offset a = page_offset b"
proof -
  have "unat f < 2 ^ 64" "unat g < 2 ^ 64" by (rule u64_unat_lt)+
  with assms(1,2) have "unat f \<le> 2 ^ 64 - 4096" "unat g \<le> 2 ^ 64 - 4096" by (auto elim!: dvdE simp: mod_eq_0_iff_dvd)
  moreover have o: "unat (page_offset a) < 4096" "unat (page_offset b) < 4096" by (simp_all add: unat_page_offset)
  ultimately have "unat (f + page_offset a) = unat f + unat (page_offset a)" "unat (g + page_offset b) = unat g + unat (page_offset b)"
    by (auto intro!: unat_add_no_overflow)
  with assms(3) have eq: "unat f + unat (page_offset a) = unat g + unat (page_offset b)" by simp
  have "(unat f + unat (page_offset a)) mod 4096 = unat (page_offset a)" "(unat g + unat (page_offset b)) mod 4096 = unat (page_offset b)"
    using assms(1,2) o by (simp_all add: mod_add_left_eq [symmetric])
  with eq show ?thesis by (simp add: word_unat_eq_iff)
qed

lemma process_space_faithful:
  assumes wf: "wf_memmap entries" and ex: "exclusive_frames P entries s"
  shows "faithful P (process_space P entries s) s"
  unfolding faithful_def
proof (intro conjI ballI inj_onI)
  fix a assume "a \<in> process_space P entries s"
  then show "translate P s a \<noteq> None" by (auto simp: process_space_def translate_address_space)
next
  fix a b
  assume a: "a \<in> process_space P entries s" and b: "b \<in> process_space P entries s"
    and eq: "the (translate P s a) = the (translate P s b)"
  obtain f fl where f: "address_space P s (page_floor a) = Some (f, fl)" "USER_ACCESSIBLE \<in> fl" "f \<in> set (all_frames entries)"
    using a by (auto simp: process_space_def)
  obtain g gl where g: "address_space P s (page_floor b) = Some (g, gl)" "USER_ACCESSIBLE \<in> gl" "g \<in> set (all_frames entries)"
    using b by (auto simp: process_space_def)
  have al: "unat f mod 4096 = 0" "unat g mod 4096 = 0" using f(3) g(3) set_all_frames [OF wf] by blast+
  have "f + page_offset a = g + page_offset b" using eq by (simp add: translate_address_space f(1) g(1))
  then have fg: "f = g" "page_offset a = page_offset b" using frame_offset_inj [OF al] by blast+
  have "user_page P s (page_floor a) f" "user_page P s (page_floor b) f" using f g fg by (simp_all add: user_page_def)
  then have "page_floor a = page_floor b" using ex f(3) unfolding exclusive_frames_def by blast
  with fg(2) show "a = b" by (metis page_floor_plus_offset)
qed

section \<open>Properties\<close>

text \<open>
  C13. The memory functions of the Marshal, and so those of the display driver, work on the paged memory of the process as the flat ones
  do on an array.  When every user page of RAM has its frame to itself, as the kernel keeps it, then on
  blocks that lie in the writable user pages of the process \<^verbatim>\<open>memset\<close>, \<^verbatim>\<open>memcpy\<close> and \<^verbatim>\<open>memmove\<close> return their
  first argument without a fault, the memory of the process is afterwards what the flat function makes
  of it, at every address of the process and not only in the block, and nothing else of the machine
  changes; \<^verbatim>\<open>memcmp\<close> and \<^verbatim>\<open>bcmp\<close> return what the flat ones do.
\<close>

theorem process_memory_is_flat:
  assumes wf: "wf_memmap entries" and ex: "exclusive_frames P entries s"
    and A: "A = process_space P entries s" and m: "m = process_view P s"
    and dest: "\<And>j. j < n \<Longrightarrow> dest + j \<in> A" and src: "\<And>j. j < n \<Longrightarrow> src + j \<in> A"
  shows "(\<exists>s'. process_memset P dest c n s = Inr (fst (memset dest c n m), s') \<and> becomes P A s (snd (memset dest c n m)) s') \<and>
    (\<exists>s'. process_memcpy P dest src n s = Inr (fst (memcpy dest src n m), s') \<and> becomes P A s (snd (memcpy dest src n m)) s') \<and>
    (\<exists>s'. process_memmove P dest src n s = Inr (fst (memmove dest src n m), s') \<and> becomes P A s (snd (memmove dest src n m)) s') \<and>
    process_memcmp P dest src n s = Inr (memcmp dest src n m) \<and> process_bcmp P dest src n s = Inr (bcmp dest src n m)"
proof -
  have f: "faithful P A s" unfolding A by (rule process_space_faithful [OF wf ex])
  have b: "becomes P A s m s" by (rule becomes_refl) (simp add: m)
  have blocks: "src + j \<in> A \<and> dest + j \<in> A" "dest + j \<in> A \<and> src + j \<in> A" if "j < n" for j using that dest src by simp_all
  note up = process_copy_up_view [OF f b, of n src dest 0, OF blocks(1)]
    and down = process_copy_down_view [OF f b, of n src dest, OF blocks(1)]
    and set = process_memset_loop_view [OF f b, of n dest c 0, OF dest]
    and cmp = process_memcmp_loop_view [OF f b, of n dest src 0, OF blocks(2)]
  have "\<exists>s'. process_memset P dest c n s = Inr (fst (memset dest c n m), s') \<and> becomes P A s (snd (memset dest c n m)) s'"
    using set by (auto simp: process_memset_def memset_def)
  moreover have "\<exists>s'. process_memcpy P dest src n s = Inr (fst (memcpy dest src n m), s') \<and> becomes P A s (snd (memcpy dest src n m)) s'"
    using up by (auto simp: process_memcpy_def memcpy_def)
  moreover have "\<exists>s'. process_memmove P dest src n s = Inr (fst (memmove dest src n m), s') \<and> becomes P A s (snd (memmove dest src n m)) s'"
    using up down by (cases "src < dest") (auto simp: process_memmove_def memmove_def)
  ultimately show ?thesis
    using cmp by (simp add: process_memcmp_def process_bcmp_def memcmp_def bcmp_def)
qed

definition split_pages :: "flat_table mem_state" where
  "split_pages = example_state\<lparr>ALLOCATOR := \<lparr>region_index = 100, current_addr = 0\<rparr>,
     MAPPER := Some [0x400000 \<mapsto> (0x201000, {PRESENT, WRITABLE, USER_ACCESSIBLE}), 0x401000 \<mapsto> (0x101000, {PRESENT, WRITABLE, USER_ACCESSIBLE})],
     phys_mem := (\<lambda>a. ucast a)\<rparr>"

lemma split_pages_space:
  "address_space example_platform split_pages =
     [0x400000 \<mapsto> (0x201000, {PRESENT, WRITABLE, USER_ACCESSIBLE}), 0x401000 \<mapsto> (0x101000, {PRESENT, WRITABLE, USER_ACCESSIBLE})]"
  by (simp add: address_space_def split_pages_def example_platform_def)

lemma split_pages_exclusive: "exclusive_frames example_platform example_memmap split_pages"
proof -
  have "free_frames example_memmap split_pages = []"
    by (simp add: frames_left_def split_pages_def example_memmap_def all_frames_def)
  then show ?thesis by (auto simp: exclusive_frames_def user_page_def split_pages_space split: if_splits option.splits)
qed

lemma split_pages_in_space:
  assumes "a \<in> {0x400FFC, 0x400FFD, 0x400FFE, 0x400FFF, 0x401000, 0x401001}"
  shows "a \<in> process_space example_platform example_memmap split_pages"
  using assms by (auto simp: process_space_def split_pages_space all_frames_example page_floor_def)

theorem process_memory_is_flat_witness:
  "\<exists>s'. process_memmove example_platform 0x400FFE 0x400FFC 4 split_pages = Inr (0x400FFE, s') \<and>
     (\<forall>a \<in> process_space example_platform example_memmap split_pages.
        process_view example_platform s' a = snd (memmove 0x400FFE 0x400FFC 4 (process_view example_platform split_pages)) a)"
proof -
  have cases: "j = 0 \<or> j = 1 \<or> j = 2 \<or> j = 3" if "j < 4" for j :: u64
    using that by (simp add: word_less_nat_alt word_unat_eq_iff) arith
  have "0x400FFE + j \<in> process_space example_platform example_memmap split_pages" if "j < 4" for j
    using cases [OF that] by (intro split_pages_in_space) auto
  moreover have "0x400FFC + j \<in> process_space example_platform example_memmap split_pages" if "j < 4" for j
    using cases [OF that] by (intro split_pages_in_space) auto
  ultimately show ?thesis
    using process_memory_is_flat [OF wf_example_memmap split_pages_exclusive refl refl, of 4 "0x400FFE" "0x400FFC" 0]
    by (auto simp: becomes_def memmove_def)
qed

end
