(* ===== verification/Spec2Isabelle.thy ===== *)
theory Spec2Isabelle
  imports Boot Intrinsics Exceptions Supervisor Struct_Layout Input_Pipeline System_Start Process_Memory
begin

text \<open>
  Stardust: a small x86-64 kernel (\<^verbatim>\<open>src/stardust\<close>) with a user space (\<^verbatim>\<open>src/userland\<close>) of a first process
  (the Marshal), a system call library, two drivers and one WebAssembly application.

  \<^bold>\<open>The program and how its parts interact.\<close>  The boot loader starts the kernel on core 0 (\<^verbatim>\<open>main.rs\<close>).  It
  sets up the serial log, descriptor tables, the frame allocator and the page table, the capability
  table, interrupts and the other cores, loads the Marshal from a boot module, spawns it as the first
  thread and becomes the supervisor.  The other cores take threads from the run queue and drop to user
  mode.  User code reaches the kernel through ten system calls: page grants, the framebuffer, a command
  batch, I/O ports, interrupt flags, spawning and one message slot.  The Marshal unpacks an archive, starts
  the drivers that its file \<^verbatim>\<open>init.rc\<close> names and runs the application, which draws on the framebuffer and
  reacts to the messages of the keyboard and mouse driver.

  \<^bold>\<open>Theories and sources.\<close>  In the order of import; paths are relative to \<^verbatim>\<open>src/stardust/src\<close> for the kernel
  and to \<^verbatim>\<open>src/userland\<close> for user space.

  \<^item> \<open>Stardust_Prelude\<close>: words as machine integers, panics and the result type \<open>'a res\<close>, the checked
    operators of the development profile, page arithmetic, shared lemmas.
  \<^item> \<open>Oracle\<close>: \<^verbatim>\<open>oracle.rs\<close>, the serial log as a list of bytes.
  \<^item> \<open>Security\<close>: \<^verbatim>\<open>security/token.rs\<close>, \<^verbatim>\<open>security/cdt.rs\<close>, the capability table.
  \<^item> \<open>Frame_Allocator\<close>: \<^verbatim>\<open>memory/physical.rs\<close>, \<^verbatim>\<open>memory/frame.rs\<close>; locale \<open>frame_source\<close>, interpreted on the
    bump allocator.
  \<^item> \<open>Memory\<close>: \<^verbatim>\<open>memory/paging.rs\<close>, \<^verbatim>\<open>memory/mapper.rs\<close>, \<^verbatim>\<open>memory/shared.rs\<close>, and memory accesses through the
    page table.
  \<^item> \<open>Scheduler\<close>: \<^verbatim>\<open>task/thread.rs\<close>, the table of \<^verbatim>\<open>task/scheduler.rs\<close>; a locale for bounded queues, interpreted on
    the thread table.
  \<^item> \<open>Syscall\<close>: \<^verbatim>\<open>arch/x86_64/syscall.rs\<close> (dispatcher), \<^verbatim>\<open>hal/display.rs\<close>, \<^verbatim>\<open>arch/x86_64/iommu.rs\<close>; the record \<open>kernel\<close> of
    all statics.
  \<^item> \<open>Cpu\<close>: registers and the assembly of \<^verbatim>\<open>task/context.rs\<close>, \<^verbatim>\<open>task/process.rs\<close>, \<^verbatim>\<open>arch/x86_64/syscall.rs\<close>, \<^verbatim>\<open>arch/x86_64/gdt.rs\<close>,
    \<^verbatim>\<open>arch/x86_64/cpu.rs\<close>, \<^verbatim>\<open>arch/x86_64/mod.rs\<close>, \<^verbatim>\<open>arch/mod.rs\<close>.
  \<^item> \<open>Interrupts\<close>: \<^verbatim>\<open>arch/x86_64/apic.rs\<close>, \<^verbatim>\<open>arch/x86_64/idt.rs\<close>; the TLB shootdown as a step relation.
  \<^item> \<open>Smp\<close>: \<^verbatim>\<open>smp.rs\<close> and the core roles of \<^verbatim>\<open>task/scheduler.rs\<close>, all cores as a step relation.
  \<^item> \<open>Exceptions\<close>: the task state segment of \<^verbatim>\<open>arch/x86_64/gdt.rs\<close> and the way of the processor through it and the
    interrupt table to a handler, nested faults included.
  \<^item> \<open>Supervisor\<close>: the loop of core 0 in \<^verbatim>\<open>task/scheduler.rs\<close> with \<^verbatim>\<open>monitor\<close> and \<^verbatim>\<open>mwait\<close> of \<^verbatim>\<open>arch/x86_64/cpu.rs\<close>, one
    step per access to its mailbox; the panic handler of \<^verbatim>\<open>main.rs\<close>.
  \<^item> \<open>Kernel_Elf\<close>, \<open>Elf_Image\<close>: \<^verbatim>\<open>task/elf.rs\<close>, \<^verbatim>\<open>task/loader.rs\<close>, one segment and whole images; locale
    \<open>segment_loader\<close>, interpreted on the kernel's loader and on the library's.
  \<^item> \<open>Boot\<close>: \<^verbatim>\<open>main.rs\<close>, the whole boot sequence of core 0.
  \<^item> \<open>Lib_Stardust\<close>: \<^verbatim>\<open>libs/libstardust/src/lib.rs\<close>; locale \<open>services\<close>, the contract of the system call
    interface, interpreted on the kernel's dispatcher.
  \<^item> \<open>Intrinsics\<close>: the memory functions of the user binaries on an array of bytes.
  \<^item> \<open>Tar\<close>: \<^verbatim>\<open>libs/libstardust/src/tar.rs\<close>.  \<open>User_Elf\<close>: \<^verbatim>\<open>libs/libstardust/src/elf.rs\<close>.
  \<^item> \<open>Ps2_Hid\<close>: \<^verbatim>\<open>drivers/ps2_hid\<close>; locale \<open>hid_services\<close>, the part of the contract that the driver uses.
    \<open>Gpu_Driver\<close>: \<^verbatim>\<open>drivers/gpu_driver\<close>.
  \<^item> \<open>Struct_Layout\<close>: the layout of the structures that kernel and library declare, by the rules of
    \<^verbatim>\<open>repr(C)\<close> and \<^verbatim>\<open>packed\<close>.
  \<^item> \<open>Display\<close>: the drawing function of \<^verbatim>\<open>marshal\<close>.  \<open>Test_App\<close>: \<^verbatim>\<open>apps/test_app\<close>.  \<open>Marshal\<close>: the start of
    \<^verbatim>\<open>marshal\<close>, its allocator, its init protocol and its application stage.
  \<^item> \<open>User_Heap\<close>: the heap and stack that the Marshal sets up, \<^verbatim>\<open>libs/libstardust/src/allocator.rs\<close>, and the entry
    of the application stage.  \<open>Driver_Start\<close>: the start of the Marshal as a whole, no new code.
  \<^item> \<open>Elf_File\<close>: executables as lists of bytes, and when such a file in memory is an image for the loaders.
    \<open>Device_Start\<close>: the mapping of the framebuffer and the set-up of the devices succeed.
    \<open>System_Start\<close>: boot, dispatch, start of the Marshal and application stage composed, no new code.
  \<^item> \<open>Process_Memory\<close>: the memory functions of \<^verbatim>\<open>marshal\<close> and of \<^verbatim>\<open>drivers/gpu_driver\<close> on the paged memory of a process.
  \<^item> \<open>Input_Pipeline\<close>: keyboard and mouse driver, kernel and application composed in any interleaving; locale
    \<open>pipeline_services\<close>, which extends \<open>hid_services\<close>, interpreted on the kernel's dispatcher.

  \<^bold>\<open>State and operations.\<close>  The statics of the kernel are the record \<open>kernel\<close>, which extends the record
  \<open>mem_state\<close> of theory \<open>Memory\<close> (allocator, page table, capability table, log, physical memory).  Locks are not
  modelled: a critical section is one function on the state, and interleavings are considered between
  critical sections, in the step relations of \<open>Smp\<close>, \<open>Interrupts\<close> and \<open>Supervisor\<close>, as sequences of actors in
  \<open>Input_Pipeline\<close> and, in \<open>Test_App\<close>, as arbitrary system behaviour between two polls.  A function of the source is a definition of the same name; code that may
  panic or fault has a result in \<open>'a res\<close>.  The kernel is built in the development profile, where
  arithmetic is checked; user space is built in release mode, where it wraps.

  \<^bold>\<open>What the lemmas show.\<close>
  \<^item> \<^emph>\<open>Memory safety of the kernel\<close>: frames are handed out once; after any system calls the upper half is
    unchanged and no frame is shared (\<open>Frame_Allocator\<close>, \<open>Syscall\<close>, and for the booted system below).
  \<^item> \<^emph>\<open>Boot and loading\<close>: both loaders place whole images correctly, and the boot sequence reaches the
    supervisor with the Marshal ready to run.
  \<^item> \<^emph>\<open>Concurrency\<close>: core numbering, the start-up barrier, dispatch, the TLB shootdown and the
    mailbox of the supervisor in every interleaving.
  \<^item> \<^emph>\<open>Machine level\<close>: the system call path, the context switch and interrupts preserve registers and
    stacks; which core can take an exception from user mode at all.
  \<^item> \<^emph>\<open>User space\<close>: archive and configuration are read as written; every configured driver is loaded and started
    when its image is valid and memory suffices; from power on the system reaches its desktop, with assumptions
    only on the machine and the bytes of the files; heap and stacks are ready when they are used; the memory
    functions see the paged memory of a process as an array, since no frame is mapped twice; the drivers
    deliver exactly what the devices report; the application refines a specification over integers; drawing
    stays in the framebuffer; input reaches the desktop through driver, kernel and application.
  \<^item> \<^emph>\<open>Deviations\<close>: some theorems state behaviour that is a defect, such as a batch count that stops the kernel,
    the kernel stack of system calls, segments that are loaded wrongly, or exceptions on cores without a
    task state segment.

  \<^bold>\<open>Bounds and fuel.\<close>  Loops with a bound in the source recurse over it (lists of the values of the loop variable,
  or a measure; nested faults by
  the rank of the fault).  The wait of the keyboard driver has its 100000 polls.  Endless loops (driver, application,
  supervisor) take the number of their iterations as an argument, and the theorems hold for every number.

  \<^bold>\<open>Parameters.\<close>  The Limine responses, the page table of the \<^verbatim>\<open>x86_64\<close> crate and the devices behind ports are
  fields of the records \<open>platform\<close> and \<open>hw_platform\<close>; \<open>paging_laws\<close> and \<open>pci_law\<close> state what is relied on.
  The heap of \<^verbatim>\<open>linked_list_allocator\<close> is an argument of the allocator of theory \<open>Marshal\<close>, and so is the interpreter
  (the \<^verbatim>\<open>wasmi\<close> crate) of its application stage.  The task state segment that \<^verbatim>\<open>TaskStateSegment::new\<close> returns and the
  addresses of its two stacks are arguments of \<open>TSS\<close>.

  \<^bold>\<open>Not modelled.\<close>  The lazy initialization of statics; the privilege check of gates for the \<^verbatim>\<open>int3\<close> instruction of user
  code and the stack that a handler uses for itself; the endless waits at the end of drivers and of their panic
  handlers; the traits of \<^verbatim>\<open>hal\<close> and the module files, which only declare and re-export names; linker scripts
  and the build script \<^verbatim>\<open>Orchestrator\<close>.
\<close>

section \<open>The system call path\<close>

text \<open>
  The compiled dispatcher, for the witnesses below: a function that puts the result in RAX and
  returns.
\<close>

definition direct_body :: "(u64 \<Rightarrow> u64 \<Rightarrow> u64 \<Rightarrow> 's \<Rightarrow> (u64 \<times> 's) res) \<Rightarrow> core \<Rightarrow> 's \<Rightarrow> (core \<times> 's) res" where
  "direct_body f c s =
     bindE (f (regs c RDI) (regs c RSI) (regs c RDX) s) (\<lambda>(r, s).
     Inr (c\<lparr>regs := (regs c)(RAX := r, RSP := regs c RSP + 8)\<rparr>, s))"

lemma abi_call_direct: "abi_call f (direct_body f)"
  by (auto simp: abi_call_def direct_body_def callee_saved_def split: sum.splits)

definition send_core :: core where
  "send_core = example_core\<lparr>regs := (\<lambda>_. 0)(RDI := SYS_IPC_SEND, RSI := 1, RDX := 77, RSP := 0x8000, RBX := 5)\<rparr>"

lemma send_core_runs:
  "syscall_dispatcher example_hw (regs send_core RDI) (regs send_core RSI) (regs send_core RDX) example_kernel =
     Inr (0, example_kernel\<lparr>GLOBAL_IPC_MAILBOX := 77\<rparr>)"
  by (simp add: syscall_dispatcher_def send_core_def)



text \<open>
  C40. The entry stub runs on the stack pointer that user mode chose: \<^verbatim>\<open>syscall\<close> does not switch
  stacks and the stub does not either, so a thread that sets RSP to an address of its choice makes
  the kernel store registers there.  Any value can be written to any address, of the kernel too.
\<close>

theorem system_call_writes_anywhere:
  assumes "abi_call (syscall_dispatcher P) body"
    and "syscall_dispatcher P (regs c RDI) (regs c RSI) (regs c RDX) s = Inr (r, s')"
  shows "\<exists>c'. syscall_entry body ret (syscall_instr next_rip (c\<lparr>regs := (regs c)(RSP := a + 24, RBP := v)\<rparr>)) s =
      Inr (c', s') \<and> load64 a (mem c') = v"
proof -
  let ?c = "syscall_instr next_rip (c\<lparr>regs := (regs c)(RSP := a + 24, RBP := v)\<rparr>)"
  have regs: "regs ?c = (regs c)(RSP := a + 24, RBP := v, RCX := next_rip, R11 := rflags c)"
    by (simp add: syscall_instr_def Let_def)
  obtain c' where "syscall_entry body ret ?c s = Inr (c', s')" "load64 (regs ?c RSP - 24) (mem c') = regs ?c RBP"
    by (rule syscall_entry_round_trip [OF assms(1), of ?c s r s' ret]) (use assms(2) in \<open>simp_all add: regs\<close>)
  then show ?thesis by (simp add: regs)
qed

theorem system_call_writes_anywhere_witness:
  "\<exists>c'. syscall_entry (direct_body (syscall_dispatcher example_hw)) 0x9000
      (syscall_instr 0x401002 (send_core\<lparr>regs := (regs send_core)(RSP := 0xFFFF800000100018, RBP := 0xBAD)\<rparr>)) example_kernel =
      Inr (c', example_kernel\<lparr>GLOBAL_IPC_MAILBOX := 77\<rparr>) \<and> load64 0xFFFF800000100000 (mem c') = 0xBAD"
  using system_call_writes_anywhere [OF abi_call_direct send_core_runs, of "0x9000" "0x401002" "0xFFFF800000100000" "0xBAD"]
  by simp

section \<open>The booted system\<close>

text \<open>
  C1. The system that boots stays isolated.  After the boot sequence, whatever system calls user mode
  issues and as long as the kernel runs, the kernel invariant holds, every mapping of the upper half is
  the one that the boot left, no free frame is visible to user mode and no usable frame is visible
  through two user pages.
\<close>

theorem booted_system_stays_isolated:
  assumes "boots P L sel c entries h" and "base_revision_supported L"
    and "module_response L = Some ((b, len) # ms)" and "god_image P entries h b hdr phs (boot_state P h dev ram)"
    and "framebuffer_outside P entries (boot_state P h dev ram)"
  shows "\<exists>m. start P L img sel (power_on dev ram c) = Inr (Some (image_entry hdr, m)) \<and>
    (\<forall>calls rs s'. run_syscalls P calls (kern m) = Inr (rs, s') \<longrightarrow>
       kernel_inv entries s' \<and> kernel_half_kept P (kern m) s' \<and> exclusive_frames P entries s')"
proof -
  obtain m where m: "start P L img sel (power_on dev ram c) = Inr (Some (image_entry hdr, m))"
    "kernel_inv entries (kern m)" "exclusive_frames P entries (kern m)" "HHDM_OFFSET (kern m) = h"
    using boot_god_process [OF assms(1-4), of img] by blast
  have laws: "paging_laws P entries" using assms(1) by (simp add: boots_def)
  have "framebuffer_outside P entries (kern m)"
    by (rule framebuffer_outside_cong [OF _ assms(5)]) (simp add: m(4) boot_state_def)
  with m run_syscalls_kept [OF laws m(2)] run_syscalls_exclusive [OF laws m(2) _ m(3)] show ?thesis by blast
qed

theorem booted_system_stays_isolated_witness:
  "\<exists>m. start boot_hw boot_limine \<lparr>gdt_addr = 0x2000, idt_image = replicate 10 0xFF, syscall_entry_addr = 0x1000\<rparr>
       (snd (GDT example_gdt)) (power_on [] image_ram example_core) = Inr (Some (image_entry image_header, m)) \<and>
     (\<exists>s'. run_syscalls boot_hw [(9, 1, 77)] (kern m) = Inr ([0], s') \<and> exclusive_frames boot_hw boot_memmap s')"
proof -
  have L: "base_revision_supported boot_limine" "module_response boot_limine = Some [(image_base, 124)]"
    by (simp_all add: boot_limine_def)
  have "unat f + 4096 \<le> 0x80000000" if "f \<in> set (all_frames boot_memmap)" for f
    using that set_all_frames [OF boot_memmap_frames(1), of f] by (auto simp: boot_memmap_def entry_end_def)
  then have "framebuffer_outside boot_hw boot_memmap (boot_state boot_hw 0xFFFF800000000000 [] image_ram)"
    by (simp add: framebuffer_outside_def get_framebuffer_details_def boot_hw_def example_hw_def boot_state_def
        saturating_sub_def)
  from booted_system_stays_isolated [OF boot_hw_boots L boot_hw_image this] obtain m where
    m: "start boot_hw boot_limine \<lparr>gdt_addr = 0x2000, idt_image = replicate 10 0xFF, syscall_entry_addr = 0x1000\<rparr>
       (snd (GDT example_gdt)) (power_on [] image_ram example_core) = Inr (Some (image_entry image_header, m))"
    "\<And>calls rs s'. run_syscalls boot_hw calls (kern m) = Inr (rs, s') \<Longrightarrow> exclusive_frames boot_hw boot_memmap s'"
    by blast
  have "run_syscalls boot_hw [(9, 1, 77)] (kern m) = Inr ([0], (kern m)\<lparr>GLOBAL_IPC_MAILBOX := 77\<rparr>)"
    by (simp add: syscall_dispatcher_def)
  with m show ?thesis by blast
qed

end
